(* ===== verification/Prelude.thy ===== *)
theory Prelude
  imports Main "HOL-Library.Word"
begin

text \<open>
  Shared vocabulary of the development: Go's fixed-width signed integers written out on
  \<open>int\<close>, Go's run-time failures as values, checked indexing and slicing of slices, Go's string
  formatting where the code relies on the text, and the generic list lemmas the components share.
\<close>

section \<open>Proof collections\<close>

named_theorems go_simps \<open>equations of the Go primitives on concrete arguments\<close>
named_theorems range_intros \<open>facts that bring an integer into its machine range\<close>

section \<open>Fixed-width integers\<close>

text \<open>
  An \<open>int32\<close> of the source is an \<open>int\<close> in the range of the type; every arithmetic
  operation of the source that may leave the range is followed by \<open>i32\<close> (two's complement
  wrap-around). The same for Go's \<open>int\<close>, which is 64 bits wide on the supported targets.
\<close>

definition i32 :: "int \<Rightarrow> int" where
  "i32 x = (x + 2147483648) mod 4294967296 - 2147483648"

definition i64 :: "int \<Rightarrow> int" where
  "i64 x = (x + 9223372036854775808) mod 18446744073709551616 - 9223372036854775808"

definition in_i32 :: "int \<Rightarrow> bool" where
  "in_i32 x \<longleftrightarrow> - 2147483648 \<le> x \<and> x < 2147483648"

abbreviation max_i32 :: int where
  "max_i32 \<equiv> 2147483647"

lemma i32_id: "- 2147483648 \<le> x \<Longrightarrow> x < 2147483648 \<Longrightarrow> i32 x = x"
  by (simp add: i32_def)

lemma i32_in_range [simp, range_intros]: "in_i32 (i32 x)"
proof -
  have "0 \<le> (x + 2147483648) mod 4294967296" and "(x + 2147483648) mod 4294967296 < 4294967296"
    by simp_all
  then show ?thesis by (simp add: i32_def in_i32_def)
qed

lemma i32_in_i32: "in_i32 x \<Longrightarrow> i32 x = x"
  by (simp add: in_i32_def i32_id)

lemma i32_wraps: "i32 (max_i32 + 1) = - 2147483648"
  by (simp add: i32_def)

lemma i64_id: "- 9223372036854775808 \<le> x \<Longrightarrow> x < 9223372036854775808 \<Longrightarrow> i64 x = x"
  by (simp add: i64_def)

lemma i64_add_left [simp]: "i64 (i64 x + y) = i64 (x + y)"
proof -
  have "i64 (i64 x + y)
      = ((x + 9223372036854775808) mod 18446744073709551616 + y) mod 18446744073709551616
        - 9223372036854775808"
    by (simp add: i64_def algebra_simps)
  also have "\<dots> = (x + 9223372036854775808 + y) mod 18446744073709551616 - 9223372036854775808"
    by (simp only: mod_add_left_eq)
  also have "\<dots> = i64 (x + y)" by (simp add: i64_def algebra_simps)
  finally show ?thesis .
qed

lemma i64_add_right [simp]: "i64 (y + i64 x) = i64 (y + x)"
  by (metis add.commute i64_add_left)

lemma i64_diff_left [simp]: "i64 (i64 x - y) = i64 (x - y)"
  using i64_add_left [of x "- y"] by simp

text \<open>Go's \<open>%\<close> truncates towards zero; on non-negative operands it is \<open>mod\<close>.\<close>

definition go_rem :: "int \<Rightarrow> int \<Rightarrow> int" where
  "go_rem a b = sgn a * (\<bar>a\<bar> mod \<bar>b\<bar>)"

lemma go_rem_nonneg: "0 \<le> a \<Longrightarrow> 0 < b \<Longrightarrow> go_rem a b = a mod b"
  by (cases "a = 0") (simp_all add: go_rem_def)

text \<open>Go's integer division truncates towards zero.\<close>

definition go_div :: "int \<Rightarrow> int \<Rightarrow> int" where
  "go_div a b = sgn a * sgn b * (\<bar>a\<bar> div \<bar>b\<bar>)"

lemma go_div_nonneg: "0 \<le> a \<Longrightarrow> 0 < b \<Longrightarrow> go_div a b = a div b"
  by (cases "a = 0") (simp_all add: go_div_def)

section \<open>Failures as values\<close>

text \<open>
  A Go run-time panic that nobody recovers, and a call of \<open>log.Fatalf\<close> or
  \<open>os.Exit\<close>, both end the process.
\<close>

datatype go_error =
    IndexOutOfRange
  | SliceBoundsOutOfRange
  | NilDereference
  | MakeSliceOutOfRange
  | ProcessExit

type_synonym 'a go = "go_error + 'a"

definition go_bind :: "'a go \<Rightarrow> ('a \<Rightarrow> 'b go) \<Rightarrow> 'b go" where
  "go_bind r f = (case r of Inl e \<Rightarrow> Inl e | Inr x \<Rightarrow> f x)"

lemma go_bind_simps [simp, go_simps]:
  "go_bind (Inl e) f = Inl e"
  "go_bind (Inr x) f = f x"
  by (simp_all add: go_bind_def)

lemma go_bind_eq_Inr: "go_bind r f = Inr y \<longleftrightarrow> (\<exists>x. r = Inr x \<and> f x = Inr y)"
  by (cases r) simp_all

text \<open>Reading \<open>xs[i]\<close>: a panic out of range.\<close>

definition go_index :: "'a list \<Rightarrow> int \<Rightarrow> 'a go" where
  "go_index xs i = (if 0 \<le> i \<and> i < int (length xs) then Inr (xs ! nat i) else Inl IndexOutOfRange)"

text \<open>
  The slice \<open>xs[lo:hi]\<close>. Go allows \<open>hi\<close> up to the capacity of the slice; a read past the
  length yields zero values that the code never expects, so the model is strict and counts
  them as a panic too.
\<close>

definition go_slice :: "'a list \<Rightarrow> int \<Rightarrow> int \<Rightarrow> 'a list go" where
  "go_slice xs lo hi =
     (if 0 \<le> lo \<and> lo \<le> hi \<and> hi \<le> int (length xs) then Inr (take (nat (hi - lo)) (drop (nat lo) xs))
      else Inl SliceBoundsOutOfRange)"

text \<open>\<open>make([]T, n)\<close>: \<open>n\<close> zero values, a panic for a negative \<open>n\<close>.\<close>

definition go_make :: "int \<Rightarrow> 'a \<Rightarrow> 'a list go" where
  "go_make n z = (if n < 0 then Inl MakeSliceOutOfRange else Inr (replicate (nat n) z))"

lemma go_index_Inr [simp]: "0 \<le> i \<Longrightarrow> i < int (length xs) \<Longrightarrow> go_index xs i = Inr (xs ! nat i)"
  by (simp add: go_index_def)

lemma go_index_eq_Inr: "go_index xs i = Inr x \<longleftrightarrow> 0 \<le> i \<and> i < int (length xs) \<and> x = xs ! nat i"
  by (auto simp: go_index_def)

lemma go_index_eq_Inl: "go_index xs i = Inl e \<longleftrightarrow> (i < 0 \<or> int (length xs) \<le> i) \<and> e = IndexOutOfRange"
  by (auto simp: go_index_def)

section \<open>Lists\<close>

lemma sum_list_positive_index: "i < length xs \<Longrightarrow> (xs :: nat list) ! i \<le> sum_list xs"
  by (rule elem_le_sum_list)

lemma take_Suc_update: "i < length xs \<Longrightarrow> take (Suc i) (xs[i := x]) = take i xs @ [x]"
  by (simp add: take_Suc_conv_app_nth)

lemma take_drop_nth: "i < length xs \<Longrightarrow> drop i xs = xs ! i # drop (Suc i) xs"
  by (rule Cons_nth_drop_Suc [symmetric])

end
