(* ===== verification/Raft_Types.thy ===== *)
theory Raft_Types
  imports Prelude
begin

text \<open>
  The data of a Raft replica: the messages of \<^verbatim>\<open>src/raft/protos/replica.proto\<close> (generated
  Go structs in \<^verbatim>\<open>replica.pb.go\<close>) and the structs \<open>NodeMetadata\<close> and \<open>RaftNode\<close> of
  \<^verbatim>\<open>src/raft/raft_node.go\<close>.  Fields of type \<open>int32\<close> are integers in the range of the type.
  The struct's channels are not data: a send on a channel and the start of a goroutine are
  recorded, in program order, in the field \<open>effects\<close>.  The field \<open>disk\<close> is the replica's
  persistence file.
\<close>

section \<open>Messages\<close>

record LogEntry =
  Term :: int
  Operation :: "string list"
  Clientid :: string

record RequestVoteMessage =
  rv_Term :: int
  CandidateId :: int
  LastLogIndex :: int
  LastLogTerm :: int

record RequestVoteResponse =
  rvr_Term :: int
  VoteGranted :: bool

record AppendEntriesMessage =
  ae_Term :: int
  LeaderId :: int
  PrevLogIndex :: int
  PrevLogTerm :: int
  LeaderCommit :: int
  Entries :: "LogEntry list"
  LeaderAddr :: string
  LatestClient :: string

record AppendEntriesResponse =
  aer_Term :: int
  Success :: bool

section \<open>The node\<close>

datatype RaftNodeState = Follower | Candidate | Leader | Down

text \<open>
  A client stub is nil (\<open>None\<close>) or leads to the replica of some index.  The server handles
  and the shutdown channel of the struct carry no protocol state and are left out.
\<close>

record NodeMetadata =
  n_replicas :: int
  replica_id :: int
  peer_replica_clients :: "nat option list"
  kvstore_addr :: string
  raft_persistence_file :: string
  leaderAddress :: string
  nodeAddress :: string
  latestClient :: string

text \<open>Values of the \<open>map[string]interface{}\<close> that is persisted, and the file.\<close>

datatype svalue = SInt32 int | SLog "LogEntry list"

type_synonym Storage = "string \<Rightarrow> svalue option"

datatype raft_file = NoFile | EmptyFile | GobFile Storage

datatype effect =
    Go_RunElectionTimer
  | Go_Send_electionResetEvent
  | Send_electionResetEvent
  | Send_stopElectiontimer
  | Send_commits_ready int
  | Go_RequestVote int
  | Go_HeartBeats

record RaftNode =
  Meta :: NodeMetadata
  trackMessage :: "string \<Rightarrow> string list option"
  currentTerm :: int
  votedFor :: int
  log :: "LogEntry list"
  commitIndex :: int
  lastApplied :: int
  state :: RaftNodeState
  nextIndex :: "int list"
  matchIndex :: "int list"
  storage :: Storage
  disk :: raft_file
  effects :: "effect list"

definition emit :: "effect \<Rightarrow> RaftNode \<Rightarrow> RaftNode" where
  "emit e node = node\<lparr>effects := effects node @ [e]\<rparr>"

lemma emit_simps [simp]:
  "Meta (emit e n) = Meta n" "trackMessage (emit e n) = trackMessage n"
  "currentTerm (emit e n) = currentTerm n" "votedFor (emit e n) = votedFor n" "log (emit e n) = log n"
  "commitIndex (emit e n) = commitIndex n" "lastApplied (emit e n) = lastApplied n"
  "state (emit e n) = state n" "nextIndex (emit e n) = nextIndex n" "matchIndex (emit e n) = matchIndex n"
  "storage (emit e n) = storage n" "disk (emit e n) = disk n" "effects (emit e n) = effects n @ [e]"
  by (simp_all add: emit_def)

definition terms :: "LogEntry list \<Rightarrow> int list" where
  "terms l = map Term l"

text \<open>
  The index and term of the last log entry, as \<open>RequestVote\<close> and \<open>StartElection\<close> compute
  them: \<open>-1, -1\<close> for an empty log.
\<close>

definition latest :: "LogEntry list \<Rightarrow> int \<times> int" where
  "latest l =
     (let logLen = i32 (int (length l))
      in if logLen > 0 then (i32 (logLen - 1), Term (l ! nat (logLen - 1))) else (-1, -1))"

lemma i32_le_nonneg: "0 \<le> x \<Longrightarrow> i32 x \<le> x"
proof -
  assume "0 \<le> x"
  have "(x + 2147483648) mod 4294967296 \<le> x + 2147483648" using \<open>0 \<le> x\<close> by (intro zmod_le_nonneg_dividend) simp
  then show ?thesis by (simp add: i32_def)
qed

text \<open>The read of the last entry never leaves the slice.\<close>

lemma latest_index_in_range: "i32 (int (length l)) > 0 \<Longrightarrow> nat (i32 (int (length l)) - 1) < length l"
  using i32_le_nonneg [of "int (length l)"] by linarith

text \<open>Logs that fit into \<open>int32\<close> indices.\<close>

definition small :: "'a list \<Rightarrow> bool" where
  "small l \<longleftrightarrow> int (length l) < 2147483648"

lemma small_i32 [simp]: "small l \<Longrightarrow> i32 (int (length l)) = int (length l)"
  by (simp add: small_def i32_id)

lemma latest_small:
  "small l \<Longrightarrow> latest l = (if l = [] then (-1, -1) else (int (length l) - 1, Term (last l)))"
proof (cases "l = []")
  case False
  assume s: "small l"
  have "nat (int (length l) - 1) = length l - 1" by (simp add: nat_diff_distrib)
  with False s show ?thesis
    by (simp add: latest_def Let_def last_conv_nth i32_id small_def)
qed (simp add: latest_def i32_id Let_def)

end
