(* ===== verification/Raft_Storage.thy ===== *)
theory Raft_Storage
  imports Raft_Types
begin

text \<open>
  Persistence, \<^verbatim>\<open>src/raft/storage.go\<close>, and the construction of a node in
  \<^verbatim>\<open>InitializeNode\<close> of \<^verbatim>\<open>src/raft/raft_node.go\<close>.  The codec of \<^verbatim>\<open>encoding/gob\<close> is the
  identity on the persisted map; decoding adds the decoded entries to the existing map.  The
  OS is taken to open and create files successfully.  The central fact is the round trip: a
  node built on the file of another node has its term, vote, log, commit and applied indices.
\<close>

section \<open>The storage object\<close>

definition NewStorage :: Storage where
  "NewStorage = (\<lambda>_. None)"

definition storage_Set :: "string \<Rightarrow> svalue \<Rightarrow> Storage \<Rightarrow> Storage" where
  "storage_Set key value stored = stored(key := Some value)"

text \<open>\<open>WriteFile\<close> creates the file, which empties it, and then fills it.\<close>

definition CreateFile :: raft_file where
  "CreateFile = EmptyFile"

definition WriteFile :: "Storage \<Rightarrow> raft_file" where
  "WriteFile stored = GobFile stored"

definition ReadFile :: "Storage \<Rightarrow> raft_file \<Rightarrow> Storage go" where
  "ReadFile stored f =
     (case f of
        NoFile \<Rightarrow> Inl ProcessExit
      | EmptyFile \<Rightarrow> Inl ProcessExit
      | GobFile m \<Rightarrow> Inr (stored ++ m))"

definition storage_Get :: "string \<Rightarrow> Storage \<Rightarrow> raft_file \<Rightarrow> (svalue option \<times> Storage) go" where
  "storage_Get key stored f =
     go_bind (ReadFile stored f) (\<lambda>stored'. Inr (stored' key, stored'))"

definition storage_HasData :: "raft_file \<Rightarrow> bool" where
  "storage_HasData f =
     (case f of
        NoFile \<Rightarrow> False
      | EmptyFile \<Rightarrow> False
      | GobFile m \<Rightarrow> True)"

section \<open>Saving and restoring a node\<close>

definition PersistToStorage :: "RaftNode \<Rightarrow> RaftNode" where
  "PersistToStorage node =
     (let s1 = storage_Set ''currentTerm'' (SInt32 (currentTerm node)) (storage node);
          s2 = storage_Set ''votedFor'' (SInt32 (votedFor node)) s1;
          s3 = storage_Set ''log'' (SLog (log node)) s2;
          s4 = storage_Set ''commitIndex'' (SInt32 (commitIndex node)) s3;
          s5 = storage_Set ''lastApplied'' (SInt32 (lastApplied node)) s4
      in node\<lparr>storage := s5, disk := WriteFile s5\<rparr>)"

text \<open>
  One field of \<open>RestoreFromStorage\<close>: a missing key is fatal, a value of the wrong dynamic
  type fails the type assertion.
\<close>

definition restore_int32 :: "string \<Rightarrow> RaftNode \<Rightarrow> (int \<times> RaftNode) go" where
  "restore_int32 key node =
     go_bind (storage_Get key (storage node) (disk node)) (\<lambda>(v, s).
       (case v of
          None \<Rightarrow> Inl ProcessExit
        | Some (SInt32 i) \<Rightarrow> Inr (i, node\<lparr>storage := s\<rparr>)
        | Some (SLog l) \<Rightarrow> Inl ProcessExit))"

definition restore_log :: "string \<Rightarrow> RaftNode \<Rightarrow> (LogEntry list \<times> RaftNode) go" where
  "restore_log key node =
     go_bind (storage_Get key (storage node) (disk node)) (\<lambda>(v, s).
       (case v of
          None \<Rightarrow> Inl ProcessExit
        | Some (SInt32 i) \<Rightarrow> Inl ProcessExit
        | Some (SLog l) \<Rightarrow> Inr (l, node\<lparr>storage := s\<rparr>)))"

definition RestoreFromStorage :: "RaftNode \<Rightarrow> RaftNode go" where
  "RestoreFromStorage node =
     go_bind (restore_int32 ''currentTerm'' node) (\<lambda>(t1, n1).
     go_bind (restore_int32 ''votedFor'' (n1\<lparr>currentTerm := t1\<rparr>)) (\<lambda>(t2, n2).
     go_bind (restore_log ''log'' (n2\<lparr>votedFor := t2\<rparr>)) (\<lambda>(t3, n3).
     go_bind (restore_int32 ''commitIndex'' (n3\<lparr>log := t3\<rparr>)) (\<lambda>(t4, n4).
     go_bind (restore_int32 ''lastApplied'' (n4\<lparr>commitIndex := t4\<rparr>)) (\<lambda>(t5, n5).
       Inr (n5\<lparr>lastApplied := t5\<rparr>))))))"

text \<open>The two composite literals of \<open>InitializeNode\<close>.\<close>

definition initial_node ::
    "int \<Rightarrow> int \<Rightarrow> string \<Rightarrow> string \<Rightarrow> nat option list \<Rightarrow> raft_file \<Rightarrow> RaftNode" where
  "initial_node n_replica rid keyvalue_addr fname clients f =
     (let meta = \<lparr>n_replicas = n_replica, replica_id = i32 rid,
                 peer_replica_clients = clients,
                 kvstore_addr = keyvalue_addr, raft_persistence_file = fname,
                 leaderAddress = [], nodeAddress = [], latestClient = []\<rparr>
      in \<lparr>Meta = meta, trackMessage = (\<lambda>_. None), currentTerm = 0, votedFor = -1,
          log = [], commitIndex = -1, lastApplied = -1, state = Follower,
          nextIndex = [], matchIndex = [], storage = NewStorage, disk = f, effects = []\<rparr>)"

text \<open>
  \<open>InitializeNode\<close> on a file system whose persistence file is \<open>f\<close>.  The file name is the
  key-value store address without its leading colon.
\<close>

definition InitializeNode :: "int \<Rightarrow> int \<Rightarrow> string \<Rightarrow> raft_file \<Rightarrow> RaftNode go" where
  "InitializeNode n_replica rid keyvalue_addr f =
     go_bind (go_make n_replica None) (\<lambda>clients.
     go_bind (go_slice keyvalue_addr 1 (int (length keyvalue_addr))) (\<lambda>fname.
       let raft_node = initial_node n_replica rid keyvalue_addr fname clients f
       in if storage_HasData f then RestoreFromStorage raft_node else Inr raft_node))"

text \<open>
  \<open>ConnectToPeerReplicas\<close>: a stub for every other replica (a dial never fails, even when the
  peer is down), the pending commits handed to the apply loop, and the election timer started.
\<close>

definition ConnectToPeerReplicas :: "RaftNode \<Rightarrow> RaftNode" where
  "ConnectToPeerReplicas node =
     (let client_objs = map (\<lambda>i. if int i = replica_id (Meta node) then None else Some i)
                          [0..<nat (n_replicas (Meta node))];
          n1 = node\<lparr>Meta := (Meta node)\<lparr>peer_replica_clients := client_objs\<rparr>\<rparr>;
          n2 = (if commitIndex n1 > lastApplied n1
                then emit (Send_commits_ready (i32 (commitIndex n1 - lastApplied n1))) n1 else n1)
      in if state n2 = Follower then emit Go_RunElectionTimer n2 else n2)"

lemma ConnectToPeerReplicas_simps [simp]:
  "currentTerm (ConnectToPeerReplicas n) = currentTerm n" "votedFor (ConnectToPeerReplicas n) = votedFor n"
  "log (ConnectToPeerReplicas n) = log n" "commitIndex (ConnectToPeerReplicas n) = commitIndex n"
  "lastApplied (ConnectToPeerReplicas n) = lastApplied n" "state (ConnectToPeerReplicas n) = state n"
  "disk (ConnectToPeerReplicas n) = disk n"
  "replica_id (Meta (ConnectToPeerReplicas n)) = replica_id (Meta n)"
  "n_replicas (Meta (ConnectToPeerReplicas n)) = n_replicas (Meta n)"
  "peer_replica_clients (Meta (ConnectToPeerReplicas n))
     = map (\<lambda>i. if int i = replica_id (Meta n) then None else Some i) [0..<nat (n_replicas (Meta n))]"
  by (simp_all add: ConnectToPeerReplicas_def Let_def)

section \<open>What is on disk\<close>

definition disk_int32 :: "string \<Rightarrow> raft_file \<Rightarrow> int \<Rightarrow> int" where
  "disk_int32 key f dflt =
     (case f of GobFile m \<Rightarrow> (case m key of Some (SInt32 i) \<Rightarrow> i | _ \<Rightarrow> dflt) | _ \<Rightarrow> dflt)"

definition disk_log :: "raft_file \<Rightarrow> LogEntry list" where
  "disk_log f =
     (case f of GobFile m \<Rightarrow> (case m ''log'' of Some (SLog l) \<Rightarrow> l | _ \<Rightarrow> []) | _ \<Rightarrow> [])"

text \<open>The five fields on disk and the same five fields of the node; an absent file stands for
  the initial values.\<close>

definition disk_state :: "raft_file \<Rightarrow> int \<times> int \<times> LogEntry list \<times> int \<times> int" where
  "disk_state f =
     (disk_int32 ''currentTerm'' f 0, disk_int32 ''votedFor'' f (-1), disk_log f,
      disk_int32 ''commitIndex'' f (-1), disk_int32 ''lastApplied'' f (-1))"

definition node_state :: "RaftNode \<Rightarrow> int \<times> int \<times> LogEntry list \<times> int \<times> int" where
  "node_state n = (currentTerm n, votedFor n, log n, commitIndex n, lastApplied n)"

text \<open>A file that the code wrote: absent, or holding the five keys at their types.\<close>

definition has_int32 :: "Storage \<Rightarrow> string \<Rightarrow> bool" where
  "has_int32 m key = (case m key of Some (SInt32 i) \<Rightarrow> True | _ \<Rightarrow> False)"

definition has_log :: "Storage \<Rightarrow> string \<Rightarrow> bool" where
  "has_log m key = (case m key of Some (SLog l) \<Rightarrow> True | _ \<Rightarrow> False)"

definition file_ok :: "raft_file \<Rightarrow> bool" where
  "file_ok f =
     (case f of
        NoFile \<Rightarrow> True
      | EmptyFile \<Rightarrow> False
      | GobFile m \<Rightarrow> has_int32 m ''currentTerm'' \<and> has_int32 m ''votedFor'' \<and> has_log m ''log'' \<and>
                     has_int32 m ''commitIndex'' \<and> has_int32 m ''lastApplied'')"

lemma has_int32_iff: "has_int32 m key \<longleftrightarrow> (\<exists>i. m key = Some (SInt32 i))"
  by (simp add: has_int32_def split: option.splits svalue.splits)

lemma has_log_iff: "has_log m key \<longleftrightarrow> (\<exists>l. m key = Some (SLog l))"
  by (simp add: has_log_def split: option.splits svalue.splits)

lemma PersistToStorage_simps [simp]:
  "Meta (PersistToStorage n) = Meta n" "trackMessage (PersistToStorage n) = trackMessage n"
  "currentTerm (PersistToStorage n) = currentTerm n" "votedFor (PersistToStorage n) = votedFor n"
  "log (PersistToStorage n) = log n" "commitIndex (PersistToStorage n) = commitIndex n"
  "lastApplied (PersistToStorage n) = lastApplied n" "state (PersistToStorage n) = state n"
  "nextIndex (PersistToStorage n) = nextIndex n" "matchIndex (PersistToStorage n) = matchIndex n"
  "effects (PersistToStorage n) = effects n"
  by (simp_all add: PersistToStorage_def Let_def)

lemma PersistToStorage_disk [simp]:
  "disk_state (disk (PersistToStorage n)) = node_state n"
  "file_ok (disk (PersistToStorage n))"
  by (simp_all add: PersistToStorage_def Let_def disk_state_def disk_int32_def disk_log_def
      node_state_def storage_Set_def WriteFile_def file_ok_def has_int32_iff has_log_iff)

lemma file_ok_cases:
  assumes "file_ok f"
  obtains "f = NoFile"
  | m a b l c d where "f = GobFile m" "m ''currentTerm'' = Some (SInt32 a)" "m ''votedFor'' = Some (SInt32 b)"
      "m ''log'' = Some (SLog l)" "m ''commitIndex'' = Some (SInt32 c)" "m ''lastApplied'' = Some (SInt32 d)"
  using assms
  by (auto simp: file_ok_def has_int32_iff has_log_iff split: raft_file.splits)

text \<open>Starting on a file restores exactly what the file holds.\<close>

lemma InitializeNode_disk:
  assumes "file_ok f" and "addr \<noteq> []" and nr: "0 \<le> nr"
  shows "\<exists>n. InitializeNode nr rid addr f = Inr n \<and> node_state n = disk_state f \<and> state n = Follower \<and>
           disk n = f \<and> effects n = [] \<and> n_replicas (Meta n) = nr \<and> replica_id (Meta n) = i32 rid \<and>
           trackMessage n = (\<lambda>_. None)"
proof -
  have len: "1 \<le> int (length addr)" using assms(2) by (cases addr) simp_all
  from assms(1) show ?thesis
  proof (cases rule: file_ok_cases)
    case 1
    with len nr show ?thesis
      by (simp add: InitializeNode_def initial_node_def go_make_def go_slice_def storage_HasData_def disk_state_def disk_int32_def
          disk_log_def node_state_def Let_def)
  next
    case (2 m a b l c d)
    with len nr show ?thesis
      by (simp add: InitializeNode_def initial_node_def go_make_def go_slice_def storage_HasData_def disk_state_def disk_int32_def
          disk_log_def node_state_def Let_def RestoreFromStorage_def restore_int32_def restore_log_def
          storage_Get_def ReadFile_def map_add_def)
  qed
qed

end
