(* ===== verification/Raft_States.thy ===== *)
theory Raft_States
  imports Raft_Storage
begin

text \<open>
  The transitions between the roles of a replica, \<^verbatim>\<open>src/raft/states.go\<close>, with the synchronous
  part of \<open>StartElection\<close> of \<^verbatim>\<open>src/raft/election.go\<close>, which \<open>ToCandidate\<close> calls.  Each runs
  under the node's lock.  \<open>ToLeader\<close> gives the lock up while the NO-OP entry is replicated, so
  it is three sections: the part before the release, the part after a successful round, and
  the check after a failed round.
  The lemmas give the effect on the fields and the two node invariants: \<open>node_ok\<close>, the
  ordering of the indices within the log, and \<open>vote_saved\<close>, that the persisted term and vote
  are those in memory.
\<close>

section \<open>Transitions\<close>

definition ToFollower :: "int \<Rightarrow> RaftNode \<Rightarrow> RaftNode" where
  "ToFollower term node =
     (let prevState = state node;
          n1 = PersistToStorage (node\<lparr>state := Follower, currentTerm := term, votedFor := -1\<rparr>)
      in if prevState = Leader then emit Go_RunElectionTimer n1
         else emit Go_Send_electionResetEvent n1)"

text \<open>
  The loop of \<open>StartElection\<close> over the client stubs: one goroutine per peer, skipping the
  replica itself and nil stubs.
\<close>

fun StartElection_loop :: "nat option list \<Rightarrow> int \<Rightarrow> RaftNode \<Rightarrow> RaftNode" where
  "StartElection_loop [] rid node = node"
| "StartElection_loop (client_obj # clients) rid node =
     (if rid = replica_id (Meta node) then StartElection_loop clients (i32 (rid + 1)) node
      else if client_obj = None then StartElection_loop clients (i32 (rid + 1)) node
      else StartElection_loop clients (i32 (rid + 1)) (emit (Go_RequestVote rid) node))"

definition StartElection :: "RaftNode \<Rightarrow> RaftNode" where
  "StartElection node =
     emit Go_RunElectionTimer (StartElection_loop (peer_replica_clients (Meta node)) 0 node)"

definition ToCandidate :: "RaftNode \<Rightarrow> RaftNode" where
  "ToCandidate node =
     (let n1 = node\<lparr>state := Candidate\<rparr>;
          n2 = n1\<lparr>currentTerm := i32 (currentTerm n1 + 1)\<rparr>;
          n3 = n2\<lparr>votedFor := replica_id (Meta n2)\<rparr>
      in StartElection (PersistToStorage n3))"

definition ToLeader_begin :: "RaftNode \<Rightarrow> AppendEntriesMessage \<times> RaftNode" where
  "ToLeader_begin node =
     (let n1 = emit Send_stopElectiontimer node;
          n2 = n1\<lparr>state := Leader\<rparr>;
          n = nat (n_replicas (Meta n2)); self = replica_id (Meta n2);
          n3 = n2\<lparr>nextIndex := map (\<lambda>i. if int i = self then 0 else i32 (int (length (log n2)))) [0..<n],
                  matchIndex := map (\<lambda>i. 0) [0..<n]\<rparr>;
          operation = [''NO-OP''];
          n4 = n3\<lparr>log := log n3 @ [\<lparr>Term = currentTerm n3, Operation = operation, Clientid = '' ''\<rparr>]\<rparr>;
          msg = \<lparr>ae_Term = currentTerm n4, LeaderId = replica_id (Meta n4), PrevLogIndex = 0,
                 PrevLogTerm = 0, LeaderCommit = commitIndex n4, Entries = [],
                 LeaderAddr = nodeAddress (Meta n4), LatestClient = latestClient (Meta n4)\<rparr>
      in (msg, PersistToStorage n4))"

definition ToLeader_success :: "RaftNode \<Rightarrow> RaftNode" where
  "ToLeader_success node =
     (let n1 = node\<lparr>commitIndex := i32 (commitIndex node + 1)\<rparr>
      in emit Go_HeartBeats (emit (Send_commits_ready 1) (PersistToStorage n1)))"

text \<open>After a failed round: \<open>False\<close> is the early return of a replica that has stepped down.\<close>

definition ToLeader_failure :: "RaftNode \<Rightarrow> bool" where
  "ToLeader_failure node = (if state node \<noteq> Leader then False else True)"

section \<open>Effect on the fields\<close>

lemma ToFollower_simps [simp]:
  "Meta (ToFollower t n) = Meta n" "trackMessage (ToFollower t n) = trackMessage n"
  "currentTerm (ToFollower t n) = t" "votedFor (ToFollower t n) = -1" "log (ToFollower t n) = log n"
  "commitIndex (ToFollower t n) = commitIndex n" "lastApplied (ToFollower t n) = lastApplied n"
  "state (ToFollower t n) = Follower" "nextIndex (ToFollower t n) = nextIndex n"
  "matchIndex (ToFollower t n) = matchIndex n"
  "disk_state (disk (ToFollower t n)) = (t, -1, log n, commitIndex n, lastApplied n)"
  "file_ok (disk (ToFollower t n))"
  "effects (ToFollower t n) =
     effects n @ [if state n = Leader then Go_RunElectionTimer else Go_Send_electionResetEvent]"
  by (simp_all add: ToFollower_def Let_def node_state_def)

lemma StartElection_loop_simps [simp]:
  "Meta (StartElection_loop cs r n) = Meta n" "trackMessage (StartElection_loop cs r n) = trackMessage n"
  "currentTerm (StartElection_loop cs r n) = currentTerm n" "votedFor (StartElection_loop cs r n) = votedFor n"
  "log (StartElection_loop cs r n) = log n" "commitIndex (StartElection_loop cs r n) = commitIndex n"
  "lastApplied (StartElection_loop cs r n) = lastApplied n" "state (StartElection_loop cs r n) = state n"
  "nextIndex (StartElection_loop cs r n) = nextIndex n" "matchIndex (StartElection_loop cs r n) = matchIndex n"
  "storage (StartElection_loop cs r n) = storage n" "disk (StartElection_loop cs r n) = disk n"
  by (induction cs r n rule: StartElection_loop.induct) simp_all

text \<open>The peers that receive a vote request, in loop order.\<close>

fun vote_targets :: "nat option list \<Rightarrow> int \<Rightarrow> int \<Rightarrow> int list" where
  "vote_targets [] self rid = []"
| "vote_targets (c # cs) self rid =
     (if rid = self \<or> c = None then vote_targets cs self (i32 (rid + 1))
      else rid # vote_targets cs self (i32 (rid + 1)))"

lemma StartElection_loop_effects:
  "effects (StartElection_loop cs r n)
     = effects n @ map Go_RequestVote (vote_targets cs (replica_id (Meta n)) r)"
  by (induction cs r n rule: StartElection_loop.induct) simp_all

lemma vote_targets_set:
  assumes "int (length cs) + rid < 2147483648" and "0 \<le> rid"
  shows "r \<in> set (vote_targets cs self rid) \<longleftrightarrow>
           rid \<le> r \<and> r < rid + int (length cs) \<and> r \<noteq> self \<and> cs ! nat (r - rid) \<noteq> None"
  using assms
proof (induction cs arbitrary: rid)
  case (Cons c cs)
  have i: "i32 (rid + 1) = rid + 1" using Cons.prems by (intro i32_id) auto
  have IH: "r \<in> set (vote_targets cs self (rid + 1)) \<longleftrightarrow>
      rid + 1 \<le> r \<and> r < rid + 1 + int (length cs) \<and> r \<noteq> self \<and> cs ! nat (r - (rid + 1)) \<noteq> None"
    using Cons.prems by (intro Cons.IH) auto
  show ?case
  proof (cases "rid < r")
    case True
    then have "nat (r - rid) = Suc (nat (r - (rid + 1)))" by linarith
    with True i IH show ?thesis by auto
  next
    case False
    with i IH show ?thesis by (cases "r = rid") auto
  qed
qed simp

lemma vote_targets_distinct:
  assumes "int (length cs) + rid < 2147483648" and "0 \<le> rid"
  shows "distinct (vote_targets cs self rid)"
  using assms
proof (induction cs arbitrary: rid)
  case (Cons c cs)
  have i: "i32 (rid + 1) = rid + 1" using Cons.prems by (intro i32_id) auto
  have "distinct (vote_targets cs self (rid + 1))" using Cons.prems by (intro Cons.IH) auto
  moreover have "rid \<notin> set (vote_targets cs self (rid + 1))"
    using vote_targets_set [of cs "rid + 1" rid self] Cons.prems by auto
  ultimately show ?case by (simp add: i)
qed simp

lemma ToCandidate_simps [simp]:
  "Meta (ToCandidate n) = Meta n" "trackMessage (ToCandidate n) = trackMessage n"
  "currentTerm (ToCandidate n) = i32 (currentTerm n + 1)" "votedFor (ToCandidate n) = replica_id (Meta n)"
  "log (ToCandidate n) = log n" "commitIndex (ToCandidate n) = commitIndex n"
  "lastApplied (ToCandidate n) = lastApplied n" "state (ToCandidate n) = Candidate"
  "nextIndex (ToCandidate n) = nextIndex n" "matchIndex (ToCandidate n) = matchIndex n"
  "disk_state (disk (ToCandidate n))
     = (i32 (currentTerm n + 1), replica_id (Meta n), log n, commitIndex n, lastApplied n)"
  "file_ok (disk (ToCandidate n))"
  by (simp_all add: ToCandidate_def StartElection_def Let_def node_state_def)

definition noop_entry :: "int \<Rightarrow> LogEntry" where
  "noop_entry t = \<lparr>Term = t, Operation = [''NO-OP''], Clientid = '' ''\<rparr>"

lemma ToLeader_begin_simps [simp]:
  "Meta (snd (ToLeader_begin n)) = Meta n" "trackMessage (snd (ToLeader_begin n)) = trackMessage n"
  "currentTerm (snd (ToLeader_begin n)) = currentTerm n" "votedFor (snd (ToLeader_begin n)) = votedFor n"
  "log (snd (ToLeader_begin n)) = log n @ [noop_entry (currentTerm n)]"
  "commitIndex (snd (ToLeader_begin n)) = commitIndex n" "lastApplied (snd (ToLeader_begin n)) = lastApplied n"
  "state (snd (ToLeader_begin n)) = Leader"
  "disk_state (disk (snd (ToLeader_begin n)))
     = (currentTerm n, votedFor n, log n @ [noop_entry (currentTerm n)], commitIndex n, lastApplied n)"
  "file_ok (disk (snd (ToLeader_begin n)))"
  by (simp_all add: ToLeader_begin_def Let_def node_state_def noop_entry_def)

lemma ToLeader_success_simps [simp]:
  "Meta (ToLeader_success n) = Meta n" "currentTerm (ToLeader_success n) = currentTerm n"
  "votedFor (ToLeader_success n) = votedFor n" "log (ToLeader_success n) = log n"
  "commitIndex (ToLeader_success n) = i32 (commitIndex n + 1)"
  "lastApplied (ToLeader_success n) = lastApplied n" "state (ToLeader_success n) = state n"
  "disk_state (disk (ToLeader_success n))
     = (currentTerm n, votedFor n, log n, i32 (commitIndex n + 1), lastApplied n)"
  "file_ok (disk (ToLeader_success n))"
  by (simp_all add: ToLeader_success_def Let_def node_state_def)

section \<open>Node invariants\<close>

text \<open>The indices of a node are ordered and within its log.\<close>

definition node_ok :: "RaftNode \<Rightarrow> bool" where
  "node_ok n \<longleftrightarrow> small (log n) \<and> -1 \<le> lastApplied n \<and> lastApplied n \<le> commitIndex n \<and>
     commitIndex n < int (length (log n))"

text \<open>Term and vote on disk are those in memory.\<close>

definition vote_saved :: "RaftNode \<Rightarrow> bool" where
  "vote_saved n \<longleftrightarrow> file_ok (disk n) \<and>
     fst (disk_state (disk n)) = currentTerm n \<and> fst (snd (disk_state (disk n))) = votedFor n"

lemma ToFollower_ok [simp]: "node_ok (ToFollower t n) = node_ok n"
  by (simp add: node_ok_def)

lemma ToCandidate_ok [simp]: "node_ok (ToCandidate n) = node_ok n"
  by (simp add: node_ok_def)

lemma vote_saved_transitions [simp]:
  "vote_saved (ToFollower t n)" "vote_saved (ToCandidate n)" "vote_saved (snd (ToLeader_begin n))"
  "vote_saved (PersistToStorage n)" "vote_saved (ToLeader_success n)"
  by (simp_all add: vote_saved_def node_state_def)

lemma vote_saved_emit [simp]: "vote_saved (emit e n) = vote_saved n"
  by (simp add: vote_saved_def)

end
