(* ===== verification/Raft_RPCs.thy ===== *)
theory Raft_RPCs
  imports Raft_States
begin

text \<open>
  The two RPC handlers of a replica, \<^verbatim>\<open>src/raft/rpcs.go\<close>.  Each runs under the node's lock from
  its first line to its return, so it is one function from the node and the request to the
  response and the next node; \<open>AppendEntries\<close> indexes the log with values from the request,
  so it may panic.  The lemmas give the log that \<open>AppendEntries\<close> leaves in closed form, the
  conditions of a grant, and the preservation of the node invariants.
\<close>

section \<open>RequestVote\<close>

definition RequestVote :: "RequestVoteMessage \<Rightarrow> RaftNode \<Rightarrow> RequestVoteResponse \<times> RaftNode" where
  "RequestVote inm node =
     (let (latestLogIndex, latestLogTerm) = latest (log node);
          n1 = (if rv_Term inm > currentTerm node then ToFollower (rv_Term inm) node else node)
      in if votedFor n1 = CandidateId inm \<or>
            (rv_Term inm = currentTerm n1 \<and> votedFor n1 = -1 \<and>
             (LastLogTerm inm > latestLogTerm \<or>
              (LastLogTerm inm = latestLogTerm \<and> LastLogIndex inm \<ge> latestLogIndex)))
         then (\<lparr>rvr_Term = rv_Term inm, VoteGranted = True\<rparr>,
               PersistToStorage (n1\<lparr>votedFor := CandidateId inm\<rparr>))
         else (\<lparr>rvr_Term = rv_Term inm, VoteGranted = False\<rparr>, n1))"

text \<open>The candidate's log is at least as up to date as the voter's.\<close>

definition up_to_date :: "RequestVoteMessage \<Rightarrow> LogEntry list \<Rightarrow> bool" where
  "up_to_date inm l \<longleftrightarrow>
     LastLogTerm inm > snd (latest l) \<or>
     (LastLogTerm inm = snd (latest l) \<and> LastLogIndex inm \<ge> fst (latest l))"

lemma RequestVote_simps [simp]:
  "rvr_Term (fst (RequestVote m n)) = rv_Term m"
  "Meta (snd (RequestVote m n)) = Meta n" "log (snd (RequestVote m n)) = log n"
  "commitIndex (snd (RequestVote m n)) = commitIndex n" "lastApplied (snd (RequestVote m n)) = lastApplied n"
  "currentTerm (snd (RequestVote m n)) = max (currentTerm n) (rv_Term m)"
  "state (snd (RequestVote m n)) = (if rv_Term m > currentTerm n then Follower else state n)"
  by (simp_all add: RequestVote_def Let_def split_beta)

lemma RequestVote_votedFor:
  "votedFor (snd (RequestVote m n)) =
     (if VoteGranted (fst (RequestVote m n)) then CandidateId m
      else if rv_Term m > currentTerm n then -1 else votedFor n)"
  by (simp add: RequestVote_def Let_def split_beta)

lemma RequestVote_granted:
  "VoteGranted (fst (RequestVote m n)) \<longleftrightarrow>
     (if rv_Term m > currentTerm n then CandidateId m = -1 \<or> up_to_date m (log n)
      else votedFor n = CandidateId m \<or>
           (rv_Term m = currentTerm n \<and> votedFor n = -1 \<and> up_to_date m (log n)))"
  by (auto simp: RequestVote_def Let_def split_beta up_to_date_def)

lemma RequestVote_ok [simp]: "node_ok (snd (RequestVote m n)) = node_ok n"
  by (simp add: node_ok_def)

lemma RequestVote_saved: "vote_saved n \<Longrightarrow> vote_saved (snd (RequestVote m n))"
  by (simp add: RequestVote_def Let_def split_beta)

section \<open>AppendEntries\<close>

text \<open>
  \<open>(in.PrevLogIndex == -1) || ((in.PrevLogIndex < len(log)) && (log[in.PrevLogIndex].Term ==
  in.PrevLogTerm))\<close>; an index below \<open>-1\<close> panics.
\<close>

definition prev_matches :: "AppendEntriesMessage \<Rightarrow> LogEntry list \<Rightarrow> bool go" where
  "prev_matches inm l =
     (if PrevLogIndex inm = -1 then Inr True
      else if PrevLogIndex inm < i32 (int (length l)) then
        go_bind (go_index l (PrevLogIndex inm)) (\<lambda>e. Inr (Term e = PrevLogTerm inm))
      else Inr False)"

text \<open>
  The scan for the first mismatch: it advances both indices while both are in range and the
  terms agree.
\<close>

function scan :: "LogEntry list \<Rightarrow> LogEntry list \<Rightarrow> nat \<Rightarrow> nat \<Rightarrow> nat \<times> nat" where
  "scan l es logIndex entryIndex =
     (if entryIndex < length es \<and> logIndex < length l then
        (if Term (l ! logIndex) \<noteq> Term (es ! entryIndex) then (logIndex, entryIndex)
         else scan l es (logIndex + 1) (entryIndex + 1))
      else (logIndex, entryIndex))"
  by pat_completeness auto
termination
  by (relation "measure (\<lambda>(l, es, i, j). length es - j)") auto

declare scan.simps [simp del]

text \<open>The write of the remaining entries: append at the end of the log, overwrite before it.\<close>

function write_entries :: "LogEntry list \<Rightarrow> LogEntry list \<Rightarrow> nat \<Rightarrow> nat \<Rightarrow> LogEntry list go" where
  "write_entries l es logIndex entryIndex =
     (if entryIndex < length es then
        (if logIndex = length l then
           write_entries (l @ [es ! entryIndex]) es (logIndex + 1) (entryIndex + 1)
         else if logIndex < length l then
           write_entries (l[logIndex := es ! entryIndex]) es (logIndex + 1) (entryIndex + 1)
         else Inl IndexOutOfRange)
      else Inr l)"
  by pat_completeness auto
termination
  by (relation "measure (\<lambda>(l, es, i, j). length es - j)") auto

declare write_entries.simps [simp del]

text \<open>
  The loop that records the newly committed operations per client.  Its index stays below
  \<open>int32(len(log))\<close>, so the increment does not wrap.
\<close>

function track_loop ::
    "LogEntry list \<Rightarrow> int \<Rightarrow> int \<Rightarrow> (string \<Rightarrow> string list option) \<Rightarrow> (string \<Rightarrow> string list option) go" where
  "track_loop l i lc tm =
     (if i \<le> lc \<and> i < i32 (int (length l)) then
        (case go_index l i of
           Inl e \<Rightarrow> Inl e
         | Inr entry \<Rightarrow> track_loop l (i + 1) lc (tm(Clientid entry := Some (Operation entry))))
      else Inr tm)"
  by pat_completeness auto
termination
  by (relation "measure (\<lambda>(l, i, lc, tm). nat (i32 (int (length l)) - i))") auto

declare track_loop.simps [simp del]

definition ae_response :: "int \<Rightarrow> bool \<Rightarrow> AppendEntriesResponse" where
  "ae_response t b = \<lparr>aer_Term = t, Success = b\<rparr>"

text \<open>A request of an older term: only compare the entries, change nothing.\<close>

definition AppendEntries_stale ::
    "AppendEntriesMessage \<Rightarrow> RaftNode \<Rightarrow> (AppendEntriesResponse \<times> RaftNode) go" where
  "AppendEntries_stale inm node =
     go_bind (prev_matches inm (log node)) (\<lambda>ok.
       if ok then
         let logIndex = nat (i32 (PrevLogIndex inm + 1));
             (_, entryIndex) = scan (log node) (Entries inm) logIndex 0
         in if entryIndex = length (Entries inm) then Inr (ae_response (currentTerm node) True, node)
            else Inr (ae_response (currentTerm node) False, node)
       else Inr (ae_response (currentTerm node) False, node))"

text \<open>The commit part: \<open>LeaderCommit\<close> or the end of the log, whichever is smaller.\<close>

definition AppendEntries_commit :: "AppendEntriesMessage \<Rightarrow> RaftNode \<Rightarrow> RaftNode go" where
  "AppendEntries_commit inm node =
     (if LeaderCommit inm > commitIndex node then
        let old_commit_index = commitIndex node;
            n1 = node\<lparr>Meta := (Meta node)\<lparr>latestClient := LatestClient inm\<rparr>\<rparr>
        in go_bind (track_loop (log n1) (i32 (commitIndex n1 + 1)) (LeaderCommit inm) (trackMessage n1))
             (\<lambda>tm.
                let n2 = n1\<lparr>trackMessage := tm\<rparr>;
                    n3 = (if LeaderCommit inm < i32 (int (length (log n2)))
                          then n2\<lparr>commitIndex := LeaderCommit inm\<rparr>
                          else n2\<lparr>commitIndex := i32 (int (length (log n2)) - 1)\<rparr>)
                in Inr (emit (Send_commits_ready (i32 (commitIndex n3 - old_commit_index))) n3))
      else Inr node)"

definition AppendEntries_current ::
    "AppendEntriesMessage \<Rightarrow> RaftNode \<Rightarrow> (AppendEntriesResponse \<times> RaftNode) go" where
  "AppendEntries_current inm node =
     (let n1 = emit Send_electionResetEvent node;
          n2 = n1\<lparr>Meta := (Meta n1)\<lparr>leaderAddress := LeaderAddr inm\<rparr>\<rparr>
      in go_bind (prev_matches inm (log n2)) (\<lambda>ok.
           if ok then
             let (logIndex, entryIndex) = scan (log n2) (Entries inm) (nat (i32 (PrevLogIndex inm + 1))) 0
             in go_bind (write_entries (log n2) (Entries inm) logIndex entryIndex) (\<lambda>l'.
                  go_bind (AppendEntries_commit inm (n2\<lparr>log := l'\<rparr>)) (\<lambda>n3.
                    Inr (ae_response (ae_Term inm) True, PersistToStorage n3)))
           else Inr (ae_response (ae_Term inm) False, n2)))"

definition AppendEntries ::
    "AppendEntriesMessage \<Rightarrow> RaftNode \<Rightarrow> (AppendEntriesResponse \<times> RaftNode) go" where
  "AppendEntries inm node =
     (if currentTerm node > ae_Term inm then AppendEntries_stale inm node
      else if currentTerm node < ae_Term inm then
        AppendEntries_current inm (ToFollower (ae_Term inm) node)
      else if currentTerm node = ae_Term inm \<and> state node = Candidate then
        AppendEntries_current inm (ToFollower (ae_Term inm) node)
      else AppendEntries_current inm node)"

section \<open>The loops in closed form\<close>

text \<open>The number of leading entries whose terms agree with the log from an index on.\<close>

fun agree :: "LogEntry list \<Rightarrow> LogEntry list \<Rightarrow> nat" where
  "agree (x # xs) (e # es) = (if Term x = Term e then Suc (agree xs es) else 0)"
| "agree _ _ = 0"

lemma agree_le: "agree xs es \<le> length es" "agree xs es \<le> length xs"
  by (induction xs es rule: agree.induct) auto

lemma agree_terms: "map Term (take (agree xs es) xs) = map Term (take (agree xs es) es)"
  by (induction xs es rule: agree.induct) auto

lemma scan_eq:
  "scan l es i j = (i + agree (drop i l) (drop j es), j + agree (drop i l) (drop j es))"
proof (induction l es i j rule: scan.induct)
  case (1 l es i j)
  show ?case
  proof (cases "j < length es \<and> i < length l")
    case True
    then have "drop i l = l ! i # drop (i + 1) l" "drop j es = es ! j # drop (j + 1) es"
      by (simp_all add: Cons_nth_drop_Suc)
    with True 1 show ?thesis by (auto simp: scan.simps [of l es i j])
  next
    case False
    then have "drop i l = [] \<or> drop j es = []" by auto
    then have "agree (drop i l) (drop j es) = 0" by (cases "drop i l"; cases "drop j es") auto
    with False show ?thesis by (subst scan.simps) auto
  qed
qed

lemma write_entries_eq:
  "i \<le> length l \<Longrightarrow> j \<le> length es \<Longrightarrow>
     write_entries l es i j = Inr (take i l @ drop j es @ drop (i + (length es - j)) l)"
proof (induction l es i j rule: write_entries.induct)
  case (1 l es i j)
  show ?case
  proof (cases "j < length es")
    case True
    then have d: "drop j es = es ! j # drop (Suc j) es" by (simp add: Cons_nth_drop_Suc)
    show ?thesis
    proof (cases "i = length l")
      case end_: True
      with True 1 show ?thesis by (simp add: write_entries.simps [of l es "length l" j] d)
    next
      case False
      with "1.prems" have lt: "i < length l" by simp
      have "write_entries (l[i := es ! j]) es (i + 1) (j + 1)
          = Inr (take (i + 1) (l[i := es ! j]) @ drop (j + 1) es
                   @ drop (i + 1 + (length es - (j + 1))) (l[i := es ! j]))"
        using True False lt by (intro "1.IH"(2)) auto
      moreover have "i + 1 + (length es - (j + 1)) = i + (length es - j)" using True by simp
      moreover have "i < i + (length es - j)" using True by simp
      ultimately show ?thesis
        using True lt by (simp add: write_entries.simps [of l es i j] d take_Suc_conv_app_nth)
    qed
  next
    case False
    with "1.prems" show ?thesis by (subst write_entries.simps) simp
  qed
qed

text \<open>
  The log that a successful request leaves: up to the first mismatch the old entries, then the
  received ones, then whatever the log held beyond them.  Nothing is cut off.
\<close>

definition merged :: "LogEntry list \<Rightarrow> nat \<Rightarrow> LogEntry list \<Rightarrow> LogEntry list" where
  "merged l p es =
     (let m = agree (drop p l) es
      in take (p + m) l @ drop m es @ drop (p + length es) l)"

lemma scan_write_merged:
  assumes "p \<le> length l"
  shows "(case scan l es p 0 of (i, j) \<Rightarrow> write_entries l es i j) = Inr (merged l p es)"
proof -
  have a: "agree (drop p l) es \<le> length es" by (rule agree_le)
  have "agree (drop p l) es \<le> length (drop p l)" by (rule agree_le)
  with assms have b: "p + agree (drop p l) es \<le> length l" by simp
  have "p + agree (drop p l) es + (length es - agree (drop p l) es) = p + length es"
    using a by simp
  with a b show ?thesis by (simp add: scan_eq write_entries_eq merged_def Let_def)
qed

lemma track_loop_returns: "0 \<le> i \<Longrightarrow> small l \<Longrightarrow> \<exists>tm'. track_loop l i lc tm = Inr tm'"
proof (induction l i lc tm rule: track_loop.induct)
  case (1 l i lc tm)
  show ?case
  proof (cases "i \<le> lc \<and> i < i32 (int (length l))")
    case True
    with "1.prems" have g: "go_index l i = Inr (l ! nat i)" by simp
    have "\<exists>tm'. track_loop l (i + 1) lc (tm(Clientid (l ! nat i) := Some (Operation (l ! nat i)))) = Inr tm'"
      using "1.IH" [OF True g] "1.prems" by (simp add: fun_upd_def)
    then show ?thesis using True g by (subst track_loop.simps) simp
  next
    case False
    then show ?thesis by (auto simp: track_loop.simps [of l i lc tm])
  qed
qed

section \<open>The merged log\<close>

lemma length_merged: "p \<le> length l \<Longrightarrow> length (merged l p es) = max (length l) (p + length es)"
  using agree_le [of "drop p l" es] by (simp add: merged_def Let_def)

lemma merged_Nil [simp]: "merged l p [] = l"
  using agree_le(1) [of "drop p l" "[]"] by (simp add: merged_def)

lemma merged_prefix: "p \<le> length l \<Longrightarrow> take p (merged l p es) = take p l"
  by (simp add: merged_def Let_def take_append)

lemma merged_tail:
  assumes "p \<le> length l"
  shows "drop (p + length es) (merged l p es) = drop (p + length es) l"
proof -
  have "agree (drop p l) es \<le> length es" "agree (drop p l) es \<le> length l - p"
    using agree_le [of "drop p l" es] by simp_all
  with assms show ?thesis by (simp add: merged_def Let_def)
qed

text \<open>The entries of the request as they end up in the log: the agreeing ones in the version
  that the log already had.\<close>

lemma merged_split:
  assumes "p \<le> length l"
  shows "merged l p es = take p l @ (take (agree (drop p l) es) (drop p l) @ drop (agree (drop p l) es) es)
           @ drop (p + length es) l"
  by (simp add: merged_def Let_def take_add)

lemma merged_middle:
  assumes "p \<le> length l"
  shows "take (length es) (drop p (merged l p es))
           = take (agree (drop p l) es) (drop p l) @ drop (agree (drop p l) es) es"
  using assms agree_le [of "drop p l" es] by (simp add: merged_split [OF assms])

lemma merged_terms:
  assumes "p \<le> length l"
  shows "map Term (take (length es) (drop p (merged l p es))) = map Term es"
proof -
  let ?m = "agree (drop p l) es"
  have "map Term (take ?m (drop p l) @ drop ?m es) = map Term (take ?m es @ drop ?m es)"
    using agree_terms [of "drop p l" es] by (simp only: map_append)
  then show ?thesis by (simp only: merged_middle [OF assms] append_take_drop_id)
qed

lemma agree_all: "map Term (take (length es) xs) = map Term es \<Longrightarrow> agree xs es = length es"
  by (induction xs es rule: agree.induct) auto

lemma merged_idem:
  assumes "p \<le> length l"
  shows "merged (merged l p es) p es = merged l p es"
proof -
  let ?l = "merged l p es"
  have p: "p \<le> length ?l" using assms by (simp add: length_merged)
  have "agree (drop p ?l) es = length es" using merged_terms [OF assms] by (intro agree_all)
  then have "merged ?l p es = take p ?l @ take (length es) (drop p ?l) @ drop (length es) (drop p ?l)"
    by (simp add: merged_split [OF p] add.commute)
  then show ?thesis by (simp only: append_take_drop_id)
qed

text \<open>When equal terms at equal places mean equal entries, the received entries replace the
  old ones exactly.\<close>

lemma merged_exact:
  assumes "p \<le> length l"
    and "\<And>i. p + i < length l \<Longrightarrow> i < length es \<Longrightarrow> Term (l ! (p + i)) = Term (es ! i) \<Longrightarrow> l ! (p + i) = es ! i"
  shows "merged l p es = take p l @ es @ drop (p + length es) l"
proof -
  have "take (agree xs ys) xs = take (agree xs ys) ys"
    if "\<And>i. i < length xs \<Longrightarrow> i < length ys \<Longrightarrow> Term (xs ! i) = Term (ys ! i) \<Longrightarrow> xs ! i = ys ! i"
    for xs ys :: "LogEntry list"
    using that
  proof (induction xs ys rule: agree.induct)
    case (1 x xs e es)
    from "1.prems" [of 0] have "Term x = Term e \<Longrightarrow> x = e" by simp
    moreover have "take (agree xs es) xs = take (agree xs es) es" if "Term x = Term e"
      using that "1.prems" [of "Suc _"] by (intro "1.IH") auto
    ultimately show ?case by simp
  qed auto
  from this [of "drop p l" es] assms
  have "take (agree (drop p l) es) (drop p l) = take (agree (drop p l) es) es" by simp
  then show ?thesis by (simp add: merged_split [OF assms(1)])
qed

section \<open>AppendEntries in closed form\<close>

definition prev_ok :: "AppendEntriesMessage \<Rightarrow> LogEntry list \<Rightarrow> bool" where
  "prev_ok m l \<longleftrightarrow> PrevLogIndex m = -1 \<or>
     (PrevLogIndex m < int (length l) \<and> Term (l ! nat (PrevLogIndex m)) = PrevLogTerm m)"

text \<open>Requests whose indices stay in the range of \<open>int32\<close>.\<close>

definition sane :: "AppendEntriesMessage \<Rightarrow> bool" where
  "sane m \<longleftrightarrow> -1 \<le> PrevLogIndex m \<and> PrevLogIndex m + 1 + int (length (Entries m)) < 2147483648"

definition start_of :: "AppendEntriesMessage \<Rightarrow> nat" where
  "start_of m = nat (PrevLogIndex m + 1)"

lemma sane_start: "sane m \<Longrightarrow> nat (i32 (PrevLogIndex m + 1)) = start_of m"
  by (simp add: sane_def start_of_def i32_id)

lemma prev_matches_eq: "sane m \<Longrightarrow> small l \<Longrightarrow> prev_matches m l = Inr (prev_ok m l)"
  by (auto simp: prev_matches_def prev_ok_def sane_def)

lemma prev_ok_start: "prev_ok m l \<Longrightarrow> sane m \<Longrightarrow> start_of m \<le> length l"
  by (auto simp: prev_ok_def start_of_def sane_def)

lemma small_merged: "sane m \<Longrightarrow> small l \<Longrightarrow> start_of m \<le> length l \<Longrightarrow> small (merged l (start_of m) (Entries m))"
  by (auto simp: small_def length_merged sane_def start_of_def)

definition new_log :: "AppendEntriesMessage \<Rightarrow> LogEntry list \<Rightarrow> LogEntry list" where
  "new_log m l = (if prev_ok m l then merged l (start_of m) (Entries m) else l)"

definition new_commit :: "AppendEntriesMessage \<Rightarrow> LogEntry list \<Rightarrow> int \<Rightarrow> int" where
  "new_commit m l c = (if LeaderCommit m > c then min (LeaderCommit m) (int (length l) - 1) else c)"

lemma AppendEntries_commit_eq:
  assumes "small (log n)" and "-1 \<le> commitIndex n" and "commitIndex n < int (length (log n))"
  shows "\<exists>n'. AppendEntries_commit m n = Inr n' \<and>
           commitIndex n' = new_commit m (log n) (commitIndex n) \<and> log n' = log n \<and>
           lastApplied n' = lastApplied n \<and> currentTerm n' = currentTerm n \<and> votedFor n' = votedFor n \<and>
           state n' = state n \<and> replica_id (Meta n') = replica_id (Meta n) \<and>
           n_replicas (Meta n') = n_replicas (Meta n) \<and> leaderAddress (Meta n') = leaderAddress (Meta n) \<and>
           peer_replica_clients (Meta n') = peer_replica_clients (Meta n) \<and>
           nextIndex n' = nextIndex n \<and> matchIndex n' = matchIndex n \<and>
           effects n' = effects n @ (if LeaderCommit m > commitIndex n
             then [Send_commits_ready (i32 (commitIndex n' - commitIndex n))] else [])"
proof (cases "LeaderCommit m > commitIndex n")
  case False
  then show ?thesis by (simp add: AppendEntries_commit_def new_commit_def)
next
  case True
  have "0 \<le> i32 (commitIndex n + 1)" using assms by (simp add: small_def i32_id)
  with assms(1) have
    "\<exists>tm. track_loop (log n) (i32 (commitIndex n + 1)) (LeaderCommit m) (trackMessage n) = Inr tm"
    by (intro track_loop_returns)
  then obtain tm where
    "track_loop (log n) (i32 (commitIndex n + 1)) (LeaderCommit m) (trackMessage n) = Inr tm" by blast
  moreover have "i32 (int (length (log n)) - 1) = int (length (log n)) - 1"
    using assms(1) by (simp add: small_def i32_id)
  ultimately show ?thesis
    using True assms(1) by (auto simp: AppendEntries_commit_def new_commit_def Let_def)
qed

definition same_identity :: "RaftNode \<Rightarrow> RaftNode \<Rightarrow> bool" where
  "same_identity n n' \<longleftrightarrow> replica_id (Meta n') = replica_id (Meta n) \<and>
     n_replicas (Meta n') = n_replicas (Meta n) \<and>
     peer_replica_clients (Meta n') = peer_replica_clients (Meta n)"

lemma AppendEntries_current_eq:
  assumes "node_ok n" and "sane m"
  shows "\<exists>n'. AppendEntries_current m n = Inr (ae_response (ae_Term m) (prev_ok m (log n)), n') \<and>
           log n' = new_log m (log n) \<and>
           commitIndex n' = (if prev_ok m (log n) then new_commit m (log n') (commitIndex n) else commitIndex n) \<and>
           lastApplied n' = lastApplied n \<and> currentTerm n' = currentTerm n \<and> votedFor n' = votedFor n \<and>
           state n' = state n \<and> same_identity n n' \<and> (vote_saved n \<longrightarrow> vote_saved n') \<and>
           leaderAddress (Meta n') = LeaderAddr m"
proof -
  let ?n1 = "emit Send_electionResetEvent n"
  let ?n2 = "?n1\<lparr>Meta := (Meta ?n1)\<lparr>leaderAddress := LeaderAddr m\<rparr>\<rparr>"
  have sm: "small (log n)" using assms(1) by (simp add: node_ok_def)
  have pm: "prev_matches m (log n) = Inr (prev_ok m (log n))" by (rule prev_matches_eq [OF assms(2) sm])
  show ?thesis
  proof (cases "prev_ok m (log n)")
    case False
    with pm show ?thesis
      by (auto simp: AppendEntries_current_def Let_def new_log_def same_identity_def vote_saved_def)
  next
    case True
    have st: "start_of m \<le> length (log n)" by (rule prev_ok_start [OF True assms(2)])
    let ?l = "merged (log n) (start_of m) (Entries m)"
    let ?n3 = "?n2\<lparr>log := ?l\<rparr>"
    have "small ?l" by (rule small_merged [OF assms(2) sm st])
    moreover have "commitIndex n < int (length ?l)" using assms(1) st by (auto simp: node_ok_def length_merged max_def)
    ultimately obtain n4 where
      n4: "AppendEntries_commit m ?n3 = Inr n4" "commitIndex n4 = new_commit m ?l (commitIndex n)"
        "log n4 = ?l" "lastApplied n4 = lastApplied n" "currentTerm n4 = currentTerm n"
        "votedFor n4 = votedFor n" "state n4 = state n" "replica_id (Meta n4) = replica_id (Meta n)"
        "n_replicas (Meta n4) = n_replicas (Meta n)" "leaderAddress (Meta n4) = LeaderAddr m"
        "peer_replica_clients (Meta n4) = peer_replica_clients (Meta n)"
      using AppendEntries_commit_eq [of ?n3 m] assms(1) by (auto simp: node_ok_def)
    from scan_write_merged [OF st, of "Entries m"] obtain i j where
      sw: "scan (log n) (Entries m) (start_of m) 0 = (i, j)" "write_entries (log n) (Entries m) i j = Inr ?l"
      by (cases "scan (log n) (Entries m) (start_of m) 0") auto
    have "AppendEntries_current m n = Inr (ae_response (ae_Term m) True, PersistToStorage n4)"
      using pm True sw n4(1) by (simp add: AppendEntries_current_def Let_def sane_start [OF assms(2)])
    with True n4 show ?thesis by (simp add: new_log_def same_identity_def)
  qed
qed

text \<open>When a request makes the receiver step down to follower.\<close>

definition steps_down :: "AppendEntriesMessage \<Rightarrow> RaftNode \<Rightarrow> bool" where
  "steps_down m n \<longleftrightarrow> currentTerm n < ae_Term m \<or> (currentTerm n = ae_Term m \<and> state n = Candidate)"

definition all_present :: "AppendEntriesMessage \<Rightarrow> LogEntry list \<Rightarrow> bool" where
  "all_present m l \<longleftrightarrow> prev_ok m l \<and> agree (drop (start_of m) l) (Entries m) = length (Entries m)"

lemma AppendEntries_stale_eq:
  assumes "node_ok n" and "sane m"
  shows "AppendEntries_stale m n = Inr (ae_response (currentTerm n) (all_present m (log n)), n)"
proof -
  have "small (log n)" using assms(1) by (simp add: node_ok_def)
  from prev_matches_eq [OF assms(2) this] show ?thesis
    by (auto simp: AppendEntries_stale_def all_present_def Let_def scan_eq sane_start [OF assms(2)])
qed

lemma AppendEntries_eq:
  assumes "node_ok n" and "sane m"
  shows "\<exists>r n'. AppendEntries m n = Inr (r, n') \<and>
           aer_Term r = max (currentTerm n) (ae_Term m) \<and>
           Success r = (if currentTerm n > ae_Term m then all_present m (log n) else prev_ok m (log n)) \<and>
           currentTerm n' = max (currentTerm n) (ae_Term m) \<and>
           state n' = (if steps_down m n then Follower else state n) \<and>
           votedFor n' = (if steps_down m n then -1 else votedFor n) \<and>
           log n' = (if currentTerm n > ae_Term m then log n else new_log m (log n)) \<and>
           commitIndex n' = (if currentTerm n \<le> ae_Term m \<and> prev_ok m (log n)
                             then new_commit m (log n') (commitIndex n) else commitIndex n) \<and>
           lastApplied n' = lastApplied n \<and> same_identity n n' \<and> (vote_saved n \<longrightarrow> vote_saved n')"
proof -
  consider "currentTerm n > ae_Term m" | "currentTerm n \<le> ae_Term m" "steps_down m n"
    | "currentTerm n = ae_Term m" "\<not> steps_down m n"
    unfolding steps_down_def by linarith
  then show ?thesis
  proof cases
    case 1
    then show ?thesis
      using AppendEntries_stale_eq [OF assms]
      by (auto simp: AppendEntries_def ae_response_def steps_down_def same_identity_def)
  next
    case 2
    let ?n = "ToFollower (ae_Term m) n"
    have "AppendEntries m n = AppendEntries_current m ?n"
      using 2 by (auto simp: AppendEntries_def steps_down_def)
    moreover have "node_ok ?n" using assms(1) by simp
    from AppendEntries_current_eq [OF this assms(2)] obtain n' where
      "AppendEntries_current m ?n = Inr (ae_response (ae_Term m) (prev_ok m (log n)), n')"
      "log n' = new_log m (log n)"
      "commitIndex n' = (if prev_ok m (log n) then new_commit m (log n') (commitIndex n) else commitIndex n)"
      "lastApplied n' = lastApplied n" "currentTerm n' = ae_Term m" "votedFor n' = -1" "state n' = Follower"
      "same_identity n n'" "vote_saved n'"
      by (auto simp: same_identity_def)
    ultimately show ?thesis using 2 by (simp add: ae_response_def)
  next
    case 3
    then have "AppendEntries m n = AppendEntries_current m n"
      by (auto simp: AppendEntries_def steps_down_def)
    moreover from AppendEntries_current_eq [OF assms] obtain n' where
      "AppendEntries_current m n = Inr (ae_response (ae_Term m) (prev_ok m (log n)), n')"
      "log n' = new_log m (log n)"
      "commitIndex n' = (if prev_ok m (log n) then new_commit m (log n') (commitIndex n) else commitIndex n)"
      "lastApplied n' = lastApplied n" "currentTerm n' = currentTerm n" "votedFor n' = votedFor n"
      "state n' = state n" "same_identity n n'" "vote_saved n \<longrightarrow> vote_saved n'"
      by blast
    ultimately show ?thesis using 3 by (simp add: ae_response_def)
  qed
qed

lemma length_new_log: "sane m \<Longrightarrow> length (log n) \<le> length (new_log m (log n))"
  using prev_ok_start by (auto simp: new_log_def length_merged)

lemma AppendEntries_ok:
  assumes "node_ok n" and "sane m" and "AppendEntries m n = Inr (r, n')"
  shows "node_ok n'"
proof -
  have sm: "small (new_log m (log n))"
    using assms(1,2) small_merged prev_ok_start by (auto simp: new_log_def node_ok_def)
  show ?thesis
    using AppendEntries_eq [OF assms(1,2)] assms(1,3) sm length_new_log [OF assms(2), of n]
    by (auto simp: node_ok_def new_commit_def split: if_splits)
qed

section \<open>Properties\<close>

text \<open>
  C24: what a vote request does, on every branch, the request of an older term included.  The reply
  carries the term of the request.  In a newer term the replica steps down, and the vote is granted
  to an up-to-date candidate; in the current term to the candidate already voted for or, if there
  is none, to an up-to-date one; in an older term to the candidate already voted for and to no other,
  whatever its log.  The voter's term is the larger of the two; a vote that is not granted is left
  as it was, or cleared in a newer term.  The log and its indices do not change, and vote and term
  are on disk before the reply is sent.
\<close>

theorem RequestVote_correct:
  assumes "vote_saved n" and "CandidateId m \<noteq> -1"
    and "RequestVote m n = (r, n')"
  shows "rvr_Term r = rv_Term m \<and>
     (VoteGranted r \<longleftrightarrow>
        (if currentTerm n < rv_Term m then up_to_date m (log n)
         else if currentTerm n = rv_Term m
              then votedFor n = CandidateId m \<or> votedFor n = -1 \<and> up_to_date m (log n)
         else votedFor n = CandidateId m)) \<and>
     currentTerm n' = max (currentTerm n) (rv_Term m) \<and>
     state n' = (if currentTerm n < rv_Term m then Follower else state n) \<and>
     votedFor n' = (if VoteGranted r then CandidateId m
                    else if currentTerm n < rv_Term m then -1 else votedFor n) \<and>
     log n' = log n \<and> commitIndex n' = commitIndex n \<and> lastApplied n' = lastApplied n \<and> vote_saved n'"
proof -
  have r: "r = fst (RequestVote m n)" "n' = snd (RequestVote m n)" using assms(3) by simp_all
  show ?thesis
    unfolding r using assms(1,2) RequestVote_granted [of m n] RequestVote_votedFor [of m n] RequestVote_saved
    by auto
qed

theorem RequestVote_correct_witness:
  "VoteGranted (fst (RequestVote \<lparr>rv_Term = 1, CandidateId = 2, LastLogIndex = -1, LastLogTerm = -1\<rparr>
     (initial_node 3 0 '':3000'' ''3000'' [] NoFile)))"
proof -
  let ?n = "initial_node 3 0 '':3000'' ''3000'' [] NoFile"
  let ?m = "\<lparr>rv_Term = 1, CandidateId = 2, LastLogIndex = -1, LastLogTerm = -1\<rparr> :: RequestVoteMessage"
  have "vote_saved ?n"
    by (simp add: vote_saved_def initial_node_def Let_def file_ok_def disk_state_def disk_int32_def)
  moreover have "currentTerm ?n = 0" "votedFor ?n = -1" "log ?n = []" by (simp_all add: initial_node_def Let_def)
  ultimately show ?thesis
    using RequestVote_correct [of ?n ?m "fst (RequestVote ?m ?n)" "snd (RequestVote ?m ?n)"]
    by (simp add: up_to_date_def latest_small small_def)
qed

text \<open>
  Contrary to the comment in the handler, a request of an older term is not rejected when
  it comes from the candidate that the replica has voted for: the vote is granted whatever the
  terms and whatever the candidate's log.
\<close>

theorem stale_vote_request_granted:
  assumes "rv_Term m < currentTerm n" and "votedFor n = CandidateId m"
  shows "VoteGranted (fst (RequestVote m n)) \<and> rvr_Term (fst (RequestVote m n)) < currentTerm (snd (RequestVote m n))"
  using assms by (simp add: RequestVote_granted)

theorem stale_vote_request_granted_witness:
  "VoteGranted (fst (RequestVote \<lparr>rv_Term = 1, CandidateId = 2, LastLogIndex = -1, LastLogTerm = -1\<rparr>
     ((initial_node 3 0 '':3000'' ''3000'' [] NoFile)
        \<lparr>currentTerm := 7, votedFor := 2, log := [\<lparr>Term = 6, Operation = [''NO-OP''], Clientid = '' ''\<rparr>]\<rparr>)))"
  using stale_vote_request_granted
    [of "\<lparr>rv_Term = 1, CandidateId = 2, LastLogIndex = -1, LastLogTerm = -1\<rparr>"
        "(initial_node 3 0 '':3000'' ''3000'' [] NoFile)
           \<lparr>currentTerm := 7, votedFor := 2, log := [\<lparr>Term = 6, Operation = [''NO-OP''], Clientid = '' ''\<rparr>]\<rparr>"]
  by simp

text \<open>
  C23: what an AppendEntries request does, on every branch: it never panics on a request with
  indices in range, the reply carries the larger of the two terms, the request of an older
  term changes nothing and succeeds only if all its entries are already there, otherwise
  success means that the previous entry matches, the log is the old one with the entries
  written behind the previous entry, the commit index becomes the smaller of the leader's and
  the end of the log, and the node steps down exactly when the term is newer or it was a
  candidate of the same term.
\<close>

theorem AppendEntries_correct:
  assumes "node_ok n" and "sane m"
  shows "\<exists>r n'. AppendEntries m n = Inr (r, n') \<and> node_ok n' \<and>
     aer_Term r = max (currentTerm n) (ae_Term m) \<and> currentTerm n' = max (currentTerm n) (ae_Term m) \<and>
     (if ae_Term m < currentTerm n
      then Success r = all_present m (log n) \<and> n' = n
      else Success r = prev_ok m (log n) \<and>
           log n' = (if Success r then merged (log n) (start_of m) (Entries m) else log n) \<and>
           commitIndex n' = (if Success r \<and> commitIndex n < LeaderCommit m
                             then min (LeaderCommit m) (int (length (log n')) - 1) else commitIndex n) \<and>
           state n' = (if steps_down m n then Follower else state n))"
proof -
  from AppendEntries_eq [OF assms] obtain r n' where
    ae: "AppendEntries m n = Inr (r, n')" and
    f: "aer_Term r = max (currentTerm n) (ae_Term m)"
      "Success r = (if currentTerm n > ae_Term m then all_present m (log n) else prev_ok m (log n))"
      "currentTerm n' = max (currentTerm n) (ae_Term m)"
      "state n' = (if steps_down m n then Follower else state n)"
      "log n' = (if currentTerm n > ae_Term m then log n else new_log m (log n))"
      "commitIndex n' = (if currentTerm n \<le> ae_Term m \<and> prev_ok m (log n)
                         then new_commit m (log n') (commitIndex n) else commitIndex n)"
    by blast
  have "n' = n" if "ae_Term m < currentTerm n"
    using ae that AppendEntries_stale_eq [OF assms] by (simp add: AppendEntries_def)
  with ae f AppendEntries_ok [OF assms ae] show ?thesis
    by (auto simp: new_log_def new_commit_def)
qed

definition demo_entry :: "int \<Rightarrow> LogEntry" where
  "demo_entry t = \<lparr>Term = t, Operation = [''NO-OP''], Clientid = '' ''\<rparr>"

definition demo_append :: "int \<Rightarrow> int \<Rightarrow> int \<Rightarrow> int \<Rightarrow> LogEntry list \<Rightarrow> AppendEntriesMessage" where
  "demo_append t p pt c es =
     \<lparr>ae_Term = t, LeaderId = 0, PrevLogIndex = p, PrevLogTerm = pt, LeaderCommit = c, Entries = es,
      LeaderAddr = '':4000'', LatestClient = []\<rparr>"

definition demo_follower :: "int \<Rightarrow> LogEntry list \<Rightarrow> RaftNode" where
  "demo_follower t l = (initial_node 3 1 '':3001'' ''3001'' [] NoFile)\<lparr>currentTerm := t, log := l\<rparr>"

lemma demo_simps [simp]:
  "currentTerm (demo_follower t l) = t" "log (demo_follower t l) = l" "commitIndex (demo_follower t l) = -1"
  "state (demo_follower t l) = Follower" "small l \<Longrightarrow> node_ok (demo_follower t l)"
  "ae_Term (demo_append t p pt c es) = t" "Entries (demo_append t p pt c es) = es"
  "LeaderCommit (demo_append t p pt c es) = c" "PrevLogIndex (demo_append t p pt c es) = p"
  "PrevLogTerm (demo_append t p pt c es) = pt" "Term (demo_entry t) = t"
  by (simp_all add: demo_follower_def demo_append_def demo_entry_def initial_node_def Let_def node_ok_def)

theorem AppendEntries_correct_witness:
  "\<exists>r n'. AppendEntries (demo_append 2 0 1 1 [demo_entry 2]) (demo_follower 1 [demo_entry 1]) = Inr (r, n') \<and>
     Success r \<and> log n' = [demo_entry 1, demo_entry 2] \<and> commitIndex n' = 1"
proof -
  have "node_ok (demo_follower 1 [demo_entry 1])" "sane (demo_append 2 0 1 1 [demo_entry 2])"
    by (simp_all add: small_def sane_def)
  from AppendEntries_correct [OF this] show ?thesis
    by (auto simp: prev_ok_def start_of_def merged_def)
qed

text \<open>
  Redelivery of an AppendEntries request is harmless: handling the same request again
  leaves the log and the commit index as they are and answers with success again.
\<close>

theorem AppendEntries_idempotent:
  assumes "node_ok n" and "sane m" and "currentTerm n \<le> ae_Term m"
    and "AppendEntries m n = Inr (r, n1)" and "Success r"
  shows "\<exists>n2. AppendEntries m n1 = Inr (r, n2) \<and> log n2 = log n1 \<and> commitIndex n2 = commitIndex n1"
proof -
  have p: "prev_ok m (log n)"
    and l1: "log n1 = merged (log n) (start_of m) (Entries m)" and t1: "currentTerm n1 = ae_Term m"
    and c1: "commitIndex n1 = new_commit m (log n1) (commitIndex n)" and r: "aer_Term r = ae_Term m"
    using AppendEntries_eq [OF assms(1,2)] assms(3-5) by (auto simp: new_log_def)
  have ok1: "node_ok n1" by (rule AppendEntries_ok [OF assms(1,2,4)])
  have st: "start_of m \<le> length (log n)" by (rule prev_ok_start [OF p assms(2)])
  have p1: "prev_ok m (log n1)"
  proof (cases "PrevLogIndex m = -1")
    case False
    let ?i = "nat (PrevLogIndex m)"
    have i: "?i < start_of m" "?i < length (log n)" "0 \<le> PrevLogIndex m"
      using False p assms(2) by (auto simp: start_of_def sane_def prev_ok_def)
    then have "log n1 ! ?i = log n ! ?i"
      using merged_prefix [OF st, of "Entries m"] unfolding l1 by (metis nth_take)
    moreover have "length (log n) \<le> length (log n1)" using st by (simp add: l1 length_merged)
    ultimately show ?thesis using p i False by (auto simp: prev_ok_def)
  qed (simp add: prev_ok_def)
  have nl: "new_log m (log n1) = log n1" using p1 merged_idem [OF st] by (simp add: new_log_def l1)
  from AppendEntries_eq [OF ok1 assms(2)] t1 p1 nl obtain r2 n2 where
    ae2: "AppendEntries m n1 = Inr (r2, n2)" "aer_Term r2 = ae_Term m" "Success r2" "log n2 = log n1"
      "commitIndex n2 = new_commit m (log n1) (commitIndex n1)"
    by auto
  have "r2 = r" using ae2(2,3) r assms(5) by (cases r; cases r2) simp
  moreover have "new_commit m (log n1) (commitIndex n1) = commitIndex n1"
    by (auto simp: c1 new_commit_def)
  ultimately show ?thesis using ae2 by simp
qed

theorem AppendEntries_idempotent_witness:
  "\<exists>r n1 n2. AppendEntries (demo_append 2 0 1 1 [demo_entry 2]) (demo_follower 1 [demo_entry 1]) = Inr (r, n1) \<and>
     AppendEntries (demo_append 2 0 1 1 [demo_entry 2]) n1 = Inr (r, n2) \<and> log n2 = log n1"
proof -
  have "node_ok (demo_follower 1 [demo_entry 1])" "sane (demo_append 2 0 1 1 [demo_entry 2])"
    by (simp_all add: small_def sane_def)
  moreover from AppendEntries_eq [OF this] obtain r n1 where
    "AppendEntries (demo_append 2 0 1 1 [demo_entry 2]) (demo_follower 1 [demo_entry 1]) = Inr (r, n1)" "Success r"
    by (auto simp: prev_ok_def)
  ultimately show ?thesis using AppendEntries_idempotent by fastforce
qed

text \<open>
  A conflicting entry is overwritten, but what follows it is not cut off: when the
  request's entries end before the end of the log, the stale tail stays, and with it the index
  and term by which the replica judges whether a candidate is up to date.
\<close>

theorem overwrite_keeps_stale_tail:
  assumes "node_ok n" and "sane m" and "currentTerm n \<le> ae_Term m" and "prev_ok m (log n)"
    and "start_of m + length (Entries m) < length (log n)"
  shows "\<exists>r n'. AppendEntries m n = Inr (r, n') \<and> Success r \<and>
     map Term (take (length (Entries m)) (drop (start_of m) (log n'))) = map Term (Entries m) \<and>
     drop (start_of m + length (Entries m)) (log n') = drop (start_of m + length (Entries m)) (log n) \<and>
     latest (log n') = latest (log n)"
proof -
  from AppendEntries_eq [OF assms(1,2)] assms(3,4) obtain r n' where
    ae: "AppendEntries m n = Inr (r, n')" "Success r" "log n' = merged (log n) (start_of m) (Entries m)"
    by (auto simp: new_log_def)
  have st: "start_of m \<le> length (log n)" using assms(5) by simp
  have len: "length (log n') = length (log n)" using assms(5) by (simp add: ae(3) length_merged [OF st])
  have tail: "drop (start_of m + length (Entries m)) (log n') = drop (start_of m + length (Entries m)) (log n)"
    by (simp add: ae(3) merged_tail [OF st])
  have "last (log n') = last (log n)"
    using tail len assms(5) by (metis last_drop)
  moreover have "small (log n)" "log n \<noteq> []" using assms(1,5) by (auto simp: node_ok_def)
  moreover from this len have "small (log n')" "log n' \<noteq> []" by (auto simp: small_def)
  ultimately have "latest (log n') = latest (log n)" by (simp add: latest_small len)
  with ae tail merged_terms [OF st] show ?thesis by auto
qed

theorem overwrite_keeps_stale_tail_witness:
  "\<exists>r n'. AppendEntries (demo_append 3 0 1 0 [demo_entry 3])
            (demo_follower 2 [demo_entry 1, demo_entry 2, demo_entry 2]) = Inr (r, n') \<and>
     map Term (take 1 (drop 1 (log n'))) = [3] \<and> drop 2 (log n') = [demo_entry 2] \<and>
     latest (log n') = (2, 2)"
proof -
  let ?n = "demo_follower 2 [demo_entry 1, demo_entry 2, demo_entry 2]"
  let ?m = "demo_append 3 0 1 0 [demo_entry 3]"
  have "node_ok ?n" "sane ?m" "prev_ok ?m (log ?n)" "start_of ?m = 1"
    by (simp_all add: small_def sane_def prev_ok_def start_of_def)
  then show ?thesis
    using overwrite_keeps_stale_tail [of ?n ?m] by (auto simp: latest_small small_def numeral_2_eq_2)
qed

end
