(* ===== verification/Raft_Send.thy ===== *)
theory Raft_Send
  imports Raft_RPCs
begin

text \<open>
  The leader's side of log replication, \<^verbatim>\<open>src/raft/send_AEs.go\<close>.  \<open>LeaderSendAEs\<close> starts one
  goroutine per peer; each reads the peer's \<open>nextIndex\<close> and the log under the lock, performs
  the RPC without the lock, and handles the response under the lock (\<open>LeaderSendAE\<close>), possibly
  retrying with an earlier index.  The message object is shared by all goroutines of a round.
  The outcome of a round is reported over a channel by two counters (\<open>tally\<close>).
  The lemmas: the entries a message carries, the counting of a round (exactly one verdict, the
  verdict is the majority's), and the retry loop against a follower, which ends with the
  follower's log equal to the leader's.
\<close>

section \<open>Reading the log for a peer\<close>

text \<open>The loop that collects \<open>&node.log[i]\<close> for \<open>i\<close> from \<open>from\<close> to \<open>upper_index\<close>.\<close>

function collect :: "LogEntry list \<Rightarrow> int \<Rightarrow> int \<Rightarrow> LogEntry list go" where
  "collect l i upper_index =
     (if i \<le> upper_index then
        (case go_index l i of
           Inl e \<Rightarrow> Inl e
         | Inr entry \<Rightarrow> go_bind (collect l (i + 1) upper_index) (\<lambda>es. Inr (entry # es)))
      else Inr [])"
  by pat_completeness auto
termination
  by (relation "measure (\<lambda>(l, i, u). nat (u + 1 - i))") auto

declare collect.simps [simp del]

lemma collect_eq:
  "0 \<le> i \<Longrightarrow> u < int (length l) \<Longrightarrow> collect l i u = Inr (take (nat (u + 1 - i)) (drop (nat i) l))"
proof (induction l i u rule: collect.induct)
  case (1 l i u)
  show ?case
  proof (cases "i \<le> u")
    case True
    with "1.prems" have g: "go_index l i = Inr (l ! nat i)" and lt: "nat i < length l"
      by (auto simp: nat_less_iff)
    have "collect l (i + 1) u = Inr (take (nat (u + 1 - (i + 1))) (drop (nat (i + 1)) l))"
      using "1.IH" [OF True g] "1.prems" by simp
    moreover have "nat (u + 1 - i) = Suc (nat (u + 1 - (i + 1)))" using True by linarith
    moreover have "nat (i + 1) = Suc (nat i)" using "1.prems"(1) by simp
    moreover have "drop (nat i) l = l ! nat i # drop (Suc (nat i)) l" using lt by (simp add: Cons_nth_drop_Suc)
    ultimately show ?thesis using True g by (subst collect.simps) simp
  next
    case False
    then show ?thesis by (subst collect.simps) simp
  qed
qed

text \<open>\<open>prevLogTerm\<close>: \<open>-1\<close> before the first entry, otherwise the term of the entry.\<close>

definition prev_term :: "LogEntry list \<Rightarrow> int \<Rightarrow> int go" where
  "prev_term l prevLogIndex =
     (if prevLogIndex \<ge> 0 then go_bind (go_index l prevLogIndex) (\<lambda>e. Inr (Term e)) else Inr (-1))"

text \<open>
  The section of a goroutine of \<open>LeaderSendAEs\<close> under the read lock: the previous index and
  term and the entries for one peer.  The goroutine stores the first two into the shared
  message inside the section (\<open>set_prev\<close>) and the entries after it (\<open>set_entries\<close>).
\<close>

definition LeaderSendAEs_read :: "int \<Rightarrow> int \<Rightarrow> RaftNode \<Rightarrow> (int \<times> int \<times> LogEntry list) go" where
  "LeaderSendAEs_read rid upper_index node =
     go_bind (go_index (nextIndex node) rid) (\<lambda>next.
       let prevLogIndex = i32 (next - 1)
       in go_bind (prev_term (log node) prevLogIndex) (\<lambda>prevLogTerm.
            go_bind (collect (log node) (i32 (prevLogIndex + 1)) upper_index) (\<lambda>entries.
              Inr (prevLogIndex, prevLogTerm, entries))))"

definition set_prev :: "int \<times> int \<times> LogEntry list \<Rightarrow> AppendEntriesMessage \<Rightarrow> AppendEntriesMessage" where
  "set_prev r msg = msg\<lparr>PrevLogIndex := fst r, PrevLogTerm := fst (snd r)\<rparr>"

definition set_entries :: "int \<times> int \<times> LogEntry list \<Rightarrow> AppendEntriesMessage \<Rightarrow> AppendEntriesMessage" where
  "set_entries r msg = msg\<lparr>Entries := snd (snd r)\<rparr>"

text \<open>The goroutine on its own: read, then both stores, then the call with the message.\<close>

definition LeaderSendAEs_msg :: "int \<Rightarrow> int \<Rightarrow> AppendEntriesMessage \<Rightarrow> RaftNode \<Rightarrow> AppendEntriesMessage go" where
  "LeaderSendAEs_msg rid upper_index msg node =
     go_bind (LeaderSendAEs_read rid upper_index node) (\<lambda>r. Inr (set_entries r (set_prev r msg)))"

text \<open>The message with the header fields that every round starts from.\<close>

definition header_msg :: "RaftNode \<Rightarrow> AppendEntriesMessage" where
  "header_msg node =
     \<lparr>ae_Term = currentTerm node, LeaderId = replica_id (Meta node), PrevLogIndex = 0, PrevLogTerm = 0,
      LeaderCommit = commitIndex node, Entries = [], LeaderAddr = nodeAddress (Meta node),
      LatestClient = latestClient (Meta node)\<rparr>"

section \<open>Handling a response\<close>

datatype ae_next = Return bool | Retry AppendEntriesMessage

text \<open>
  \<open>LeaderSendAE\<close> from the return of the RPC to its own return or its recursive call;
  \<open>None\<close> is an RPC error.
\<close>

definition LeaderSendAE_resp ::
    "int \<Rightarrow> int \<Rightarrow> AppendEntriesMessage \<Rightarrow> AppendEntriesResponse option \<Rightarrow> RaftNode \<Rightarrow> (ae_next \<times> RaftNode) go" where
  "LeaderSendAE_resp rid upper_index msg resp node =
     (case resp of
        None \<Rightarrow> Inr (Return False, node)
      | Some response \<Rightarrow>
          if Success response = False then
            if state node \<noteq> Leader then Inr (Return False, node)
            else if aer_Term response > currentTerm node then
              Inr (Return False, ToFollower (aer_Term response) node)
            else
              go_bind (go_index (nextIndex node) rid) (\<lambda>next.
                let n1 = node\<lparr>nextIndex := (nextIndex node)[nat rid := i32 (next - 1)]\<rparr>
                in go_bind (collect (log n1) (PrevLogIndex msg) upper_index) (\<lambda>entries.
                     let prevLogIndex = i32 (PrevLogIndex msg - 1)
                     in go_bind (prev_term (log n1) prevLogIndex) (\<lambda>prevLogTerm.
                          Inr (Retry ((header_msg n1)\<lparr>PrevLogIndex := prevLogIndex,
                                        PrevLogTerm := prevLogTerm, Entries := entries\<rparr>), n1))))
          else
            if currentTerm node < aer_Term response then
              Inr (Return True, ToFollower (aer_Term response) node)
            else
              go_bind (go_index (nextIndex node) rid) (\<lambda>_.
                let n1 = node\<lparr>nextIndex := (nextIndex node)[nat rid := i32 (upper_index + 1)]\<rparr>
                in go_bind (go_index (matchIndex n1) rid) (\<lambda>_.
                     Inr (Return True, n1\<lparr>matchIndex := (matchIndex n1)[nat rid := upper_index]\<rparr>))))"

text \<open>
  The retry loop against one peer while nothing else happens: each round the peer handles the
  message and the leader the response.  The fuel bounds the number of rounds; \<open>None\<close> is out of
  fuel.
\<close>

fun LeaderSendAE ::
    "nat \<Rightarrow> int \<Rightarrow> int \<Rightarrow> AppendEntriesMessage \<Rightarrow> RaftNode \<Rightarrow> RaftNode \<Rightarrow> (bool \<times> RaftNode \<times> RaftNode) go option" where
  "LeaderSendAE 0 rid upper_index msg node peer = None"
| "LeaderSendAE (Suc fuel) rid upper_index msg node peer =
     (case AppendEntries msg peer of
        Inl e \<Rightarrow> Some (Inl e)
      | Inr (response, peer1) \<Rightarrow>
          (case LeaderSendAE_resp rid upper_index msg (Some response) node of
             Inl e \<Rightarrow> Some (Inl e)
           | Inr (Return b, node1) \<Rightarrow> Some (Inr (b, node1, peer1))
           | Inr (Retry msg1, node1) \<Rightarrow> LeaderSendAE fuel rid upper_index msg1 node1 peer1))"

section \<open>The verdict of a round\<close>

text \<open>
  The two counters of \<open>LeaderSendAEs\<close>: successes start at 1 for the leader itself.  Each
  finished goroutine adds to one counter and sends on the channel when its counter hits its
  threshold; the list holds what is sent.
\<close>

definition tally_step :: "int \<Rightarrow> bool \<Rightarrow> int \<times> int \<Rightarrow> (int \<times> int) \<times> bool list" where
  "tally_step n ok c =
     (case c of (successes, failures) \<Rightarrow>
        if ok then
          let tot_success = i32 (successes + 1)
          in ((tot_success, failures), if tot_success = i32 (go_div n 2 + 1) then [True] else [])
        else
          let tot_fail = i32 (failures + 1)
          in ((successes, tot_fail), if tot_fail = go_div (i32 (n + 1)) 2 then [False] else []))"

fun tally :: "int \<Rightarrow> bool list \<Rightarrow> int \<times> int \<Rightarrow> bool list" where
  "tally n [] c = []"
| "tally n (ok # oks) c = (let (c', out) = tally_step n ok c in out @ tally n oks c')"

section \<open>Heartbeats\<close>

text \<open>
  One tick of \<open>HeartBeats\<close>: the role is checked under the read lock, and the message is
  built after the lock has been released, from the node as it then is.
\<close>

definition HeartBeats_check :: "RaftNode \<Rightarrow> bool" where
  "HeartBeats_check node = (if state node \<noteq> Leader then False else True)"

definition HeartBeats_msg :: "RaftNode \<Rightarrow> AppendEntriesMessage \<times> int" where
  "HeartBeats_msg node = (header_msg node, i32 (int (length (log node)) - 1))"

section \<open>Counting a round\<close>

lemma tally_counts:
  assumes "2 \<le> n" "n < 2147483647" "1 \<le> s" "0 \<le> f" "s + f + int (length oks) < 2147483648"
  shows "count_list (tally n oks (s, f)) True
           = (if s < n div 2 + 1 \<and> n div 2 + 1 \<le> s + int (count_list oks True) then 1 else 0) \<and>
         count_list (tally n oks (s, f)) False
           = (if f < (n + 1) div 2 \<and> (n + 1) div 2 \<le> f + int (count_list oks False) then 1 else 0)"
  using assms(3-5)
proof (induction oks arbitrary: s f)
  case Nil
  then show ?case by simp
next
  case (Cons ok oks)
  have t: "i32 (go_div n 2 + 1) = n div 2 + 1" "go_div (i32 (n + 1)) 2 = (n + 1) div 2"
    using assms(1,2) by (simp_all add: go_div_nonneg i32_id)
  show ?case
  proof (cases ok)
    case True
    have "i32 (s + 1) = s + 1" using Cons.prems by (intro i32_id) auto
    with True Cons.IH [of "s + 1" f] Cons.prems show ?thesis by (simp add: tally_step_def t Let_def)
  next
    case False
    have "i32 (f + 1) = f + 1" using Cons.prems by (intro i32_id) auto
    with False Cons.IH [of s "f + 1"] Cons.prems show ?thesis by (simp add: tally_step_def t Let_def)
  qed
qed

lemma count_bools: "count_list (bs :: bool list) True + count_list bs False = length bs"
  by (induction bs) auto

lemma bool_list_single:
  "count_list (bs :: bool list) True + count_list bs False = 1 \<Longrightarrow> bs = [count_list bs True = 1]"
proof -
  assume "count_list bs True + count_list bs False = 1"
  then obtain b where "bs = [b]" by (metis count_bools length_Suc_conv length_0_conv One_nat_def)
  then show ?thesis by simp
qed

lemma tally_verdict:
  assumes "2 \<le> n" "n < 2147483647" "int (length oks) = n - 1"
  shows "tally n oks (1, 0) = [n < 2 * (1 + int (count_list oks True))]"
proof -
  let ?t = "int (count_list oks True)"
  have f: "int (count_list oks False) = n - 1 - ?t"
    using count_bools [of oks] assms(3) by linarith
  have c: "count_list (tally n oks (1, 0)) True = (if n div 2 \<le> ?t then 1 else 0)"
    "count_list (tally n oks (1, 0)) False = (if (n + 1) div 2 \<le> n - 1 - ?t then 1 else 0)"
    using tally_counts [of n 1 0 oks] assms f by auto
  have eq: "(n + 1) div 2 \<le> n - 1 - ?t \<longleftrightarrow> \<not> n div 2 \<le> ?t" by presburger
  have v: "n div 2 \<le> ?t \<longleftrightarrow> n < 2 * (1 + ?t)" by presburger
  have "count_list (tally n oks (1, 0)) True + count_list (tally n oks (1, 0)) False = 1"
    unfolding c eq by simp
  from bool_list_single [OF this] show ?thesis unfolding c(1) v by simp
qed

lemma tally_silent:
  assumes "2 \<le> n" "n < 2147483647" "int (length oks) \<le> n - 1"
  shows "tally n oks (1, 0) = [] \<longleftrightarrow>
     int (count_list oks True) < n div 2 \<and> int (count_list oks False) < (n + 1) div 2"
proof -
  have "0 < n div 2" "0 < (n + 1) div 2" using assms(1) by linarith+
  then have "length (tally n oks (1, 0))
      = (if n div 2 \<le> int (count_list oks True) then 1 else 0)
        + (if (n + 1) div 2 \<le> int (count_list oks False) then 1 else 0)"
    using tally_counts [of n 1 0 oks] assms count_bools [of "tally n oks (1, 0)"] by auto
  then show ?thesis by (auto simp flip: length_0_conv split: if_splits)
qed

section \<open>Catching up a follower\<close>

text \<open>
  The log matching property of two logs: the same term at the same index means the same
  entries up to there.
\<close>

definition log_match :: "LogEntry list \<Rightarrow> LogEntry list \<Rightarrow> bool" where
  "log_match l l' \<longleftrightarrow>
     (\<forall>i < length l. i < length l' \<longrightarrow> Term (l ! i) = Term (l' ! i) \<longrightarrow> take (Suc i) l = take (Suc i) l')"

text \<open>A message that carries the leader's log from some index on.\<close>

definition carries :: "RaftNode \<Rightarrow> AppendEntriesMessage \<Rightarrow> bool" where
  "carries n m \<longleftrightarrow> ae_Term m = currentTerm n \<and> -1 \<le> PrevLogIndex m \<and>
     PrevLogIndex m < int (length (log n)) \<and>
     (0 \<le> PrevLogIndex m \<longrightarrow> PrevLogTerm m = Term (log n ! nat (PrevLogIndex m))) \<and>
     Entries m = drop (start_of m) (log n)"

definition peer_slot :: "RaftNode \<Rightarrow> int \<Rightarrow> bool" where
  "peer_slot n rid \<longleftrightarrow> 0 \<le> rid \<and> rid < int (length (nextIndex n)) \<and> rid < int (length (matchIndex n))"

lemma carries_sane: "carries n m \<Longrightarrow> small (log n) \<Longrightarrow> sane m"
  by (auto simp: carries_def sane_def small_def start_of_def)

lemma prev_term_eq: "-1 \<le> i \<Longrightarrow> i < int (length l) \<Longrightarrow> prev_term l i = Inr (if 0 \<le> i then Term (l ! nat i) else -1)"
  by (simp add: prev_term_def)

text \<open>A peer whose previous entry matches ends with the leader's log in front.\<close>

lemma carried_log:
  assumes m: "carries n m" and sm: "small (log n)" and match: "log_match (log n) l" and ok: "prev_ok m l"
  shows "new_log m l = log n @ drop (length (log n)) l"
proof -
  let ?p = "start_of m"
  have p: "?p \<le> length l" using prev_ok_start [OF ok carries_sane [OF m sm]] .
  have pn: "?p \<le> length (log n)" using m by (auto simp: carries_def start_of_def)
  have es: "Entries m = drop ?p (log n)" using m by (simp add: carries_def)
  have front: "take ?p l = take ?p (log n)"
  proof (cases "0 \<le> PrevLogIndex m")
    case True
    let ?i = "nat (PrevLogIndex m)"
    have "?i < length (log n)" "?i < length l" "Term (log n ! ?i) = Term (l ! ?i)"
      using True ok m by (auto simp: prev_ok_def carries_def)
    with match have "take (Suc ?i) (log n) = take (Suc ?i) l" by (auto simp: log_match_def)
    moreover have "?p = Suc ?i" using True by (simp add: start_of_def nat_add_distrib)
    ultimately show ?thesis by simp
  next
    case False
    then have "?p = 0" by (simp add: start_of_def)
    then show ?thesis by simp
  qed
  have same: "l ! (?p + i) = Entries m ! i"
    if "?p + i < length l" "i < length (Entries m)" "Term (l ! (?p + i)) = Term (Entries m ! i)" for i
  proof -
    from that es have i: "?p + i < length (log n)" "Term (log n ! (?p + i)) = Term (l ! (?p + i))" by simp_all
    with match that(1) have "take (Suc (?p + i)) (log n) = take (Suc (?p + i)) l" by (auto simp: log_match_def)
    then have "log n ! (?p + i) = l ! (?p + i)" by (metis lessI nth_take)
    with es that(2) show ?thesis by simp
  qed
  have "merged l ?p (Entries m) = take ?p l @ Entries m @ drop (?p + length (Entries m)) l"
    by (rule merged_exact [OF p same])
  then have "new_log m l = take ?p l @ Entries m @ drop (?p + length (Entries m)) l"
    using ok by (simp only: new_log_def if_True)
  also have "\<dots> = (take ?p (log n) @ drop ?p (log n)) @ drop (length (log n)) l"
    using pn by (simp add: front es)
  finally show ?thesis by simp
qed

text \<open>The response to a success updates the two indices of the peer.\<close>

lemma LeaderSendAE_resp_success:
  assumes "peer_slot n rid" and "Success r" and "aer_Term r \<le> currentTerm n" and "in_i32 (u + 1)"
  shows "\<exists>n'. LeaderSendAE_resp rid u m (Some r) n = Inr (Return True, n') \<and> log n' = log n \<and>
           nextIndex n' = (nextIndex n)[nat rid := u + 1] \<and> matchIndex n' = (matchIndex n)[nat rid := u]"
proof -
  have g: "go_index (nextIndex n) rid = Inr (nextIndex n ! nat rid)"
    "go_index (matchIndex n) rid = Inr (matchIndex n ! nat rid)"
    using assms(1) by (simp_all add: peer_slot_def)
  show ?thesis using assms(2,3) by (simp add: LeaderSendAE_resp_def Let_def g i32_in_i32 [OF assms(4)])
qed

text \<open>The response to a refusal steps back by one entry.\<close>

lemma LeaderSendAE_resp_retry:
  assumes slot: "peer_slot n rid" and "state n = Leader" and "\<not> Success r" "aer_Term r \<le> currentTerm n"
    and sm: "small (log n)" and m: "carries n m" and p: "0 \<le> PrevLogIndex m"
    and u: "u = int (length (log n)) - 1"
  shows "\<exists>m' n'. LeaderSendAE_resp rid u m (Some r) n = Inr (Retry m', n') \<and> carries n' m' \<and>
           PrevLogIndex m' = PrevLogIndex m - 1 \<and> log n' = log n \<and> state n' = Leader \<and>
           currentTerm n' = currentTerm n \<and> peer_slot n' rid \<and>
           length (nextIndex n') = length (nextIndex n) \<and> length (matchIndex n') = length (matchIndex n)"
proof -
  let ?p = "PrevLogIndex m"
  have lt: "?p < int (length (log n))" using m by (simp add: carries_def)
  have i: "i32 (?p - 1) = ?p - 1" using p lt sm by (simp add: small_def i32_id)
  have "nat (u + 1 - ?p) = length (log n) - nat ?p" using u p lt by linarith
  then have c: "collect (log n) ?p u = Inr (drop (nat ?p) (log n))"
    using collect_eq [of ?p u "log n"] p u by simp
  have t: "prev_term (log n) (?p - 1) = Inr (if 0 \<le> ?p - 1 then Term (log n ! nat (?p - 1)) else -1)"
    using p lt by (intro prev_term_eq) auto
  obtain nx where g: "go_index (nextIndex n) rid = Inr nx" using slot by (simp add: peer_slot_def)
  let ?n = "n\<lparr>nextIndex := (nextIndex n)[nat rid := i32 (nx - 1)]\<rparr>"
  let ?m = "(header_msg ?n)\<lparr>PrevLogIndex := ?p - 1,
              PrevLogTerm := (if 0 \<le> ?p - 1 then Term (log n ! nat (?p - 1)) else -1),
              Entries := drop (nat ?p) (log n)\<rparr>"
  have "LeaderSendAE_resp rid u m (Some r) n = Inr (Retry ?m, ?n)"
    using assms(2-4) g c t i by (auto simp: LeaderSendAE_resp_def Let_def)
  moreover have "carries ?n ?m" using p lt by (auto simp: carries_def header_msg_def start_of_def)
  ultimately show ?thesis using slot assms(2) by (intro exI [of _ ?m] exI [of _ ?n]) (simp add: peer_slot_def)
qed

lemma LeaderSendAE_catches_up:
  assumes "peer_slot n rid" and "state n = Leader" and "small (log n)" and "carries n m"
    and "u = int (length (log n)) - 1" and "node_ok peer" and "currentTerm peer \<le> currentTerm n"
    and "log_match (log n) (log peer)" and "nat (PrevLogIndex m + 1) < fuel"
  shows "\<exists>n' peer'. LeaderSendAE fuel rid u m n peer = Some (Inr (True, n', peer')) \<and>
           log n' = log n \<and> nextIndex n' ! nat rid = u + 1 \<and> matchIndex n' ! nat rid = u \<and>
           log peer' = log n @ drop (length (log n)) (log peer) \<and> node_ok peer'"
  using assms
proof (induction fuel arbitrary: n m peer)
  case 0
  then show ?case by simp
next
  case (Suc fuel)
  note sane = carries_sane [OF Suc.prems(4,3)]
  have tm: "ae_Term m = currentTerm n" using Suc.prems(4) by (simp add: carries_def)
  from AppendEntries_eq [OF Suc.prems(6) sane] Suc.prems(7) tm obtain r peer1 where
    ae: "AppendEntries m peer = Inr (r, peer1)" "aer_Term r = currentTerm n"
      "Success r = prev_ok m (log peer)" "currentTerm peer1 = currentTerm n" "log peer1 = new_log m (log peer)"
    by (auto simp: max_def)
  have ok1: "node_ok peer1" by (rule AppendEntries_ok [OF Suc.prems(6) sane ae(1)])
  show ?case
  proof (cases "prev_ok m (log peer)")
    case True
    have "in_i32 (u + 1)" using Suc.prems(3,5) by (simp add: in_i32_def small_def)
    with LeaderSendAE_resp_success [OF Suc.prems(1), of r u m] True ae(2,3) obtain n' where
      "LeaderSendAE_resp rid u m (Some r) n = Inr (Return True, n')" "log n' = log n"
      "nextIndex n' = (nextIndex n)[nat rid := u + 1]" "matchIndex n' = (matchIndex n)[nat rid := u]"
      by auto
    then show ?thesis
      using ae(1,5) ok1 carried_log [OF Suc.prems(4,3,8) True] Suc.prems(1)
      by (simp add: peer_slot_def nat_less_iff)
  next
    case False
    then have p: "0 \<le> PrevLogIndex m" using Suc.prems(4) by (auto simp: prev_ok_def carries_def)
    from LeaderSendAE_resp_retry [OF Suc.prems(1,2) _ _ Suc.prems(3,4) p Suc.prems(5), of r] False ae(2,3)
    obtain m' n1 where
      n1: "LeaderSendAE_resp rid u m (Some r) n = Inr (Retry m', n1)" "carries n1 m'"
        "PrevLogIndex m' = PrevLogIndex m - 1" "log n1 = log n" "state n1 = Leader"
        "currentTerm n1 = currentTerm n" "peer_slot n1 rid"
      by auto
    have l1: "log peer1 = log peer" using False ae(5) by (simp add: new_log_def)
    have "nat (PrevLogIndex m' + 1) < fuel" using n1(3) p Suc.prems(9) by linarith
    with Suc.IH [OF n1(7,5) _ n1(2) _ ok1] Suc.prems n1 ae(4) l1
    have "\<exists>n' peer'. LeaderSendAE fuel rid u m' n1 peer1 = Some (Inr (True, n', peer')) \<and>
           log n' = log n1 \<and> nextIndex n' ! nat rid = u + 1 \<and> matchIndex n' ! nat rid = u \<and>
           log peer' = log n1 @ drop (length (log n1)) (log peer1) \<and> node_ok peer'"
      by simp
    then show ?thesis using ae(1) n1(1,4) l1 by simp
  qed
qed

section \<open>Properties\<close>

text \<open>
  A round of AppendEntries in which every one of the n - 1 peers answers or fails sends
  exactly one verdict on the channel, whatever the order in which the goroutines finish, and
  the verdict is success exactly when the leader and the peers that succeeded are a majority.
\<close>

theorem round_verdict:
  assumes "2 \<le> n" and "n < 2147483647" and "int (length oks) = n - 1"
  shows "tally n oks (1, 0) = [n < 2 * (1 + int (count_list oks True))]"
  using assms by (rule tally_verdict)

theorem round_verdict_witness:
  "tally 5 [False, True, False, True] (1, 0) = [True] \<and> tally 4 [True, False, False] (1, 0) = [False]"
  using round_verdict [of 5 "[False, True, False, True]"] round_verdict [of 4 "[True, False, False]"]
  by simp

text \<open>
  A round that not all peers take part in (a nil client stub starts no goroutine) may send
  no verdict at all, and then its caller waits on the channel for ever: exactly when neither
  counter reaches its threshold.
\<close>

theorem round_without_verdict:
  assumes "2 \<le> n" and "n < 2147483647" and "int (length oks) \<le> n - 1"
  shows "tally n oks (1, 0) = [] \<longleftrightarrow>
     int (count_list oks True) < n div 2 \<and> int (count_list oks False) < (n + 1) div 2"
  using assms by (rule tally_silent)

theorem round_without_verdict_witness: "tally 5 [True, False] (1, 0) = []"
  using round_without_verdict [of 5 "[True, False]"] by simp

lemma LeaderSendAEs_read_eq:
  assumes "peer_slot n rid" and "small (log n)"
    and "0 \<le> nextIndex n ! nat rid" and "nextIndex n ! nat rid \<le> int (length (log n))"
  shows "LeaderSendAEs_read rid (int (length (log n)) - 1) n =
           Inr (nextIndex n ! nat rid - 1,
                if 0 < nextIndex n ! nat rid then Term (log n ! nat (nextIndex n ! nat rid - 1)) else -1,
                drop (nat (nextIndex n ! nat rid)) (log n))"
proof -
  let ?x = "nextIndex n ! nat rid"
  have g: "go_index (nextIndex n) rid = Inr ?x" using assms(1) by (simp add: peer_slot_def)
  have i: "i32 (?x - 1) = ?x - 1" "i32 (?x - 1 + 1) = ?x"
    using assms(2-4) by (simp_all add: small_def i32_id)
  have t: "prev_term (log n) (?x - 1) = Inr (if 0 < ?x then Term (log n ! nat (?x - 1)) else -1)"
    using assms(3,4) prev_term_eq [of "?x - 1" "log n"] by simp
  have "nat (int (length (log n)) - 1 + 1 - ?x) = length (log n) - nat ?x" using assms(3,4) by linarith
  then have "collect (log n) ?x (int (length (log n)) - 1) = Inr (drop (nat ?x) (log n))"
    using collect_eq [OF assms(3), of "int (length (log n)) - 1" "log n"] by simp
  with g i t show ?thesis by (simp add: LeaderSendAEs_read_def Let_def)
qed

lemma LeaderSendAEs_msg_carries:
  assumes "peer_slot n rid" and "small (log n)"
    and "0 \<le> nextIndex n ! nat rid" and "nextIndex n ! nat rid \<le> int (length (log n))"
  shows "\<exists>m. LeaderSendAEs_msg rid (int (length (log n)) - 1) (header_msg n) n = Inr m \<and>
           carries n m \<and> PrevLogIndex m = nextIndex n ! nat rid - 1"
  using assms(3,4)
  by (auto simp: LeaderSendAEs_msg_def LeaderSendAEs_read_eq [OF assms] set_prev_def set_entries_def
      header_msg_def carries_def start_of_def)

text \<open>
  C22: replication to one follower terminates and succeeds. The follower is in no newer term,
  its log matches the leader's and \<open>nextIndex\<close> is anywhere in the leader's log or
  at its end. Then the retry loop, with every call delivered, needs at most one call per log
  entry and one more, never indexes out of range, and ends with the leader's whole log in front
  of the follower's (what the follower held beyond it stays), the follower well-formed, and
  \<open>nextIndex\<close> and \<open>matchIndex\<close> at the end of the log.
\<close>

theorem leader_catches_up_follower:
  assumes "state n = Leader" and "small (log n)" and "peer_slot n rid"
    and "0 \<le> nextIndex n ! nat rid" and "nextIndex n ! nat rid \<le> int (length (log n))"
    and "node_ok peer" and "currentTerm peer \<le> currentTerm n" and "log_match (log n) (log peer)"
  shows "\<exists>m n' peer'.
     LeaderSendAEs_msg rid (int (length (log n)) - 1) (header_msg n) n = Inr m \<and>
     LeaderSendAE (length (log n) + 1) rid (int (length (log n)) - 1) m n peer = Some (Inr (True, n', peer')) \<and>
     log peer' = log n @ drop (length (log n)) (log peer) \<and> node_ok peer' \<and>
     nextIndex n' ! nat rid = int (length (log n)) \<and> matchIndex n' ! nat rid = int (length (log n)) - 1"
proof -
  from LeaderSendAEs_msg_carries [OF assms(3,2,4,5)] obtain m where
    m: "LeaderSendAEs_msg rid (int (length (log n)) - 1) (header_msg n) n = Inr m" "carries n m"
      "PrevLogIndex m = nextIndex n ! nat rid - 1" by blast
  have "nat (PrevLogIndex m + 1) < length (log n) + 1" using m(3) assms(4,5) by linarith
  from LeaderSendAE_catches_up [OF assms(3,1,2) m(2) refl assms(6-8) this] m(1) show ?thesis by auto
qed

text \<open>Concrete nodes for examples: a replica of a cluster with a given term and log.\<close>

definition demo_node :: "int \<Rightarrow> int \<Rightarrow> int \<Rightarrow> RaftNodeState \<Rightarrow> LogEntry list \<Rightarrow> RaftNode" where
  "demo_node nr rid t st l =
     (ConnectToPeerReplicas (initial_node nr rid '':3000'' ''3000'' [] NoFile))
       \<lparr>currentTerm := t, state := st, log := l,
        nextIndex := replicate (nat nr) (int (length l)), matchIndex := replicate (nat nr) 0\<rparr>"

lemma demo_node_simps [simp]:
  "currentTerm (demo_node nr rid t st l) = t" "state (demo_node nr rid t st l) = st"
  "log (demo_node nr rid t st l) = l" "votedFor (demo_node nr rid t st l) = -1"
  "commitIndex (demo_node nr rid t st l) = -1" "lastApplied (demo_node nr rid t st l) = -1"
  "nextIndex (demo_node nr rid t st l) = replicate (nat nr) (int (length l))"
  "matchIndex (demo_node nr rid t st l) = replicate (nat nr) 0"
  "n_replicas (Meta (demo_node nr rid t st l)) = nr" "replica_id (Meta (demo_node nr rid t st l)) = i32 rid"
  by (simp_all add: demo_node_def initial_node_def Let_def)

lemma demo_node_ok [simp]: "small l \<Longrightarrow> node_ok (demo_node nr rid t st l)"
  by (simp add: node_ok_def)

theorem leader_catches_up_follower_witness:
  "\<exists>m n' peer'.
     LeaderSendAEs_msg 1 1 (header_msg (demo_node 3 0 2 Leader [demo_entry 1, demo_entry 2]))
       (demo_node 3 0 2 Leader [demo_entry 1, demo_entry 2]) = Inr m \<and>
     LeaderSendAE 3 1 1 m (demo_node 3 0 2 Leader [demo_entry 1, demo_entry 2]) (demo_node 3 1 1 Follower [])
       = Some (Inr (True, n', peer')) \<and> log peer' = [demo_entry 1, demo_entry 2]"
  using leader_catches_up_follower
    [of "demo_node 3 0 2 Leader [demo_entry 1, demo_entry 2]" 1 "demo_node 3 1 1 Follower []"]
  by (auto simp: small_def peer_slot_def log_match_def eval_nat_numeral)

text \<open>
  The message object that the goroutines of a round share is not protected: when goroutine
  \<open>b\<close> stores its previous index after goroutine \<open>a\<close> has, and \<open>a\<close> stores its entries after \<open>b\<close>
  has, then \<open>b\<close> calls its up-to-date follower with the entries meant for \<open>a\<close>'s, and the
  follower accepts them: its log, equal to the leader's before, gets a second copy of the tail.
\<close>

theorem shared_message_race:
  assumes "small (log n)" and "int (length (log n)) + int (length (log n)) < 2147483648" and "peer_slot n a" and "peer_slot n b"
    and "0 \<le> nextIndex n ! nat a" and "nextIndex n ! nat a \<le> int (length (log n))"
    and "nextIndex n ! nat b = int (length (log n))"
    and "node_ok peer" and "currentTerm peer = currentTerm n" and "log peer = log n"
  shows "\<exists>ra rb resp peer'.
     LeaderSendAEs_read a (int (length (log n)) - 1) n = Inr ra \<and>
     LeaderSendAEs_read b (int (length (log n)) - 1) n = Inr rb \<and>
     AppendEntries (set_entries ra (set_entries rb (set_prev rb (set_prev ra (header_msg n))))) peer
       = Inr (resp, peer') \<and> Success resp \<and>
     log peer' = log n @ drop (nat (nextIndex n ! nat a)) (log n)"
proof -
  let ?len = "length (log n)"
  let ?pt = "if 0 < int ?len then Term (log n ! nat (int ?len - 1)) else -1"
  let ?es = "drop (nat (nextIndex n ! nat a)) (log n)"
  let ?m = "(header_msg n)\<lparr>PrevLogIndex := int ?len - 1, PrevLogTerm := ?pt, Entries := ?es\<rparr>"
  have sane: "sane ?m" using assms(2) by (simp add: sane_def)
  have ok: "prev_ok ?m (log n)" by (auto simp: prev_ok_def)
  have "new_log ?m (log n) = log n @ ?es"
    using ok by (simp add: new_log_def start_of_def merged_def Let_def)
  moreover have "ae_Term ?m = currentTerm n" by (simp add: header_msg_def)
  ultimately obtain r peer' where
    "AppendEntries ?m peer = Inr (r, peer')" "Success r" "log peer' = log n @ ?es"
    using AppendEntries_eq [OF assms(8) sane] assms(9,10) ok by auto
  moreover have "LeaderSendAEs_read b (int ?len - 1) n = Inr (int ?len - 1, ?pt, [])"
    using LeaderSendAEs_read_eq [OF assms(4,1)] assms(7) by simp
  moreover have "set_entries (x, y, ?es) (set_entries (int ?len - 1, ?pt, []) (set_prev (int ?len - 1, ?pt, [])
      (set_prev (x, y, ?es) (header_msg n)))) = ?m" for x y
    by (simp add: set_prev_def set_entries_def)
  ultimately show ?thesis using LeaderSendAEs_read_eq [OF assms(3,1,5,6)] by metis
qed

theorem shared_message_race_witness:
  "\<exists>ra rb resp peer'.
     LeaderSendAEs_read 1 2 ((demo_node 3 0 2 Leader [demo_entry 1, demo_entry 1, demo_entry 2])\<lparr>nextIndex := [0, 1, 3]\<rparr>) = Inr ra \<and>
     LeaderSendAEs_read 2 2 ((demo_node 3 0 2 Leader [demo_entry 1, demo_entry 1, demo_entry 2])\<lparr>nextIndex := [0, 1, 3]\<rparr>) = Inr rb \<and>
     AppendEntries (set_entries ra (set_entries rb (set_prev rb (set_prev ra
         (header_msg ((demo_node 3 0 2 Leader [demo_entry 1, demo_entry 1, demo_entry 2])\<lparr>nextIndex := [0, 1, 3]\<rparr>))))))
       (demo_node 3 2 2 Follower [demo_entry 1, demo_entry 1, demo_entry 2]) = Inr (resp, peer') \<and> Success resp \<and>
     log peer' = [demo_entry 1, demo_entry 1, demo_entry 2, demo_entry 1, demo_entry 2]"
  using shared_message_race
    [of "(demo_node 3 0 2 Leader [demo_entry 1, demo_entry 1, demo_entry 2])\<lparr>nextIndex := [0, 1, 3]\<rparr>" 1 2
        "demo_node 3 2 2 Follower [demo_entry 1, demo_entry 1, demo_entry 2]"]
  by (simp add: small_def peer_slot_def numeral_2_eq_2)

end
