(* ===== verification/Raft_Client.thy ===== *)
theory Raft_Client
  imports Raft_Send
begin

text \<open>
  Client commands, \<^verbatim>\<open>src/raft/client.go\<close>.  \<open>WriteCommand\<close> and \<open>ReadCommand\<close> hold the node's lock
  in several sections with waits between them (for pending commits to be applied, for a round
  of AppendEntries, for the local key-value server), so each is a group of section functions,
  composed with the other goroutines' effect on the node between two sections as a parameter.
  The properties say what a successful write commits, when it commits something else, and
  which requests are refused.
\<close>

section \<open>Writing\<close>

definition newline :: string where
  "newline = [CHR 0x0A]"

text \<open>The wait at the start of both commands: \<open>True\<close> as long as the command waits.\<close>

definition WriteCommand_waits :: "RaftNode \<Rightarrow> bool" where
  "WriteCommand_waits node = (commitIndex node \<noteq> lastApplied node)"

datatype write_next = Refuse string | CheckExists string | Proceed

text \<open>The first section under the write lock, up to the branch on PUT and DELETE.\<close>

definition WriteCommand_check :: "string list \<Rightarrow> string \<Rightarrow> RaftNode \<Rightarrow> write_next go" where
  "WriteCommand_check operation client node =
     (if state node \<noteq> Leader then Inr (Refuse (newline @ ''Not a leader.'' @ newline))
      else
        let lastClientOper = trackMessage node client
        in go_bind (if lastClientOper \<noteq> None then go_index operation 0 else Inr [])
          (\<lambda>first.
             let equal = (lastClientOper \<noteq> None \<and> first \<noteq> ''DELETE'' \<and> first \<noteq> ''NO-OP'' \<and>
                          lastClientOper = Some operation \<and> client = latestClient (Meta node))
             in if equal then
                  Inr (Refuse ''Write operation failed. Already received identical write request from identical clientid.'')
                else go_bind (go_index operation 0) (\<lambda>op0.
                  if op0 = ''PUT'' \<or> op0 = ''DELETE''
                  then go_bind (go_index operation 1) (\<lambda>key. Inr (CheckExists key))
                  else Inr Proceed)))"

text \<open>
  The existence check on the result of \<open>ReadCommand\<close>, a reply text or an error.  An error is
  not a refusal.
\<close>

definition WriteCommand_exists :: "string \<Rightarrow> string + string \<Rightarrow> write_next" where
  "WriteCommand_exists op0 response =
     (if response = Inr (''Invalid key value pair'' @ newline)
      then Refuse (newline @ ''Unable to perform '' @ op0 @
                   '' request, no value exists for given key in the store.'' @ newline)
      else Proceed)"

text \<open>
  The section that appends to the log: the message header, the upper index of the round, and
  the node.  The code reads the last entry of the log before it appends (a panic when the log
  is empty) and does not persist the entry.
\<close>

definition WriteCommand_append ::
    "string list \<Rightarrow> string \<Rightarrow> RaftNode \<Rightarrow> (AppendEntriesMessage \<times> int \<times> RaftNode) go" where
  "WriteCommand_append operation client node =
     (let n1 = node\<lparr>Meta := (Meta node)\<lparr>latestClient := client\<rparr>\<rparr>
      in go_bind (go_index (log n1) (int (length (log n1)) - 1)) (\<lambda>_.
           let msg = header_msg n1;
               n2 = n1\<lparr>log := log n1 @ [\<lparr>Term = currentTerm n1, Operation = operation, Clientid = client\<rparr>]\<rparr>
           in Inr (msg, i32 (int (length (log n2)) - 1), n2)))"

definition WriteCommand_finish ::
    "bool \<Rightarrow> string list \<Rightarrow> string \<Rightarrow> RaftNode \<Rightarrow> (bool \<times> string option) \<times> RaftNode" where
  "WriteCommand_finish success operation client node =
     (if success then
        let n1 = node\<lparr>commitIndex := i32 (commitIndex node + 1),
                      trackMessage := (trackMessage node)(client := Some operation)\<rparr>
        in ((success, None), emit (Send_commits_ready 1) (PersistToStorage n1))
      else
        ((success, Some ''Write operation failed. Write could not be replicated on majority of nodes.''), node))"

text \<open>
  The command after its wait.  \<open>env_read\<close> is what other goroutines do to the node while the
  existence check runs without the lock and \<open>env_round\<close> what they do while the round of
  AppendEntries runs; \<open>read\<close> is the result of the read and \<open>verdict\<close> that of the round.
\<close>

definition WriteCommand ::
    "(RaftNode \<Rightarrow> RaftNode) \<Rightarrow> (string \<Rightarrow> string + string) \<Rightarrow> (RaftNode \<Rightarrow> RaftNode) \<Rightarrow> bool \<Rightarrow>
     string list \<Rightarrow> string \<Rightarrow> RaftNode \<Rightarrow> ((bool \<times> string option) \<times> RaftNode) go" where
  "WriteCommand env_read read env_round verdict operation client node =
     go_bind (WriteCommand_check operation client node) (\<lambda>next.
       case next of
         Refuse err \<Rightarrow> Inr ((False, Some err), node)
       | Proceed \<Rightarrow>
           go_bind (WriteCommand_append operation client node) (\<lambda>(msg, upper_index, n1).
             Inr (WriteCommand_finish verdict operation client (env_round n1)))
       | CheckExists key \<Rightarrow>
           (let n0 = env_read node
            in case WriteCommand_exists (operation ! 0) (read key) of
                 Refuse err \<Rightarrow> Inr ((False, Some err), n0)
               | _ \<Rightarrow>
                   go_bind (WriteCommand_append operation client n0) (\<lambda>(msg, upper_index, n1).
                     Inr (WriteCommand_finish verdict operation client (env_round n1)))))"

section \<open>Reading\<close>

text \<open>The heartbeat round that precedes a read.\<close>

definition StaleReadCheck :: "RaftNode \<Rightarrow> AppendEntriesMessage \<times> int" where
  "StaleReadCheck node = (header_msg node, i32 (int (length (log node)) - 1))"

text \<open>
  The section after the round; \<open>http_get\<close> is the request to the replica's key-value server:
  no response, or reading its body gives an error text or the contents.  The result is the
  contents or the text of an error.
\<close>

definition ReadCommand_finish ::
    "bool \<Rightarrow> (string \<Rightarrow> (string + string) option) \<Rightarrow> string \<Rightarrow> RaftNode \<Rightarrow> string + string" where
  "ReadCommand_finish status http_get key node =
     (if status \<and> state node = Leader then
        (case http_get key of
           Some (Inr contents) \<Rightarrow> Inr contents
         | Some (Inl err2) \<Rightarrow> Inl err2
         | None \<Rightarrow> Inl ''read_failed'')
      else Inl ''read_failed'')"

section \<open>Effect on the fields\<close>

lemma WriteCommand_append_eq:
  assumes "log n \<noteq> []"
  shows "WriteCommand_append operation client n =
     Inr (header_msg (n\<lparr>Meta := (Meta n)\<lparr>latestClient := client\<rparr>\<rparr>), i32 (int (length (log n))),
          n\<lparr>Meta := (Meta n)\<lparr>latestClient := client\<rparr>,
            log := log n @ [\<lparr>Term = currentTerm n, Operation = operation, Clientid = client\<rparr>]\<rparr>)"
proof -
  have "0 < int (length (log n))" using assms by simp
  then have "go_index (log n) (int (length (log n)) - 1) = Inr (log n ! nat (int (length (log n)) - 1))" by simp
  then show ?thesis by (simp add: WriteCommand_append_def Let_def)
qed

lemma WriteCommand_finish_simps [simp]:
  "log (snd (WriteCommand_finish v operation client n)) = log n"
  "currentTerm (snd (WriteCommand_finish v operation client n)) = currentTerm n"
  "votedFor (snd (WriteCommand_finish v operation client n)) = votedFor n"
  "state (snd (WriteCommand_finish v operation client n)) = state n"
  "Meta (snd (WriteCommand_finish v operation client n)) = Meta n"
  "lastApplied (snd (WriteCommand_finish v operation client n)) = lastApplied n"
  "commitIndex (snd (WriteCommand_finish v operation client n))
     = (if v then i32 (commitIndex n + 1) else commitIndex n)"
  "fst (fst (WriteCommand_finish v operation client n)) = v"
  "effects (snd (WriteCommand_finish v operation client n))
     = effects n @ (if v then [Send_commits_ready 1] else [])"
  "trackMessage (snd (WriteCommand_finish v operation client n))
     = (if v then (trackMessage n)(client := Some operation) else trackMessage n)"
  by (simp_all add: WriteCommand_finish_def Let_def)

lemma WriteCommand_finish_saved: "vote_saved n \<Longrightarrow> vote_saved (snd (WriteCommand_finish v operation client n))"
  by (simp add: WriteCommand_finish_def Let_def)

lemma WriteCommand_check_post:
  assumes "state n = Leader" and "trackMessage n client \<noteq> Some (''POST'' # args)"
  shows "WriteCommand_check (''POST'' # args) client n = Inr Proceed"
  using assms by (simp add: WriteCommand_check_def Let_def)

text \<open>
  The branch of the first section at the leader: a repetition of the client's last write, by the
  client that wrote last, is refused, but a DELETE never.
\<close>

definition repeated :: "string list \<Rightarrow> string \<Rightarrow> RaftNode \<Rightarrow> bool" where
  "repeated operation client n \<longleftrightarrow> trackMessage n client = Some operation \<and>
     operation ! 0 \<noteq> ''DELETE'' \<and> operation ! 0 \<noteq> ''NO-OP'' \<and> client = latestClient (Meta n)"

lemma WriteCommand_check_eq:
  assumes "state n = Leader" and "operation = a # args"
  shows "WriteCommand_check operation client n =
     (if repeated operation client n then
        Inr (Refuse ''Write operation failed. Already received identical write request from identical clientid.'')
      else if a = ''PUT'' \<or> a = ''DELETE'' then go_bind (go_index operation 1) (\<lambda>key. Inr (CheckExists key))
      else Inr Proceed)"
  using assms by (auto simp: WriteCommand_check_def repeated_def Let_def)

definition written :: "string list \<Rightarrow> string \<Rightarrow> RaftNode \<Rightarrow> LogEntry" where
  "written operation client n = \<lparr>Term = currentTerm n, Operation = operation, Clientid = client\<rparr>"

text \<open>The node after the append section.\<close>

definition appended :: "string list \<Rightarrow> string \<Rightarrow> RaftNode \<Rightarrow> RaftNode" where
  "appended operation client n =
     n\<lparr>Meta := (Meta n)\<lparr>latestClient := client\<rparr>, log := log n @ [written operation client n]\<rparr>"

lemma appended_simps [simp]:
  "log (appended operation client n) = log n @ [written operation client n]"
  "currentTerm (appended operation client n) = currentTerm n" "votedFor (appended operation client n) = votedFor n"
  "state (appended operation client n) = state n" "commitIndex (appended operation client n) = commitIndex n"
  "lastApplied (appended operation client n) = lastApplied n" "effects (appended operation client n) = effects n"
  "trackMessage (appended operation client n) = trackMessage n" "disk (appended operation client n) = disk n"
  "replica_id (Meta (appended operation client n)) = replica_id (Meta n)"
  "n_replicas (Meta (appended operation client n)) = n_replicas (Meta n)"
  "peer_replica_clients (Meta (appended operation client n)) = peer_replica_clients (Meta n)"
  by (simp_all add: appended_def)

lemma WriteCommand_post:
  assumes "state n = Leader" and "trackMessage n client \<noteq> Some (''POST'' # args)" and "log n \<noteq> []"
  shows "WriteCommand env_read read env_round v (''POST'' # args) client n =
     Inr (WriteCommand_finish v (''POST'' # args) client (env_round (appended (''POST'' # args) client n)))"
  using assms
  by (simp add: WriteCommand_def WriteCommand_check_post WriteCommand_append_eq appended_def written_def)

lemma WriteCommand_put:
  assumes "state n = Leader" and "trackMessage n client \<noteq> Some (''PUT'' # key # args)"
    and "log (env_read n) \<noteq> []" and "read key \<noteq> Inr (''Invalid key value pair'' @ newline)"
  shows "WriteCommand env_read read env_round v (''PUT'' # key # args) client n =
     Inr (WriteCommand_finish v (''PUT'' # key # args) client
            (env_round (appended (''PUT'' # key # args) client (env_read n))))"
  using assms
  by (simp add: WriteCommand_def WriteCommand_check_def WriteCommand_exists_def Let_def
      WriteCommand_append_eq appended_def written_def)

section \<open>Properties\<close>

text \<open>
  A client's POST that is reported successful is committed: at a leader all of whose
  entries are committed, if the round succeeds and the log and commit index do not move
  meanwhile, the entry of the client is at the new commit index, one commit is handed to the
  apply loop, the request is remembered for the client, and term and vote are saved.
\<close>

theorem successful_write_committed:
  assumes "state n = Leader" and "commitIndex n + 1 = int (length (log n))" and "log n \<noteq> []" and "small (log n)"
    and "trackMessage n client \<noteq> Some (''POST'' # args)"
    and "env (appended (''POST'' # args) client n) = appended (''POST'' # args) client n"
  shows "\<exists>n'. WriteCommand env_read read env True (''POST'' # args) client n = Inr ((True, None), n') \<and>
     log n' = log n @ [written (''POST'' # args) client n] \<and>
     commitIndex n' = int (length (log n)) \<and> log n' ! nat (commitIndex n') = written (''POST'' # args) client n \<and>
     effects n' = effects n @ [Send_commits_ready 1] \<and> trackMessage n' client = Some (''POST'' # args) \<and>
     vote_saved n'"
  using assms
  by (simp add: WriteCommand_post WriteCommand_finish_def Let_def)

definition demo_leader :: "LogEntry list \<Rightarrow> int \<Rightarrow> RaftNode" where
  "demo_leader l c =
     (initial_node 3 0 '':3000'' ''3000'' [] NoFile)\<lparr>currentTerm := 1, log := l, commitIndex := c, state := Leader\<rparr>"

lemma demo_leader_simps [simp]:
  "log (demo_leader l c) = l" "state (demo_leader l c) = Leader" "commitIndex (demo_leader l c) = c"
  "currentTerm (demo_leader l c) = 1" "trackMessage (demo_leader l c) = (\<lambda>_. None)"
  "effects (demo_leader l c) = []"
  by (simp_all add: demo_leader_def initial_node_def Let_def)

theorem successful_write_committed_witness:
  "\<exists>n'. WriteCommand id Inl id True [''POST'', ''k'', ''v''] ''c'' (demo_leader [demo_entry 1] 0) = Inr ((True, None), n') \<and>
     commitIndex n' = 1"
  using successful_write_committed [of "demo_leader [demo_entry 1] 0" "''c''" "[''k'', ''v'']" id id Inl]
  by (force simp: small_def)

text \<open>
  C38: The commit index is incremented, not set to the index of the entry whose round has
  succeeded.  After a write that failed (its client is told so) and stays in the log, the next
  successful write commits the failed entry, and its own entry remains uncommitted although
  its client is told that it is committed.
\<close>

theorem failed_write_committed_instead:
  assumes "state n = Leader" and "commitIndex n + 1 = int (length (log n))" and "log n \<noteq> []"
    and "small (log n)"
    and "trackMessage n c1 \<noteq> Some (''POST'' # a1)" and "trackMessage n c2 \<noteq> Some (''POST'' # a2)"
  shows "\<exists>err n1 n2.
     WriteCommand id rd id False (''POST'' # a1) c1 n = Inr ((False, Some err), n1) \<and>
     WriteCommand id rd id True (''POST'' # a2) c2 n1 = Inr ((True, None), n2) \<and>
     log n2 = log n @ [written (''POST'' # a1) c1 n, written (''POST'' # a2) c2 n] \<and>
     commitIndex n2 = int (length (log n)) \<and>
     log n2 ! nat (commitIndex n2) = written (''POST'' # a1) c1 n \<and>
     commitIndex n2 < int (length (log n2)) - 1"
  using assms by (auto simp: WriteCommand_post WriteCommand_finish_def Let_def written_def)

theorem failed_write_committed_instead_witness:
  "\<exists>err n1 n2. WriteCommand id Inl id False [''POST'', ''k'', ''v''] ''c'' (demo_leader [demo_entry 1] 0)
       = Inr ((False, Some err), n1) \<and>
     WriteCommand id Inl id True [''POST'', ''j'', ''w''] ''d'' n1 = Inr ((True, None), n2) \<and>
     commitIndex n2 < int (length (log n2)) - 1"
  using failed_write_committed_instead
    [of "demo_leader [demo_entry 1] 0" "''c''" "[''k'', ''v'']" "''d''" "[''j'', ''w'']" Inl]
  by (force simp: small_def)

text \<open>
  A POST or PUT that repeats the client's last recorded request, when that client is also
  the latest client of the node, is refused and leaves the node as it is; so a client that
  retries a write that has succeeded does not write twice.
\<close>

theorem repeated_write_refused:
  assumes "state n = Leader" and "trackMessage n client = Some operation" and "client = latestClient (Meta n)"
    and "operation = ''POST'' # args \<or> operation = ''PUT'' # args"
  shows "\<exists>err. WriteCommand env_read read env_round v operation client n = Inr ((False, Some err), n)"
  using assms by (auto simp: WriteCommand_def WriteCommand_check_def Let_def)

theorem repeated_write_refused_witness:
  "\<exists>err. WriteCommand id Inl id True [''POST'', ''k'', ''v''] ''c''
      ((demo_leader [demo_entry 1] 0)\<lparr>trackMessage := [''c'' \<mapsto> [''POST'', ''k'', ''v'']],
          Meta := (Meta (demo_leader [demo_entry 1] 0))\<lparr>latestClient := ''c''\<rparr>\<rparr>)
     = Inr ((False, Some err), (demo_leader [demo_entry 1] 0)\<lparr>trackMessage := [''c'' \<mapsto> [''POST'', ''k'', ''v'']],
          Meta := (Meta (demo_leader [demo_entry 1] 0))\<lparr>latestClient := ''c''\<rparr>\<rparr>)"
  by (rule repeated_write_refused [where args = "[''k'', ''v'']"]) simp_all

text \<open>
  C32: leadership is not checked again after the existence check of a PUT has given up the
  lock.  A replica that has meanwhile become a follower of a newer term appends an entry of
  that newer term to its own log, which no leader of that term has written.
\<close>

theorem write_after_stepping_down:
  assumes "state n = Leader" and "trackMessage n client \<noteq> Some [''PUT'', key, val]" and "log n \<noteq> []"
    and "read key \<noteq> Inr (''Invalid key value pair'' @ newline)"
  shows "\<exists>n'. WriteCommand (ToFollower t) read id v [''PUT'', key, val] client n = Inr n' \<and>
     state (snd n') = Follower \<and> currentTerm (snd n') = t \<and>
     log (snd n') = log n @ [\<lparr>Term = t, Operation = [''PUT'', key, val], Clientid = client\<rparr>]"
  using assms by (simp add: WriteCommand_put written_def)

theorem write_after_stepping_down_witness:
  "\<exists>n'. WriteCommand (ToFollower 2) Inr id False [''PUT'', ''k'', ''v''] ''c'' (demo_leader [demo_entry 1] 0) = Inr n' \<and>
     log (snd n') = [demo_entry 1, \<lparr>Term = 2, Operation = [''PUT'', ''k'', ''v''], Clientid = ''c''\<rparr>]"
  using write_after_stepping_down [of "demo_leader [demo_entry 1] 0" "''c''" "''k''" "''v''" Inr 2 False]
  by (force simp: newline_def)

end
