(* ===== verification/Raft_Election.thy ===== *)
theory Raft_Election
  imports Raft_Client
begin

text \<open>
  The goroutines of an election, \<open>StartElection\<close> of \<^verbatim>\<open>src/raft/election.go\<close>.  A candidate starts
  one goroutine per peer.  The goroutine builds its request under the read lock
  (\<open>RequestVote_args\<close>), whenever the scheduler lets it, performs the RPC without the lock, and
  handles the response under the write lock (\<open>handle_vote\<close>), sharing the vote counter with the
  other goroutines of the election.  The lemmas give both sections on every branch; the frame
  lemma of \<open>AppendEntries\<close> gives its effect on term, vote and role for arbitrary requests.
\<close>

section \<open>The two sections\<close>

definition RequestVote_args :: "RaftNode \<Rightarrow> RequestVoteMessage" where
  "RequestVote_args node =
     (let (latestLogIndex, latestLogTerm) = latest (log node)
      in \<lparr>rv_Term = currentTerm node, CandidateId = replica_id (Meta node),
          LastLogIndex = latestLogIndex, LastLogTerm = latestLogTerm\<rparr>)"

datatype vote_outcome = Ignored | SteppedDown | Counted | Won AppendEntriesMessage

text \<open>
  The response of a peer, \<open>None\<close> for an RPC error, with the counter of the election.  The
  branch that wins runs \<open>ToLeader\<close> up to the point where it releases the lock.
\<close>

definition handle_vote ::
    "RequestVoteResponse option \<Rightarrow> int \<Rightarrow> RaftNode \<Rightarrow> vote_outcome \<times> int \<times> RaftNode" where
  "handle_vote resp received_votes node =
     (case resp of
        None \<Rightarrow> (Ignored, received_votes, node)
      | Some response \<Rightarrow>
          if state node \<noteq> Candidate then (Ignored, received_votes, node)
          else if rvr_Term response > currentTerm node then
            (SteppedDown, received_votes, ToFollower (rvr_Term response) node)
          else if rvr_Term response = currentTerm node then
            (if VoteGranted response then
               let votes = i32 (received_votes + 1)
               in if votes * 2 > n_replicas (Meta node) then
                    let (msg, n1) = ToLeader_begin node in (Won msg, votes, n1)
                  else (Counted, votes, node)
             else (Ignored, received_votes, node))
          else (Ignored, received_votes, node))"

lemma RequestVote_args_simps [simp]:
  "rv_Term (RequestVote_args n) = currentTerm n" "CandidateId (RequestVote_args n) = replica_id (Meta n)"
  "(LastLogIndex (RequestVote_args n), LastLogTerm (RequestVote_args n)) = latest (log n)"
  by (simp_all add: RequestVote_args_def split_beta)

section \<open>Who is asked\<close>

text \<open>A node that \<open>ConnectToPeerReplicas\<close> has connected to a cluster of \<open>N\<close> replicas.\<close>

definition connected :: "nat \<Rightarrow> nat \<Rightarrow> RaftNode \<Rightarrow> bool" where
  "connected N i n \<longleftrightarrow> replica_id (Meta n) = int i \<and> n_replicas (Meta n) = int N \<and>
     peer_replica_clients (Meta n) = map (\<lambda>j. if int j = int i then None else Some j) [0..<N]"

lemma connected_ConnectToPeerReplicas:
  "replica_id (Meta n) = int i \<Longrightarrow> n_replicas (Meta n) = int N \<Longrightarrow> connected N i (ConnectToPeerReplicas n)"
  by (simp add: connected_def)

lemma connected_Meta: "Meta n' = Meta n \<Longrightarrow> connected N i n' = connected N i n"
  by (simp add: connected_def)

lemma vote_targets_connected:
  assumes "int N < 2147483648"
  shows "k \<le> N \<Longrightarrow> vote_targets (map (\<lambda>j. if int j = int i then None else Some j) [k..<N]) (int i) (int k)
           = map int (filter (\<lambda>j. j \<noteq> i) [k..<N])"
proof (induction "N - k" arbitrary: k)
  case (Suc d)
  then have lt: "k < N" by simp
  then have "i32 (int k + 1) = 1 + int k" using assms by (simp add: i32_id)
  moreover have "d = N - Suc k" "Suc k \<le> N" using Suc.hyps(2) lt by simp_all
  note Suc.hyps(1) [OF this]
  ultimately show ?case using lt by (simp add: upt_conv_Cons)
qed simp

lemma ToCandidate_effects:
  assumes "connected N i n" and "int N < 2147483648"
  shows "effects (ToCandidate n) = effects n @ map (Go_RequestVote \<circ> int) (filter (\<lambda>j. j \<noteq> i) [0..<N])
           @ [Go_RunElectionTimer]"
  using assms vote_targets_connected [OF assms(2), of 0 i]
  by (simp add: ToCandidate_def StartElection_def Let_def StartElection_loop_effects connected_def)

section \<open>Replies\<close>

lemma handle_vote_RequestVote:
  assumes "currentTerm n0 \<le> currentTerm n"
  shows "currentTerm (snd (snd (handle_vote (Some (fst (RequestVote (RequestVote_args n0) p))) v n))) = currentTerm n"
  using assms by (simp add: handle_vote_def Let_def split_beta)

lemma handle_vote_cases:
  assumes "handle_vote resp v n = (out, v', n')"
  obtains (quiet) "n' = n" "v' = v" "out = Ignored"
  | (down) r where "resp = Some r" "currentTerm n < rvr_Term r" "out = SteppedDown" "n' = ToFollower (rvr_Term r) n"
      "v' = v"
  | (counted) r where "resp = Some r" "state n = Candidate" "rvr_Term r = currentTerm n" "VoteGranted r"
      "n' = n" "v' = i32 (v + 1)" "out = Counted"
  | (won) r msg where "resp = Some r" "state n = Candidate" "rvr_Term r = currentTerm n" "VoteGranted r"
      "n' = snd (ToLeader_begin n)" "v' = i32 (v + 1)" "n_replicas (Meta n) < 2 * v'" "out = Won msg"
proof (cases resp)
  case None
  with assms quiet show ?thesis by (simp add: handle_vote_def)
next
  case (Some r)
  consider "state n \<noteq> Candidate \<or> rvr_Term r < currentTerm n \<or> (rvr_Term r = currentTerm n \<and> \<not> VoteGranted r)"
    | "state n = Candidate" "currentTerm n < rvr_Term r"
    | "state n = Candidate" "rvr_Term r = currentTerm n" "VoteGranted r" "i32 (v + 1) * 2 > n_replicas (Meta n)"
    | "state n = Candidate" "rvr_Term r = currentTerm n" "VoteGranted r" "\<not> i32 (v + 1) * 2 > n_replicas (Meta n)"
    by linarith
  then show ?thesis
  proof cases
    case 1
    with assms Some have "n' = n" "v' = v" "out = Ignored" by (auto simp: handle_vote_def split: if_splits)
    then show ?thesis by (rule quiet)
  next
    case 2
    with assms Some have "out = SteppedDown" "n' = ToFollower (rvr_Term r) n" "v' = v"
      by (simp_all add: handle_vote_def)
    with Some 2(2) show ?thesis by (rule down)
  next
    case 3
    with assms Some have "n' = snd (ToLeader_begin n)" "v' = i32 (v + 1)" "out = Won (fst (ToLeader_begin n))"
      by (simp_all add: handle_vote_def Let_def split_beta)
    with Some 3 show ?thesis by (intro won) simp_all
  next
    case 4
    with assms Some have "n' = n" "v' = i32 (v + 1)" "out = Counted"
      by (simp_all add: handle_vote_def Let_def split_beta)
    with Some 4(1-3) show ?thesis by (intro counted)
  qed
qed

section \<open>AppendEntries and the election state\<close>

text \<open>
  Whatever the request: if the handler returns, term, vote and role have changed only as the
  comparison of the terms says.  If it panics, the file holds what the step down has written.
\<close>

lemma AppendEntries_commit_frame:
  assumes "AppendEntries_commit m n = Inr n'"
  shows "currentTerm n' = currentTerm n \<and> votedFor n' = votedFor n \<and> state n' = state n \<and> same_identity n n'"
  using assms by (auto simp: AppendEntries_commit_def Let_def go_bind_eq_Inr same_identity_def split: if_splits)

lemma AppendEntries_current_frame:
  assumes "AppendEntries_current m n = Inr (r, n')"
  shows "currentTerm n' = currentTerm n \<and> votedFor n' = votedFor n \<and> state n' = state n \<and>
     same_identity n n' \<and> (vote_saved n \<longrightarrow> vote_saved n')"
proof -
  let ?n2 = "(emit Send_electionResetEvent n)
    \<lparr>Meta := (Meta (emit Send_electionResetEvent n))\<lparr>leaderAddress := LeaderAddr m\<rparr>\<rparr>"
  from assms obtain ok where
    "go_bind (if ok then
       let (logIndex, entryIndex) = scan (log ?n2) (Entries m) (nat (i32 (PrevLogIndex m + 1))) 0
       in go_bind (write_entries (log ?n2) (Entries m) logIndex entryIndex) (\<lambda>l'.
            go_bind (AppendEntries_commit m (?n2\<lparr>log := l'\<rparr>)) (\<lambda>n3.
              Inr (ae_response (ae_Term m) True, PersistToStorage n3)))
     else Inr (ae_response (ae_Term m) False, ?n2)) Inr = Inr (r, n')"
    unfolding AppendEntries_current_def Let_def by (auto simp: go_bind_eq_Inr)
  then consider "n' = ?n2" | l n3 where "AppendEntries_commit m (?n2\<lparr>log := l\<rparr>) = Inr n3" "n' = PersistToStorage n3"
    by (auto simp: go_bind_eq_Inr split: if_splits prod.splits)
  then show ?thesis
  proof cases
    case 1
    then show ?thesis by (simp add: same_identity_def vote_saved_def)
  next
    case 2
    with AppendEntries_commit_frame [OF 2(1)] show ?thesis by (simp add: same_identity_def)
  qed
qed

lemma AppendEntries_stale_frame: "AppendEntries_stale m n = Inr (r, n') \<Longrightarrow> n' = n"
  by (auto simp: AppendEntries_stale_def go_bind_eq_Inr Let_def split: if_splits prod.splits)

lemma AppendEntries_frame:
  assumes "AppendEntries m n = Inr (r, n')"
  shows "currentTerm n' = max (currentTerm n) (ae_Term m) \<and>
     votedFor n' = (if steps_down m n then -1 else votedFor n) \<and>
     state n' = (if steps_down m n then Follower else state n) \<and>
     same_identity n n' \<and> (vote_saved n \<longrightarrow> vote_saved n')"
proof -
  consider (stale) "currentTerm n > ae_Term m" | (steps) "currentTerm n \<le> ae_Term m" "steps_down m n"
    | (stays) "currentTerm n = ae_Term m" "\<not> steps_down m n"
    by (fastforce simp: steps_down_def)
  then show ?thesis
  proof cases
    case stale
    with assms have "AppendEntries_stale m n = Inr (r, n')" by (simp add: AppendEntries_def)
    with stale AppendEntries_stale_frame show ?thesis by (auto simp: steps_down_def same_identity_def)
  next
    case steps
    with assms have "AppendEntries_current m (ToFollower (ae_Term m) n) = Inr (r, n')"
      by (auto simp: AppendEntries_def steps_down_def split: if_splits)
    from AppendEntries_current_frame [OF this] steps show ?thesis by (simp add: same_identity_def)
  next
    case stays
    with assms have "AppendEntries_current m n = Inr (r, n')"
      by (auto simp: AppendEntries_def steps_down_def split: if_splits)
    from AppendEntries_current_frame [OF this] stays show ?thesis by (simp add: same_identity_def)
  qed
qed

lemma connected_same_identity: "same_identity n n' \<Longrightarrow> connected N i n' = connected N i n"
  by (simp add: connected_def same_identity_def)

section \<open>Properties\<close>

text \<open>
  A timeout makes the replica a candidate of the next term with its own vote, saved on
  disk, and starts exactly one vote goroutine for every other replica and one election timer.
\<close>

theorem candidate_asks_every_peer:
  assumes "connected N i n" and "int N < 2147483648" and "in_i32 (currentTerm n)" and "currentTerm n < max_i32"
  shows "state (ToCandidate n) = Candidate \<and> currentTerm (ToCandidate n) = currentTerm n + 1 \<and>
     votedFor (ToCandidate n) = int i \<and> vote_saved (ToCandidate n) \<and> log (ToCandidate n) = log n \<and>
     effects (ToCandidate n) = effects n @ map (Go_RequestVote \<circ> int) (filter (\<lambda>j. j \<noteq> i) [0..<N])
       @ [Go_RunElectionTimer]"
  using assms ToCandidate_effects [OF assms(1,2)] by (simp add: connected_def i32_id in_i32_def)

lemma demo_connected: "connected 3 1 (demo_node 3 1 4 Follower [])"
  by (simp add: connected_def demo_node_def initial_node_def Let_def i32_id)

theorem candidate_asks_every_peer_witness:
  "state (ToCandidate (demo_node 3 1 4 Follower [])) = Candidate \<and>
   currentTerm (ToCandidate (demo_node 3 1 4 Follower [])) = 5"
  using candidate_asks_every_peer [OF demo_connected] by (simp add: in_i32_def)

text \<open>
  How a reply is counted, on every branch: only a candidate counts it, only when the
  reply is of its current term and grants the vote; the counter goes up by one, and the
  candidate becomes leader exactly when twice the counter exceeds the number of replicas.
\<close>

theorem vote_reply_correct:
  assumes "in_i32 (v + 1)"
  shows "\<exists>out v' n'. handle_vote (Some r) v n = (out, v', n') \<and>
     v' = (if state n = Candidate \<and> rvr_Term r = currentTerm n \<and> VoteGranted r then v + 1 else v) \<and>
     (state n' = Leader \<longleftrightarrow> state n = Leader \<or>
        (state n = Candidate \<and> rvr_Term r = currentTerm n \<and> VoteGranted r \<and> n_replicas (Meta n) < 2 * (v + 1))) \<and>
     currentTerm n' = (if state n = Candidate then max (currentTerm n) (rvr_Term r) else currentTerm n) \<and>
     log n' = (if state n \<noteq> Leader \<and> state n' = Leader then log n @ [noop_entry (currentTerm n)] else log n)"
  using i32_in_i32 [OF assms] by (auto simp: handle_vote_def Let_def split_beta)

theorem vote_reply_correct_witness:
  "\<exists>out v' n'. handle_vote (Some \<lparr>rvr_Term = 4, VoteGranted = True\<rparr>) 1 (demo_node 3 1 4 Candidate []) = (out, v', n') \<and>
     v' = 2 \<and> state n' = Leader \<and> log n' = [noop_entry 4]"
  using vote_reply_correct [of 1 "\<lparr>rvr_Term = 4, VoteGranted = True\<rparr>" "demo_node 3 1 4 Candidate []"]
  by (auto simp: in_i32_def)

text \<open>
  A candidate never learns a newer term from a vote reply: a replica answers with the term
  of the request, so whatever the term of the voter, the branch that steps down is not taken,
  and a candidate that lags behind stays a candidate of its old term.
\<close>

theorem newer_term_not_learned:
  assumes "currentTerm n0 \<le> currentTerm n"
  shows "fst (handle_vote (Some (fst (RequestVote (RequestVote_args n0) voter))) v n) \<noteq> SteppedDown \<and>
     currentTerm (snd (snd (handle_vote (Some (fst (RequestVote (RequestVote_args n0) voter))) v n))) = currentTerm n"
  using assms by (simp add: handle_vote_def Let_def split_beta)

theorem newer_term_not_learned_witness:
  "currentTerm (snd (snd (handle_vote
      (Some (fst (RequestVote (RequestVote_args (demo_node 3 1 1 Candidate [])) (demo_node 3 2 9 Follower [])))) 1
      (demo_node 3 1 1 Candidate [])))) = 1"
  using newer_term_not_learned [of "demo_node 3 1 1 Candidate []" "demo_node 3 1 1 Candidate []" "demo_node 3 2 9 Follower []" 1]
  by simp

end
