(* ===== verification/Raft_Round.thy ===== *)
theory Raft_Round
  imports Raft_Election
begin

text \<open>
  A whole round of AppendEntries, \<open>LeaderSendAEs\<close> of \<^verbatim>\<open>src/raft/send_AEs.go\<close>: the goroutines that
  it starts, one per peer with a stub, each with its section under the read lock, its calls
  and its contribution to the two counters; and the two loops that run rounds, the NO-OP loop of
  \<open>ToLeader\<close> (\<^verbatim>\<open>src/raft/states.go\<close>) and \<open>HeartBeats\<close>.  The goroutines of a round run one
  after the other, in any order (\<open>sched\<close>); what becomes of each call is decided by the network
  (\<open>net\<close>): it is delivered, its reply is lost, or it is lost altogether, and a call beyond the
  given fates fails on the deadline of the round.
  The lemmas follow one goroutine and then the round: it never panics, changes nothing of the
  leader but the indices of the peers, leaves every peer a follower of the leader, and its
  verdict is the majority's.
\<close>

section \<open>The fate of a call\<close>

datatype fate = Delivered | ReplyLost | Lost

text \<open>\<open>LeaderSendAE\<close> over such a network: the result, the leader and the peer.\<close>

fun LeaderSendAE_net ::
    "fate list \<Rightarrow> int \<Rightarrow> int \<Rightarrow> AppendEntriesMessage \<Rightarrow> RaftNode \<Rightarrow> RaftNode \<Rightarrow> (bool \<times> RaftNode \<times> RaftNode) go" where
  "LeaderSendAE_net [] rid upper_index msg node peer = Inr (False, node, peer)"
| "LeaderSendAE_net (Lost # fates) rid upper_index msg node peer = Inr (False, node, peer)"
| "LeaderSendAE_net (ReplyLost # fates) rid upper_index msg node peer =
     go_bind (AppendEntries msg peer) (\<lambda>(response, peer1). Inr (False, node, peer1))"
| "LeaderSendAE_net (Delivered # fates) rid upper_index msg node peer =
     (case AppendEntries msg peer of
        Inl e \<Rightarrow> Inl e
      | Inr (response, peer1) \<Rightarrow>
          (case LeaderSendAE_resp rid upper_index msg (Some response) node of
             Inl e \<Rightarrow> Inl e
           | Inr (Return b, node1) \<Rightarrow> Inr (b, node1, peer1)
           | Inr (Retry msg1, node1) \<Rightarrow> LeaderSendAE_net fates rid upper_index msg1 node1 peer1))"

section \<open>A round\<close>

text \<open>
  What the goroutines of a round share: the message, the node, the counters and the channel;
  and the peers they call.
\<close>

record round =
  rd_msg :: AppendEntriesMessage
  rd_leader :: RaftNode
  rd_peers :: "nat \<Rightarrow> RaftNode"
  successes :: int
  failures :: int
  verdicts :: "bool list"

text \<open>The loop over the stubs: the goroutines that are started, with replica id and stub.\<close>

fun spawned :: "nat option list \<Rightarrow> int \<Rightarrow> int \<Rightarrow> (int \<times> nat) list" where
  "spawned [] rid self = []"
| "spawned (client_obj # clients) rid self =
     (if rid = self then spawned clients (i32 (rid + 1)) self
      else case client_obj of
             None \<Rightarrow> spawned clients (i32 (rid + 1)) self
           | Some peer \<Rightarrow> (rid, peer) # spawned clients (i32 (rid + 1)) self)"

text \<open>The body of a goroutine.\<close>

definition goroutine :: "(nat \<Rightarrow> fate list) \<Rightarrow> int \<Rightarrow> int \<times> nat \<Rightarrow> round \<Rightarrow> round go" where
  "goroutine net upper_index g r =
     (case g of (rid, client_obj) \<Rightarrow>
        go_bind (LeaderSendAEs_read rid upper_index (rd_leader r)) (\<lambda>s.
          let msg = set_entries s (set_prev s (rd_msg r))
          in go_bind (LeaderSendAE_net (net client_obj) rid upper_index msg (rd_leader r) (rd_peers r client_obj))
               (\<lambda>(ok, node1, peer1).
                  let (c, out) = tally_step (n_replicas (Meta node1)) ok (successes r, failures r)
                  in Inr \<lparr>rd_msg = msg, rd_leader = node1, rd_peers = (rd_peers r)(client_obj := peer1),
                          successes = fst c, failures = snd c, verdicts = verdicts r @ out\<rparr>)))"

fun goroutines :: "(nat \<Rightarrow> fate list) \<Rightarrow> int \<Rightarrow> (int \<times> nat) list \<Rightarrow> round \<Rightarrow> round go" where
  "goroutines net upper_index [] r = Inr r"
| "goroutines net upper_index (g # gs) r =
     go_bind (goroutine net upper_index g r) (\<lambda>r1. goroutines net upper_index gs r1)"

lemma goroutine_inv:
  assumes "goroutine net u g r = Inr r'"
  obtains msg ok n1 p1 where
    "LeaderSendAE_net (net (snd g)) (fst g) u msg (rd_leader r) (rd_peers r (snd g)) = Inr (ok, n1, p1)"
    "rd_leader r' = n1" "rd_peers r' = (rd_peers r)(snd g := p1)"
proof -
  obtain rid j where g: "g = (rid, j)" by (cases g)
  from assms obtain s where s: "LeaderSendAEs_read rid u (rd_leader r) = Inr s"
    by (cases "LeaderSendAEs_read rid u (rd_leader r)") (simp_all add: goroutine_def g)
  let ?msg = "set_entries s (set_prev s (rd_msg r))"
  from assms obtain ok n1 p1 where
    n: "LeaderSendAE_net (net j) rid u ?msg (rd_leader r) (rd_peers r j) = Inr (ok, n1, p1)"
    by (cases "LeaderSendAE_net (net j) rid u ?msg (rd_leader r) (rd_peers r j)") (auto simp: goroutine_def g s Let_def)
  with assms have "rd_leader r' = n1" "rd_peers r' = (rd_peers r)(j := p1)"
    by (auto simp: goroutine_def g s Let_def split: prod.splits)
  with n that [of ?msg ok n1 p1] show thesis by (simp add: g)
qed

lemma goroutines_inv:
  assumes "goroutines net u (g # gs) r = Inr r'"
  obtains r1 where "goroutine net u g r = Inr r1" "goroutines net u gs r1 = Inr r'"
  using assms by (cases "goroutine net u g r") simp_all

text \<open>A delivered call: the handling by the peer, and the end or the next call.\<close>

lemma delivered_inv:
  assumes "LeaderSendAE_net (Delivered # fates) rid u m n p = Inr (ok, n', p')"
  obtains (last) resp b where "AppendEntries m p = Inr (resp, p')"
      "LeaderSendAE_resp rid u m (Some resp) n = Inr (Return b, n')"
  | (more) resp p1 m1 n1 where "AppendEntries m p = Inr (resp, p1)"
      "LeaderSendAE_resp rid u m (Some resp) n = Inr (Retry m1, n1)"
      "LeaderSendAE_net fates rid u m1 n1 p1 = Inr (ok, n', p')"
  using assms by (auto split: sum.splits ae_next.splits)

type_synonym schedule = "(int \<times> nat) list \<Rightarrow> (int \<times> nat) list"

definition LeaderSendAEs ::
    "schedule \<Rightarrow> (nat \<Rightarrow> fate list) \<Rightarrow> AppendEntriesMessage \<Rightarrow> int \<Rightarrow> RaftNode \<times> (nat \<Rightarrow> RaftNode) \<Rightarrow> round go" where
  "LeaderSendAEs sched net msg upper_index s =
     goroutines net upper_index
       (sched (spawned (peer_replica_clients (Meta (fst s))) 0 (replica_id (Meta (fst s)))))
       \<lparr>rd_msg = msg, rd_leader = fst s, rd_peers = snd s, successes = 1, failures = 0, verdicts = []\<rparr>"

section \<open>A peer that follows the leader\<close>

definition follows :: "RaftNode \<Rightarrow> RaftNode \<Rightarrow> bool" where
  "follows n p \<longleftrightarrow> node_ok p \<and> currentTerm p \<le> currentTerm n \<and> log_match (log n) (log p)"

text \<open>The numbers handed to the apply loop.\<close>

fun commits_of :: "effect list \<Rightarrow> int list" where
  "commits_of [] = []"
| "commits_of (e # es) = (case e of Send_commits_ready k \<Rightarrow> k # commits_of es | _ \<Rightarrow> commits_of es)"

lemma commits_of_append [simp]: "commits_of (es @ fs) = commits_of es @ commits_of fs"
  by (induction es) (auto split: effect.splits)

text \<open>The whole log of the leader is on the peer, and with it what the leader has committed.\<close>

definition replicated :: "RaftNode \<Rightarrow> RaftNode \<Rightarrow> bool" where
  "replicated n p \<longleftrightarrow> take (length (log n)) (log p) = log n \<and> commitIndex n \<le> commitIndex p"

text \<open>What handling messages of the leader does to a peer.\<close>

definition moved :: "RaftNode \<Rightarrow> RaftNode \<Rightarrow> RaftNode \<Rightarrow> bool" where
  "moved n p p' \<longleftrightarrow> follows n p' \<and> lastApplied p' = lastApplied p \<and>
     kvstore_addr (Meta p') = kvstore_addr (Meta p) \<and>
     ((log p' = log p \<and> commitIndex p' = commitIndex p) \<or>
      (log p' = log n @ drop (length (log n)) (log p) \<and> commitIndex p' = max (commitIndex p) (commitIndex n))) \<and>
     (\<exists>bs. commits_of (effects p') = commits_of (effects p) @ bs \<and>
           sum_list bs = commitIndex p' - commitIndex p \<and> (\<forall>b \<in> set bs. 0 \<le> b))"

lemma moved_refl: "follows n p \<Longrightarrow> moved n p p"
  by (auto simp: moved_def)

lemma moved_trans:
  assumes "moved n p p'" and "moved n p' p''"
  shows "moved n p p''"
proof -
  from assms obtain bs cs where b: "commits_of (effects p') = commits_of (effects p) @ bs"
      "sum_list bs = commitIndex p' - commitIndex p" "\<forall>b \<in> set bs. 0 \<le> b"
    and c: "commits_of (effects p'') = commits_of (effects p') @ cs"
      "sum_list cs = commitIndex p'' - commitIndex p'" "\<forall>b \<in> set cs. 0 \<le> b"
    by (auto simp: moved_def)
  then have "commits_of (effects p'') = commits_of (effects p) @ (bs @ cs)"
    "sum_list (bs @ cs) = commitIndex p'' - commitIndex p" "\<forall>b \<in> set (bs @ cs). 0 \<le> b" by auto
  moreover have "(log p'' = log p \<and> commitIndex p'' = commitIndex p) \<or>
      (log p'' = log n @ drop (length (log n)) (log p) \<and> commitIndex p'' = max (commitIndex p) (commitIndex n))"
    using assms by (auto simp: moved_def)
  ultimately show ?thesis using assms unfolding moved_def by metis
qed

section \<open>Handling of a message by a peer\<close>

lemma track_effects:
  assumes "small (log n)" and "-1 \<le> commitIndex n" and "commitIndex n < int (length (log n))"
    and "AppendEntries_commit m n = Inr n'"
  shows "\<exists>bs. commits_of (effects n') = commits_of (effects n) @ bs \<and>
           sum_list bs = commitIndex n' - commitIndex n \<and> (\<forall>b \<in> set bs. 0 \<le> b) \<and>
           kvstore_addr (Meta n') = kvstore_addr (Meta n)"
proof -
  have kv: "kvstore_addr (Meta n') = kvstore_addr (Meta n)"
    using assms(4) by (auto simp: AppendEntries_commit_def Let_def go_bind_eq_Inr split: if_splits)
  from AppendEntries_commit_eq [OF assms(1-3), of m] assms(4) have
    c: "commitIndex n' = new_commit m (log n) (commitIndex n)"
    and e: "effects n' = effects n @ (if LeaderCommit m > commitIndex n
             then [Send_commits_ready (i32 (commitIndex n' - commitIndex n))] else [])" by auto
  have d: "0 \<le> commitIndex n' - commitIndex n" "commitIndex n' - commitIndex n < 2147483648"
    using assms(1-3) by (auto simp: c new_commit_def small_def)
  then have i: "i32 (commitIndex n' - commitIndex n) = commitIndex n' - commitIndex n" by (simp add: i32_id)
  show ?thesis
  proof (cases "LeaderCommit m > commitIndex n")
    case True
    then show ?thesis using e i d kv by (intro exI [of _ "[commitIndex n' - commitIndex n]"]) simp
  next
    case False
    then have "commitIndex n' = commitIndex n" by (simp add: c new_commit_def)
    with False e kv show ?thesis by (intro exI [of _ "[]"]) simp
  qed
qed

lemma AppendEntries_current_commits:
  assumes "node_ok n" and "sane m" and "AppendEntries_current m n = Inr (r, n')"
  shows "\<exists>bs. commits_of (effects n') = commits_of (effects n) @ bs \<and>
           sum_list bs = commitIndex n' - commitIndex n \<and> (\<forall>b \<in> set bs. 0 \<le> b) \<and>
           kvstore_addr (Meta n') = kvstore_addr (Meta n)"
proof -
  let ?n1 = "emit Send_electionResetEvent n"
  let ?n2 = "?n1\<lparr>Meta := (Meta ?n1)\<lparr>leaderAddress := LeaderAddr m\<rparr>\<rparr>"
  have sm: "small (log n)" using assms(1) by (simp add: node_ok_def)
  have pm: "prev_matches m (log n) = Inr (prev_ok m (log n))" by (rule prev_matches_eq [OF assms(2) sm])
  show ?thesis
  proof (cases "prev_ok m (log n)")
    case False
    with pm assms(3) have "n' = ?n2" by (simp add: AppendEntries_current_def Let_def)
    then show ?thesis by (intro exI [of _ "[]"]) simp
  next
    case True
    have st: "start_of m \<le> length (log n)" by (rule prev_ok_start [OF True assms(2)])
    let ?l = "merged (log n) (start_of m) (Entries m)"
    let ?n3 = "?n2\<lparr>log := ?l\<rparr>"
    have ok: "small ?l" "commitIndex n < int (length ?l)" "-1 \<le> commitIndex n"
      using small_merged [OF assms(2) sm st] assms(1) st by (auto simp: node_ok_def length_merged max_def)
    from scan_write_merged [OF st, of "Entries m"] obtain i j where
      sw: "scan (log n) (Entries m) (start_of m) 0 = (i, j)" "write_entries (log n) (Entries m) i j = Inr ?l"
      by (cases "scan (log n) (Entries m) (start_of m) 0") auto
    from assms(3) pm True sw obtain n4 where
      n4: "AppendEntries_commit m ?n3 = Inr n4" "n' = PersistToStorage n4"
      by (auto simp: AppendEntries_current_def Let_def sane_start [OF assms(2)] go_bind_eq_Inr)
    from track_effects [OF _ _ _ n4(1)] ok n4(2) show ?thesis by simp
  qed
qed

lemma carried_response:
  assumes "small (log n)" and "carries n m" and "LeaderCommit m = commitIndex n"
    and "commitIndex n < int (length (log n))" and "follows n p"
  shows "\<exists>r p'. AppendEntries m p = Inr (r, p') \<and> aer_Term r = currentTerm n \<and>
           Success r = prev_ok m (log p) \<and> moved n p p' \<and>
           (Success r \<longrightarrow> replicated n p')"
proof -
  have p: "node_ok p" "currentTerm p \<le> currentTerm n" "log_match (log n) (log p)" using assms(5) by (simp_all add: follows_def)
  have sane: "sane m" by (rule carries_sane [OF assms(2,1)])
  have t: "ae_Term m = currentTerm n" using assms(2) by (simp add: carries_def)
  from AppendEntries_eq [OF p(1) sane] p(2) t obtain r p' where
    ae: "AppendEntries m p = Inr (r, p')" "aer_Term r = currentTerm n" "Success r = prev_ok m (log p)"
      "currentTerm p' = currentTerm n" "log p' = new_log m (log p)"
      "commitIndex p' = (if prev_ok m (log p) then new_commit m (log p') (commitIndex p) else commitIndex p)"
      "lastApplied p' = lastApplied p"
    by (auto simp: max_def)
  have ok: "node_ok p'" by (rule AppendEntries_ok [OF p(1) sane ae(1)])
  let ?q = "if steps_down m p then ToFollower (ae_Term m) p else p"
  have cur: "AppendEntries_current m ?q = Inr (r, p')" using ae(1) p(2) t by (auto simp: AppendEntries_def steps_down_def)
  have q: "node_ok ?q" using p(1) by simp
  from AppendEntries_current_commits [OF q sane cur] have
    bs: "\<exists>bs. commits_of (effects p') = commits_of (effects p) @ bs \<and>
      sum_list bs = commitIndex p' - commitIndex p \<and> (\<forall>b \<in> set bs. 0 \<le> b)"
    and kv: "kvstore_addr (Meta p') = kvstore_addr (Meta p)"
    by (auto split: if_splits)
  show ?thesis
  proof (cases "prev_ok m (log p)")
    case True
    have l: "log p' = log n @ drop (length (log n)) (log p)"
      using carried_log [OF assms(2,1) p(3) True] ae(5) by simp
    have cm: "commitIndex p' = max (commitIndex p) (commitIndex n)"
      using True ae(6) l assms(3,4) by (simp add: new_commit_def)
    moreover have "log_match (log n) (log p')" by (simp add: l log_match_def nth_append)
    ultimately have "moved n p p'" using cm ae(4,7) ok bs kv l by (simp add: moved_def follows_def)
    moreover have "replicated n p'" using cm by (simp add: replicated_def l)
    ultimately show ?thesis using ae(1-3) True by blast
  next
    case False
    then have "log p' = log p" using ae(5) by (simp add: new_log_def)
    with False show ?thesis using ae ok bs kv p(3) by (simp add: moved_def follows_def)
  qed
qed

section \<open>One goroutine\<close>

text \<open>The leader after handling responses of its followers: only the indices of the peers
  have changed, and \<open>nextIndex\<close> stays within the log.\<close>

definition indices_ok :: "nat \<Rightarrow> RaftNode \<Rightarrow> bool" where
  "indices_ok N n \<longleftrightarrow> length (nextIndex n) = N \<and> length (matchIndex n) = N \<and>
     (\<forall>x \<in> set (nextIndex n). 0 \<le> x \<and> x \<le> int (length (log n)))"

definition leading :: "nat \<Rightarrow> nat \<Rightarrow> RaftNode \<Rightarrow> bool" where
  "leading N i n \<longleftrightarrow> state n = Leader \<and> connected N i n \<and> indices_ok N n \<and> small (log n) \<and>
     -1 \<le> commitIndex n \<and> commitIndex n < int (length (log n))"

definition leader_frame :: "RaftNode \<Rightarrow> RaftNode \<Rightarrow> bool" where
  "leader_frame n n' \<longleftrightarrow> n' = n\<lparr>nextIndex := nextIndex n', matchIndex := matchIndex n'\<rparr>"

lemma leader_frame_refl [simp]: "leader_frame n n"
  by (simp add: leader_frame_def)

lemma leader_frame_trans: "leader_frame n n' \<Longrightarrow> leader_frame n' n'' \<Longrightarrow> leader_frame n n''"
  unfolding leader_frame_def by (cases n; cases n'; cases n'') simp

lemma leader_frame_fields:
  assumes "leader_frame n n'"
  shows "log n' = log n" "commitIndex n' = commitIndex n" "currentTerm n' = currentTerm n" "Meta n' = Meta n"
    "state n' = state n" "lastApplied n' = lastApplied n" "trackMessage n' = trackMessage n"
    "votedFor n' = votedFor n" "effects n' = effects n" "disk n' = disk n" "storage n' = storage n"
proof -
  have "n' = n\<lparr>nextIndex := nextIndex n', matchIndex := matchIndex n'\<rparr>" using assms by (simp add: leader_frame_def)
  then obtain ni mi where "n' = n\<lparr>nextIndex := ni, matchIndex := mi\<rparr>" by blast
  then show "log n' = log n" "commitIndex n' = commitIndex n" "currentTerm n' = currentTerm n" "Meta n' = Meta n"
    "state n' = state n" "lastApplied n' = lastApplied n" "trackMessage n' = trackMessage n"
    "votedFor n' = votedFor n" "effects n' = effects n" "disk n' = disk n" "storage n' = storage n" by simp_all
qed

lemma leader_frame_views:
  assumes "leader_frame n n'"
  shows "follows n' = follows n" "replicated n' = replicated n" "moved n' = moved n"
  using leader_frame_fields [OF assms]
  by (simp_all add: fun_eq_iff follows_def replicated_def moved_def)

lemma indices_ok_update:
  assumes "indices_ok N n" and "0 \<le> x" and "x \<le> int (length (log n))"
  shows "indices_ok N (n\<lparr>nextIndex := (nextIndex n)[k := x]\<rparr>)"
    "indices_ok N (n\<lparr>nextIndex := (nextIndex n)[k := x], matchIndex := (matchIndex n)[k := y]\<rparr>)"
  using assms set_update_subset_insert [of "nextIndex n" k x] by (auto simp: indices_ok_def)

lemma leading_slot: "leading N i n \<Longrightarrow> j < N \<Longrightarrow> peer_slot n (int j)"
  by (simp add: leading_def indices_ok_def peer_slot_def)

lemma leading_next: "leading N i n \<Longrightarrow> j < N \<Longrightarrow> 0 \<le> nextIndex n ! j \<and> nextIndex n ! j \<le> int (length (log n))"
  by (simp add: leading_def indices_ok_def)

text \<open>A response to a refusal: the message and the leader's index step back together.\<close>

lemma refused_steps_back:
  assumes "leading N i n" and "j < N" and "carries n m" and "nextIndex n ! j = PrevLogIndex m + 1"
    and "\<not> Success r" and "aer_Term r \<le> currentTerm n" and "0 \<le> PrevLogIndex m"
    and "u = int (length (log n)) - 1"
  shows "\<exists>m' n'. LeaderSendAE_resp (int j) u m (Some r) n = Inr (Retry m', n') \<and> carries n' m' \<and>
     LeaderCommit m' = commitIndex n \<and> PrevLogIndex m' = PrevLogIndex m - 1 \<and>
     leading N i n' \<and> leader_frame n n' \<and> nextIndex n' = (nextIndex n)[j := PrevLogIndex m' + 1] \<and>
     nextIndex n' ! j = PrevLogIndex m' + 1 \<and> matchIndex n' = matchIndex n"
proof -
  let ?p = "PrevLogIndex m"
  have sm: "small (log n)" "state n = Leader" using assms(1) by (simp_all add: leading_def)
  have lt: "?p < int (length (log n))" using assms(3) by (simp add: carries_def)
  have i: "i32 (?p - 1) = ?p - 1" "i32 (?p + 1 - 1) = ?p" using assms(7) lt sm by (simp_all add: small_def i32_id)
  have "nat (u + 1 - ?p) = length (log n) - nat ?p" using assms(7,8) lt by linarith
  then have c: "collect (log n) ?p u = Inr (drop (nat ?p) (log n))"
    using collect_eq [of ?p u "log n"] assms(7,8) by simp
  have t: "prev_term (log n) (?p - 1) = Inr (if 0 \<le> ?p - 1 then Term (log n ! nat (?p - 1)) else -1)"
    using assms(7) lt by (intro prev_term_eq) auto
  have len: "length (nextIndex n) = N" using assms(1) by (simp add: leading_def indices_ok_def)
  have g: "go_index (nextIndex n) (int j) = Inr (?p + 1)" using assms(2,4) len by simp
  let ?n = "n\<lparr>nextIndex := (nextIndex n)[j := ?p]\<rparr>"
  let ?m = "(header_msg ?n)\<lparr>PrevLogIndex := ?p - 1,
              PrevLogTerm := (if 0 \<le> ?p - 1 then Term (log n ! nat (?p - 1)) else -1),
              Entries := drop (nat ?p) (log n)\<rparr>"
  have "LeaderSendAE_resp (int j) u m (Some r) n = Inr (Retry ?m, ?n)"
    using assms(5,6) sm g c t i by (auto simp: LeaderSendAE_resp_def Let_def)
  moreover have "carries ?n ?m" using assms(7) lt by (auto simp: carries_def header_msg_def start_of_def)
  moreover have "LeaderCommit ?m = commitIndex n" by (simp add: header_msg_def)
  moreover have "indices_ok N ?n"
    using assms(1,7) lt by (intro indices_ok_update) (simp_all add: leading_def)
  then have "leading N i ?n" using assms(1) by (simp add: leading_def connected_def)
  moreover have "leader_frame n ?n" by (simp add: leader_frame_def)
  moreover have "nextIndex ?n ! j = PrevLogIndex ?m + 1" using assms(2) len by simp
  ultimately show ?thesis by (intro exI [of _ ?m] exI [of _ ?n]) simp
qed

lemma accepted_advances:
  assumes "leading N i n" and "j < N" and "Success r" and "aer_Term r = currentTerm n"
    and "u = int (length (log n)) - 1"
  shows "\<exists>n'. LeaderSendAE_resp (int j) u m (Some r) n = Inr (Return True, n') \<and>
     leading N i n' \<and> leader_frame n n' \<and> nextIndex n' = (nextIndex n)[j := u + 1] \<and>
     matchIndex n' = (matchIndex n)[j := u]"
proof -
  have len: "length (nextIndex n) = N" "length (matchIndex n) = N" and sm: "small (log n)"
    using assms(1) by (simp_all add: leading_def indices_ok_def)
  have u: "i32 (u + 1) = u + 1" using sm assms(5) by (simp add: small_def i32_id)
  let ?n = "n\<lparr>nextIndex := (nextIndex n)[j := u + 1], matchIndex := (matchIndex n)[j := u]\<rparr>"
  have "LeaderSendAE_resp (int j) u m (Some r) n = Inr (Return True, ?n)"
    using assms(2-4) len u by (simp add: LeaderSendAE_resp_def Let_def)
  moreover have "indices_ok N ?n"
    using assms(1,5) by (intro indices_ok_update) (simp_all add: leading_def)
  then have "leading N i ?n" using assms(1) by (simp add: leading_def connected_def)
  moreover have "leader_frame n ?n" by (simp add: leader_frame_def)
  ultimately show ?thesis by auto
qed

text \<open>Enough delivered calls for a peer to be brought up to date within the round.\<close>

definition responsive :: "RaftNode \<Rightarrow> fate list \<Rightarrow> bool" where
  "responsive n fates \<longleftrightarrow> (\<exists>rest. fates = replicate (length (log n) + 1) Delivered @ rest)"

lemma LeaderSendAE_net_follower:
  assumes "leading N i n" and "j < N" and "carries n m" and "LeaderCommit m = commitIndex n"
    and "nextIndex n ! j = PrevLogIndex m + 1" and "u = int (length (log n)) - 1" and "follows n p"
  shows "\<exists>ok n' p'. LeaderSendAE_net fates (int j) u m n p = Inr (ok, n', p') \<and>
     leading N i n' \<and> leader_frame n n' \<and> moved n p p' \<and>
     matchIndex n' = (if ok then (matchIndex n)[j := u] else matchIndex n) \<and>
     (ok \<longrightarrow> replicated n p' \<and> nextIndex n' ! j = u + 1) \<and>
     ((\<exists>k rest. fates = replicate k Delivered @ rest \<and> nat (PrevLogIndex m + 1) < k) \<longrightarrow> ok)"
  using assms
proof (induction fates arbitrary: n m p)
  case Nil
  then show ?case by (intro exI [of _ False] exI [of _ n] exI [of _ p]) (simp add: moved_refl)
next
  case (Cons f fates)
  have sm: "small (log n)" "commitIndex n < int (length (log n))" using Cons.prems(1) by (simp_all add: leading_def)
  from carried_response [OF sm(1) Cons.prems(3,4) sm(2) Cons.prems(7)] obtain r p1 where
    ae: "AppendEntries m p = Inr (r, p1)" "aer_Term r = currentTerm n" "Success r = prev_ok m (log p)"
      "moved n p p1" "Success r \<longrightarrow> replicated n p1" by blast
  have f1: "follows n p1" using ae(4) by (simp add: moved_def)
  have head: "f = Delivered \<and> (\<exists>k' rest. fates = replicate k' Delivered @ rest \<and> nat (PrevLogIndex m + 1) < Suc k')"
    if "\<exists>k rest. f # fates = replicate k Delivered @ rest \<and> nat (PrevLogIndex m + 1) < k"
  proof -
    from that obtain k rest where k: "f # fates = replicate k Delivered @ rest" "nat (PrevLogIndex m + 1) < k" by blast
    then obtain k' where "k = Suc k'" by (cases k) auto
    with k show ?thesis by auto
  qed
  show ?case
  proof (cases f)
    case Lost
    then show ?thesis using Cons.prems(1,7) head
      by (intro exI [of _ False] exI [of _ n] exI [of _ p]) (auto simp: moved_refl)
  next
    case ReplyLost
    then show ?thesis using Cons.prems(1) head ae(1,4)
      by (intro exI [of _ False] exI [of _ n] exI [of _ p1]) auto
  next
    case Delivered
    show ?thesis
    proof (cases "Success r")
      case True
      from accepted_advances [OF Cons.prems(1,2) True ae(2) Cons.prems(6)] obtain n1 where
        n1: "LeaderSendAE_resp (int j) u m (Some r) n = Inr (Return True, n1)" "leading N i n1" "leader_frame n n1"
          "nextIndex n1 = (nextIndex n)[j := u + 1]" "matchIndex n1 = (matchIndex n)[j := u]" by blast
      have "j < length (nextIndex n)" using Cons.prems(1,2) by (simp add: leading_def indices_ok_def)
      then show ?thesis using Delivered ae(1,4,5) True n1
        by (intro exI [of _ True] exI [of _ n1] exI [of _ p1]) simp
    next
      case False
      then have p0: "0 \<le> PrevLogIndex m" using ae(3) Cons.prems(3) by (auto simp: prev_ok_def carries_def)
      from refused_steps_back [OF Cons.prems(1-3,5) False _ p0 Cons.prems(6)] ae(2) obtain m1 n1 where
        n1: "LeaderSendAE_resp (int j) u m (Some r) n = Inr (Retry m1, n1)" "carries n1 m1"
          "LeaderCommit m1 = commitIndex n" "PrevLogIndex m1 = PrevLogIndex m - 1" "leading N i n1"
          "leader_frame n n1" "nextIndex n1 ! j = PrevLogIndex m1 + 1" "matchIndex n1 = matchIndex n"
        by auto
      note fr = leader_frame_fields [OF n1(6)] and vw = leader_frame_views [OF n1(6)]
      have "LeaderCommit m1 = commitIndex n1" "u = int (length (log n1)) - 1" "follows n1 p1"
        using n1(3) Cons.prems(6) f1 by (simp_all add: fr vw)
      from Cons.IH [OF n1(5) Cons.prems(2) n1(2) this(1) n1(7) this(2,3)] obtain ok n' p' where
        IH: "LeaderSendAE_net fates (int j) u m1 n1 p1 = Inr (ok, n', p')" "leading N i n'" "leader_frame n1 n'"
          "moved n p1 p'" "matchIndex n' = (if ok then (matchIndex n)[j := u] else matchIndex n)"
          "ok \<longrightarrow> replicated n p' \<and> nextIndex n' ! j = u + 1"
          "(\<exists>k rest. fates = replicate k Delivered @ rest \<and> nat (PrevLogIndex m1 + 1) < k) \<longrightarrow> ok"
        unfolding vw n1(8) by blast
      have "LeaderSendAE_net (f # fates) (int j) u m n p = Inr (ok, n', p')"
        using Delivered ae(1) n1(1) IH(1) by simp
      moreover have "leader_frame n n'" by (rule leader_frame_trans [OF n1(6) IH(3)])
      moreover have "moved n p p'" by (rule moved_trans [OF ae(4) IH(4)])
      moreover have "ok" if "\<exists>k rest. f # fates = replicate k Delivered @ rest \<and> nat (PrevLogIndex m + 1) < k"
      proof -
        from head [OF that] obtain k' rest where "fates = replicate k' Delivered @ rest" "nat (PrevLogIndex m + 1) < Suc k'"
          by blast
        moreover from this(2) have "nat (PrevLogIndex m1 + 1) < k'" using n1(4) p0 by linarith
        ultimately show ok using IH(7) by blast
      qed
      ultimately show ?thesis using IH(2,5,6) by blast
    qed
  qed
qed

text \<open>The message that every goroutine of a round may start from.\<close>

definition headed :: "RaftNode \<Rightarrow> AppendEntriesMessage \<Rightarrow> bool" where
  "headed n m \<longleftrightarrow> ae_Term m = currentTerm n \<and> LeaderCommit m = commitIndex n"

lemma headed_header [simp]: "headed n (header_msg n)"
  by (simp add: headed_def header_msg_def)

lemma goroutine_follower:
  assumes "leading N i (rd_leader r)" and "j < N" and "headed (rd_leader r) (rd_msg r)"
    and "u = int (length (log (rd_leader r))) - 1" and "follows (rd_leader r) (rd_peers r j)"
  shows "\<exists>ok r' mi. goroutine net u (int j, j) r = Inr r' \<and> leading N i (rd_leader r') \<and>
     leader_frame (rd_leader r) (rd_leader r') \<and> headed (rd_leader r') (rd_msg r') \<and>
     rd_peers r' = (rd_peers r)(j := rd_peers r' j) \<and> moved (rd_leader r) (rd_peers r j) (rd_peers r' j) \<and>
     (ok \<longrightarrow> replicated (rd_leader r) (rd_peers r' j)) \<and>
     (responsive (rd_leader r) (net j) \<longrightarrow> ok) \<and>
     ((successes r', failures r'), drop (length (verdicts r)) (verdicts r'))
       = tally_step (int N) ok (successes r, failures r) \<and>
     take (length (verdicts r)) (verdicts r') = verdicts r"
proof -
  let ?n = "rd_leader r"
  let ?x = "nextIndex ?n ! j"
  have x: "0 \<le> ?x" "?x \<le> int (length (log ?n))" using leading_next [OF assms(1,2)] by simp_all
  have sm: "small (log ?n)" using assms(1) by (simp add: leading_def)
  let ?s = "(?x - 1, if 0 < ?x then Term (log ?n ! nat (?x - 1)) else -1, drop (nat ?x) (log ?n))"
  have rd: "LeaderSendAEs_read (int j) u ?n = Inr ?s"
    using LeaderSendAEs_read_eq [OF leading_slot [OF assms(1,2)] sm] x by (simp add: assms(4))
  let ?m = "set_entries ?s (set_prev ?s (rd_msg r))"
  have m: "carries ?n ?m" "LeaderCommit ?m = commitIndex ?n" "?x = PrevLogIndex ?m + 1"
    using x assms(3) by (auto simp: carries_def set_entries_def set_prev_def headed_def start_of_def)
  from LeaderSendAE_net_follower [OF assms(1,2) m assms(4,5), of "net j"] obtain ok n' p' where
    net: "LeaderSendAE_net (net j) (int j) u ?m ?n (rd_peers r j) = Inr (ok, n', p')" "leading N i n'"
      "leader_frame ?n n'" "moved ?n (rd_peers r j) p'" "ok \<longrightarrow> replicated ?n p'"
      "(\<exists>k rest. net j = replicate k Delivered @ rest \<and> nat (PrevLogIndex ?m + 1) < k) \<longrightarrow> ok"
    by blast
  have nr: "n_replicas (Meta n') = int N" using net(2) by (simp add: leading_def connected_def)
  obtain c out where ts: "tally_step (int N) ok (successes r, failures r) = (c, out)" by (cases "tally_step (int N) ok (successes r, failures r)")
  let ?r = "\<lparr>rd_msg = ?m, rd_leader = n', rd_peers = (rd_peers r)(j := p'), successes = fst c, failures = snd c,
    verdicts = verdicts r @ out\<rparr>"
  have "goroutine net u (int j, j) r = Inr ?r" using rd net(1) nr ts by (simp add: goroutine_def Let_def)
  moreover have "headed n' ?m"
    using assms(3) leader_frame_fields [OF net(3)] by (simp add: headed_def set_entries_def set_prev_def)
  moreover have "responsive ?n (net j) \<longrightarrow> ok"
  proof
    assume "responsive ?n (net j)"
    then obtain rest where "net j = replicate (length (log ?n) + 1) Delivered @ rest" by (auto simp: responsive_def)
    moreover have "nat (PrevLogIndex ?m + 1) < length (log ?n) + 1" using x m(3) by linarith
    ultimately show ok using net(6) by blast
  qed
  ultimately show ?thesis using net(2-5) ts by (intro exI [of _ ok] exI [of _ ?r]) simp
qed

section \<open>The whole round\<close>

definition followers_of :: "RaftNode \<Rightarrow> (int \<times> nat) list \<Rightarrow> (nat \<Rightarrow> RaftNode) \<Rightarrow> bool" where
  "followers_of n gs peers \<longleftrightarrow> (\<forall>g \<in> set gs. fst g = int (snd g) \<and> follows n (peers (snd g)))"

lemma goroutines_follow:
  assumes "leading N i (rd_leader r)" and "headed (rd_leader r) (rd_msg r)"
    and "u = int (length (log (rd_leader r))) - 1" and "distinct gs" and "followers_of (rd_leader r) gs (rd_peers r)"
    and "\<forall>g \<in> set gs. snd g < N"
  shows "\<exists>r' oks. goroutines net u gs r = Inr r' \<and> leading N i (rd_leader r') \<and>
     leader_frame (rd_leader r) (rd_leader r') \<and> headed (rd_leader r') (rd_msg r') \<and>
     (\<forall>j. (int j, j) \<notin> set gs \<longrightarrow> rd_peers r' j = rd_peers r j) \<and>
     (\<forall>j. (int j, j) \<in> set gs \<longrightarrow> moved (rd_leader r) (rd_peers r j) (rd_peers r' j)) \<and>
     verdicts r' = verdicts r @ tally (int N) oks (successes r, failures r) \<and>
     list_all2 (\<lambda>g ok. (ok \<longrightarrow> replicated (rd_leader r) (rd_peers r' (snd g))) \<and>
                       (responsive (rd_leader r) (net (snd g)) \<longrightarrow> ok)) gs oks"
  using assms
proof (induction gs arbitrary: r)
  case Nil
  then show ?case by (intro exI [of _ r] exI [of _ "[]"]) simp
next
  case (Cons g gs)
  let ?j = "snd g"
  have g: "g = (int ?j, ?j)" "follows (rd_leader r) (rd_peers r ?j)"
    using Cons.prems(5) by (auto simp: followers_of_def prod_eq_iff)
  have j: "?j < N" using Cons.prems(6) by simp
  from goroutine_follower [OF Cons.prems(1) j Cons.prems(2,3) g(2), of net] obtain ok r1 where
    r1: "goroutine net u g r = Inr r1" "leading N i (rd_leader r1)" "leader_frame (rd_leader r) (rd_leader r1)"
      "headed (rd_leader r1) (rd_msg r1)" "rd_peers r1 = (rd_peers r)(?j := rd_peers r1 ?j)"
      "moved (rd_leader r) (rd_peers r ?j) (rd_peers r1 ?j)" "ok \<longrightarrow> replicated (rd_leader r) (rd_peers r1 ?j)"
      "responsive (rd_leader r) (net ?j) \<longrightarrow> ok"
      "((successes r1, failures r1), drop (length (verdicts r)) (verdicts r1))
         = tally_step (int N) ok (successes r, failures r)"
      "take (length (verdicts r)) (verdicts r1) = verdicts r"
    using g(1) by metis
  note fr = leader_frame_fields [OF r1(3)] and vw = leader_frame_views [OF r1(3)]
  have gj: "(int ?j, ?j) \<notin> set gs" using Cons.prems(4) g(1) by simp
  have nj: "snd g' \<noteq> ?j" if "g' \<in> set gs" for g'
  proof
    assume "snd g' = ?j"
    moreover have "fst g' = int (snd g')" using Cons.prems(5) that by (simp add: followers_of_def)
    ultimately have "g' = (int ?j, ?j)" by (simp add: prod_eq_iff)
    with gj that show False by simp
  qed
  have same: "rd_peers r1 k = rd_peers r k" if "k \<noteq> ?j" for k using r1(5) that by (metis fun_upd_other)
  have "followers_of (rd_leader r1) gs (rd_peers r1)"
    using Cons.prems(5) nj same by (simp add: followers_of_def vw)
  moreover have "u = int (length (log (rd_leader r1))) - 1" using Cons.prems(3) by (simp add: fr)
  moreover have "distinct gs" "\<forall>g \<in> set gs. snd g < N" using Cons.prems(4,6) by simp_all
  ultimately obtain r' oks where
    IH: "goroutines net u gs r1 = Inr r'" "leading N i (rd_leader r')" "leader_frame (rd_leader r1) (rd_leader r')"
      "headed (rd_leader r') (rd_msg r')"
      "\<forall>j. (int j, j) \<notin> set gs \<longrightarrow> rd_peers r' j = rd_peers r1 j"
      "\<forall>j. (int j, j) \<in> set gs \<longrightarrow> moved (rd_leader r) (rd_peers r1 j) (rd_peers r' j)"
      "verdicts r' = verdicts r1 @ tally (int N) oks (successes r1, failures r1)"
      "list_all2 (\<lambda>g ok. (ok \<longrightarrow> replicated (rd_leader r) (rd_peers r' (snd g))) \<and>
                        (responsive (rd_leader r) (net (snd g)) \<longrightarrow> ok)) gs oks"
    using Cons.IH [OF r1(2,4)] by (auto simp: vw responsive_def fr)
  have pj: "rd_peers r' ?j = rd_peers r1 ?j" using IH(5) gj by simp
  have "goroutines net u (g # gs) r = Inr r'" using r1(1) IH(1) by simp
  moreover have "leader_frame (rd_leader r) (rd_leader r')" by (rule leader_frame_trans [OF r1(3) IH(3)])
  moreover have "rd_peers r' k = rd_peers r k" if "(int k, k) \<notin> set (g # gs)" for k
    using that IH(5) same [of k] g(1) by (metis list.set_intros)
  moreover have "moved (rd_leader r) (rd_peers r k) (rd_peers r' k)" if k: "(int k, k) \<in> set (g # gs)" for k
  proof (cases "k = ?j")
    case True
    then show ?thesis using pj r1(6) by simp
  next
    case False
    with k g(1) have "(int k, k) \<in> set gs" by auto
    with IH(6) same [OF False] show ?thesis by metis
  qed
  moreover have "verdicts r' = verdicts r @ tally (int N) (ok # oks) (successes r, failures r)"
    using IH(7) r1(9) [symmetric] r1(10) by (simp add: append_take_drop_id flip: append_assoc) (metis append_take_drop_id)
  moreover have "list_all2 (\<lambda>g ok. (ok \<longrightarrow> replicated (rd_leader r) (rd_peers r' (snd g))) \<and>
                        (responsive (rd_leader r) (net (snd g)) \<longrightarrow> ok)) (g # gs) (ok # oks)"
    using IH(8) r1(7,8) pj by simp
  ultimately show ?case using IH(2,4) by blast
qed

text \<open>The goroutines of a round of a connected leader.\<close>

lemma spawned_gen:
  assumes "int (length cs) + int k < 2147483648"
    and "\<forall>a < length cs. cs ! a = (if int (k + a) = self then None else Some (k + a))"
  shows "spawned cs (int k) self = map (\<lambda>j. (int j, j)) (filter (\<lambda>j. int j \<noteq> self) [k..<k + length cs])"
  using assms
proof (induction cs arbitrary: k)
  case (Cons c cs)
  have i: "i32 (int k + 1) = int (Suc k)" using Cons.prems(1) by (simp add: i32_id)
  have tl: "\<forall>a < length cs. cs ! a = (if int (Suc k + a) = self then None else Some (Suc k + a))"
  proof (intro allI impI)
    fix a
    assume "a < length cs"
    then show "cs ! a = (if int (Suc k + a) = self then None else Some (Suc k + a))"
      using Cons.prems(2) [rule_format, of "Suc a"] by simp
  qed
  have "spawned cs (int (Suc k)) self
      = map (\<lambda>j. (int j, j)) (filter (\<lambda>j. int j \<noteq> self) [Suc k..<Suc k + length cs])"
    using Cons.prems(1) by (intro Cons.IH tl) auto
  moreover have "c = (if int k = self then None else Some k)" using Cons.prems(2) [rule_format, of 0] by simp
  moreover have "[k..<k + length (c # cs)] = k # [Suc k..<Suc k + length cs]"
    by (simp add: upt_conv_Cons del: upt_Suc)
  ultimately show ?case using i by (cases "int k = self") (simp_all del: upt_Suc)
qed simp

lemma spawned_connected:
  assumes "connected N i n" and "N < 2147483648"
  shows "spawned (peer_replica_clients (Meta n)) 0 (replica_id (Meta n))
           = map (\<lambda>j. (int j, j)) (filter (\<lambda>j. j \<noteq> i) [0..<N])"
proof -
  have "spawned (peer_replica_clients (Meta n)) (int 0) (int i)
      = map (\<lambda>j. (int j, j)) (filter (\<lambda>j. int j \<noteq> int i) [0..<0 + length (peer_replica_clients (Meta n))])"
    using assms by (intro spawned_gen) (auto simp: connected_def)
  then show ?thesis using assms(1) by (simp add: connected_def)
qed

definition permuting :: "schedule \<Rightarrow> bool" where
  "permuting sched \<longleftrightarrow> (\<forall>gs. distinct gs \<longrightarrow> distinct (sched gs) \<and> set (sched gs) = set gs)"

text \<open>The replicas of a set, counted with the leader.\<close>

definition holders :: "nat \<Rightarrow> nat \<Rightarrow> RaftNode \<Rightarrow> (nat \<Rightarrow> RaftNode) \<Rightarrow> nat set" where
  "holders N i n peers = {j. j < N \<and> (j = i \<or> replicated n (peers j))}"

definition responders :: "nat \<Rightarrow> nat \<Rightarrow> RaftNode \<Rightarrow> (nat \<Rightarrow> fate list) \<Rightarrow> nat set" where
  "responders N i n net = {j. j < N \<and> (j = i \<or> responsive n (net j))}"

lemma finite_holders [simp]: "finite (holders N i n peers)" "finite (responders N i n net)"
  by (simp_all add: holders_def responders_def)

lemma count_zip:
  assumes "length gs = length oks" and "distinct (map snd gs)"
  shows "card {j. \<exists>k < length gs. j = snd (gs ! k) \<and> oks ! k} = count_list oks True"
  using assms
proof (induction gs oks rule: list_induct2)
  case (Cons g gs ok oks)
  let ?S = "{j. \<exists>k < length gs. j = snd (gs ! k) \<and> oks ! k}"
  have "{j. \<exists>k < length (g # gs). j = snd ((g # gs) ! k) \<and> (ok # oks) ! k} = (if ok then insert (snd g) ?S else ?S)"
    by (auto simp: less_Suc_eq_0_disj)
  moreover have "snd (gs ! k) \<in> snd ` set gs" if "k < length gs" for k using that by simp
  then have "snd g \<notin> ?S" using Cons.prems by auto
  moreover have "finite ?S" by simp
  ultimately show ?case using Cons by simp
qed simp

lemma LeaderSendAEs_follow:
  assumes "leading N i n" and "i < N" and "2 \<le> N" and "N < 2147483647" and "headed n m"
    and "u = int (length (log n)) - 1" and "permuting sched" and "\<forall>j < N. j \<noteq> i \<longrightarrow> follows n (peers j)"
  shows "\<exists>r v. LeaderSendAEs sched net m u (n, peers) = Inr r \<and> leading N i (rd_leader r) \<and>
     leader_frame n (rd_leader r) \<and> headed (rd_leader r) (rd_msg r) \<and> rd_peers r i = peers i \<and>
     (\<forall>j < N. j \<noteq> i \<longrightarrow> moved n (peers j) (rd_peers r j)) \<and>
     (\<forall>j \<in> responders N i n net. j = i \<or> replicated n (rd_peers r j)) \<and> verdicts r = [v] \<and>
     (v \<longrightarrow> N < 2 * card (holders N i n (rd_peers r))) \<and>
     (N < 2 * card (responders N i n net) \<longrightarrow> v)"
proof -
  have con: "connected N i n" using assms(1) by (simp add: leading_def)
  let ?js = "filter (\<lambda>j. j \<noteq> i) [0..<N]"
  let ?all = "map (\<lambda>j. (int j, j)) ?js"
  define gs where "gs = sched ?all"
  have dis: "distinct ?all" by (simp add: distinct_map inj_on_def)
  with assms(7) have gs: "distinct gs" "set gs = set ?all" by (simp_all add: gs_def permuting_def)
  have gset: "g \<in> set gs \<longleftrightarrow> (\<exists>j. j < N \<and> j \<noteq> i \<and> g = (int j, j))" for g using gs(2) by auto
  have len: "length gs = N - 1"
  proof -
    have "length gs = card (set gs)" using gs(1) by (simp add: distinct_card)
    also have "\<dots> = length ?js" using gs(2) dis by (metis distinct_card length_map)
    also have "\<dots> = card ({0..<N} - {i})" by (simp add: distinct_length_filter set_diff_eq Int_def conj_commute)
    also have "\<dots> = N - 1" using assms(2) by simp
    finally show ?thesis .
  qed
  have dsnd: "distinct (map snd gs)"
    using gs(1) gset by (auto simp: distinct_map inj_on_def)
  let ?r0 = "\<lparr>rd_msg = m, rd_leader = n, rd_peers = peers, successes = 1, failures = 0, verdicts = []\<rparr>"
  have sp: "LeaderSendAEs sched net m u (n, peers) = goroutines net u gs ?r0"
    using spawned_connected [OF con] assms(4) by (simp add: LeaderSendAEs_def gs_def)
  have fo: "followers_of n gs peers" "\<forall>g \<in> set gs. snd g < N"
    using assms(8) gset by (auto simp: followers_of_def)
  from goroutines_follow [of N i ?r0 u gs net] assms(1,5,6) gs(1) fo obtain r oks where
    r: "goroutines net u gs ?r0 = Inr r" "leading N i (rd_leader r)" "leader_frame n (rd_leader r)"
      "headed (rd_leader r) (rd_msg r)" "\<forall>j. (int j, j) \<notin> set gs \<longrightarrow> rd_peers r j = peers j"
      "\<forall>j. (int j, j) \<in> set gs \<longrightarrow> moved n (peers j) (rd_peers r j)"
      "verdicts r = tally (int N) oks (1, 0)"
      "list_all2 (\<lambda>g ok. (ok \<longrightarrow> replicated n (rd_peers r (snd g))) \<and> (responsive n (net (snd g)) \<longrightarrow> ok)) gs oks"
    by auto
  have lo: "length oks = length gs" using r(8) by (simp add: list_all2_lengthD)
  define S where "S = {j. \<exists>k < length gs. j = snd (gs ! k) \<and> oks ! k}"
  let ?v = "N < 2 * (1 + card S)"
  have card: "card S = count_list oks True" using count_zip [OF lo [symmetric] dsnd] by (simp add: S_def)
  have fin: "finite S" by (simp add: S_def)
  have Si: "i \<notin> S"
  proof
    assume "i \<in> S"
    then obtain k where "k < length gs" "i = snd (gs ! k)" unfolding S_def by blast
    with gset [of "gs ! k"] show False by auto
  qed
  have "verdicts r = [int N < 2 * (1 + int (count_list oks True))]"
    unfolding r(7) using assms(3,4) lo len by (intro tally_verdict) auto
  then have vd: "verdicts r = [?v]" unfolding card by simp linarith
  have Sh: "insert i S \<subseteq> holders N i n (rd_peers r)"
  proof
    fix j
    assume "j \<in> insert i S"
    then show "j \<in> holders N i n (rd_peers r)"
    proof
      assume "j \<in> S"
      then obtain k where k: "k < length gs" "j = snd (gs ! k)" "oks ! k" unfolding S_def by blast
      have "j < N" using k fo(2) by simp
      moreover have "replicated n (rd_peers r j)" using list_all2_nthD [OF r(8) k(1)] k by simp
      ultimately show ?thesis by (simp add: holders_def)
    qed (simp add: holders_def assms(2))
  qed
  have Rs: "responders N i n net \<subseteq> insert i S"
  proof
    fix j
    assume j: "j \<in> responders N i n net"
    show "j \<in> insert i S"
    proof (cases "j = i")
      case False
      with j have "(int j, j) \<in> set gs" "responsive n (net j)" by (auto simp: gset responders_def)
      then obtain k where k: "k < length gs" "gs ! k = (int j, j)" by (auto simp: in_set_conv_nth)
      with list_all2_nthD [OF r(8) k(1)] \<open>responsive n (net j)\<close> have "oks ! k" by simp
      with k have "\<exists>k < length gs. j = snd (gs ! k) \<and> oks ! k" by (intro exI [of _ k]) simp
      then show ?thesis by (simp add: S_def)
    qed simp
  qed
  have card1: "card (insert i S) = 1 + card S" using fin Si by simp
  have h: "1 + card S \<le> card (holders N i n (rd_peers r))"
    using card_mono [OF finite_holders(1) Sh] card1 by simp
  have "N < 2 * card (holders N i n (rd_peers r))" if v: ?v
  proof -
    have "2 * (1 + card S) \<le> 2 * card (holders N i n (rd_peers r))" using h by simp
    with v show ?thesis by simp
  qed
  moreover have "finite (insert i S)" using fin by simp
  from card_mono [OF this Rs] have g: "card (responders N i n net) \<le> 1 + card S" using card1 by simp
  have "?v" if v: "N < 2 * card (responders N i n net)"
  proof -
    have "2 * card (responders N i n net) \<le> 2 * (1 + card S)" using g by simp
    with v show ?thesis by (rule less_le_trans)
  qed
  moreover have "\<forall>j \<in> responders N i n net. j = i \<or> replicated n (rd_peers r j)"
    using Rs Sh by (auto simp: holders_def)
  moreover have "rd_peers r i = peers i" using r(5) gset by auto
  moreover have "\<forall>j < N. j \<noteq> i \<longrightarrow> moved n (peers j) (rd_peers r j)" using r(6) gset by auto
  ultimately show ?thesis using sp r(1-4) vd by auto
qed

section \<open>The loops that run rounds\<close>

text \<open>
  The loop of \<open>ToLeader\<close> after the lock has been released: rounds for the NO-OP entry, all with
  the same message object, until one succeeds or the replica is no longer the leader.  The list
  gives the circumstances of the successive rounds; \<open>Retrying\<close> is the loop at its end,
  \<open>Blocked\<close> a wait for a verdict that never comes.
\<close>

datatype loop_end = Synchronised | Returned | Blocked | Retrying

type_synonym circumstances = "schedule \<times> (nat \<Rightarrow> fate list)"

fun ToLeader_loop ::
    "circumstances list \<Rightarrow> AppendEntriesMessage \<Rightarrow> RaftNode \<times> (nat \<Rightarrow> RaftNode) \<Rightarrow>
     (loop_end \<times> RaftNode \<times> (nat \<Rightarrow> RaftNode)) go" where
  "ToLeader_loop [] msg s = Inr (Retrying, s)"
| "ToLeader_loop (c # rounds) msg s =
     (case LeaderSendAEs (fst c) (snd c) msg (i32 (int (length (log (fst s))) - 1)) s of
        Inl e \<Rightarrow> Inl e
      | Inr r \<Rightarrow>
          (case verdicts r of
             [] \<Rightarrow> Inr (Blocked, rd_leader r, rd_peers r)
           | success # _ \<Rightarrow>
               if success then Inr (Synchronised, ToLeader_success (rd_leader r), rd_peers r)
               else if ToLeader_failure (rd_leader r) then
                 ToLeader_loop rounds (rd_msg r) (rd_leader r, rd_peers r)
               else Inr (Returned, rd_leader r, rd_peers r)))"

definition ToLeader ::
    "circumstances list \<Rightarrow> RaftNode \<times> (nat \<Rightarrow> RaftNode) \<Rightarrow> (loop_end \<times> RaftNode \<times> (nat \<Rightarrow> RaftNode)) go" where
  "ToLeader rounds s =
     (let (msg, n1) = ToLeader_begin (fst s)
      in ToLeader_loop rounds msg (n1, snd s))"

text \<open>
  \<open>HeartBeats\<close>: what its \<open>select\<close> finds next is the cancelled context or a tick; between two
  ticks other goroutines may change the node.
\<close>

datatype beat = Cancelled | Tick circumstances | Meanwhile "RaftNode \<Rightarrow> RaftNode"

fun HeartBeats ::
    "beat list \<Rightarrow> RaftNode \<times> (nat \<Rightarrow> RaftNode) \<Rightarrow> (loop_end \<times> RaftNode \<times> (nat \<Rightarrow> RaftNode)) go" where
  "HeartBeats [] s = Inr (Retrying, s)"
| "HeartBeats (Cancelled # beats) s = Inr (Returned, s)"
| "HeartBeats (Meanwhile f # beats) s = HeartBeats beats (f (fst s), snd s)"
| "HeartBeats (Tick c # beats) s =
     (if \<not> HeartBeats_check (fst s) then Inr (Returned, s)
      else
        (case LeaderSendAEs (fst c) (snd c) (fst (HeartBeats_msg (fst s))) (snd (HeartBeats_msg (fst s))) s of
           Inl e \<Rightarrow> Inl e
         | Inr r \<Rightarrow>
             (case verdicts r of
                [] \<Rightarrow> Inr (Blocked, rd_leader r, rd_peers r)
              | success # _ \<Rightarrow> HeartBeats beats (rd_leader r, rd_peers r))))"

section \<open>What the loops do among followers\<close>

definition peers_follow :: "nat \<Rightarrow> nat \<Rightarrow> RaftNode \<Rightarrow> (nat \<Rightarrow> RaftNode) \<Rightarrow> bool" where
  "peers_follow N i n peers \<longleftrightarrow> (\<forall>j < N. j \<noteq> i \<longrightarrow> follows n (peers j))"

lemma leader_frame_sets:
  assumes "leader_frame n n'"
  shows "peers_follow N i n' = peers_follow N i n" "holders N i n' = holders N i n"
    "responders N i n' = responders N i n"
  using leader_frame_fields [OF assms] leader_frame_views [OF assms]
  by (simp_all add: fun_eq_iff peers_follow_def holders_def responders_def responsive_def)

lemma moved_follows: "moved n p p' \<Longrightarrow> follows n p'"
  by (simp add: moved_def)

lemma leading_upper: "leading N i n \<Longrightarrow> i32 (int (length (log n)) - 1) = int (length (log n)) - 1"
  by (simp add: leading_def small_def i32_id)

lemma ToLeader_loop_follow:
  assumes "leading N i n" and "i < N" and "2 \<le> N" and "N < 2147483647" and "headed n m"
    and "\<forall>c \<in> set rounds. permuting (fst c)" and "peers_follow N i n peers"
    and "\<exists>c \<in> set rounds. N < 2 * card (responders N i n (snd c))"
  shows "\<exists>n1 peers'. ToLeader_loop rounds m (n, peers) = Inr (Synchronised, ToLeader_success n1, peers') \<and>
     leading N i n1 \<and> leader_frame n n1 \<and> (\<forall>j < N. j \<noteq> i \<longrightarrow> moved n (peers j) (peers' j)) \<and>
     N < 2 * card (holders N i n peers')"
  using assms
proof (induction rounds arbitrary: n m peers)
  case (Cons c rounds)
  note lead = Cons.prems(1)
  have pf: "\<forall>j < N. j \<noteq> i \<longrightarrow> follows n (peers j)" using Cons.prems(7) by (simp add: peers_follow_def)
  have perm: "permuting (fst c)" using Cons.prems(6) by simp
  from LeaderSendAEs_follow [OF lead Cons.prems(2-5) refl perm pf, of "snd c"] obtain r v where
    r: "LeaderSendAEs (fst c) (snd c) m (int (length (log n)) - 1) (n, peers) = Inr r" "leading N i (rd_leader r)"
      "leader_frame n (rd_leader r)" "headed (rd_leader r) (rd_msg r)"
      "\<forall>j < N. j \<noteq> i \<longrightarrow> moved n (peers j) (rd_peers r j)" "verdicts r = [v]"
      "v \<longrightarrow> N < 2 * card (holders N i n (rd_peers r))"
      "N < 2 * card (responders N i n (snd c)) \<longrightarrow> v" by blast
  have pf': "peers_follow N i n (rd_peers r)" using r(5) by (auto simp: peers_follow_def moved_follows)
  show ?case
  proof (cases v)
    case True
    then show ?thesis using r pf' leading_upper [OF lead] by auto
  next
    case False
    have "state (rd_leader r) = Leader" using r(2) by (simp add: leading_def)
    then have step: "ToLeader_loop (c # rounds) m (n, peers)
        = ToLeader_loop rounds (rd_msg r) (rd_leader r, rd_peers r)"
      using r(1,6) False leading_upper [OF lead] by (simp add: ToLeader_failure_def)
    note sets = leader_frame_sets [OF r(3)]
    have "peers_follow N i (rd_leader r) (rd_peers r)" using pf' by (simp add: sets)
    moreover have "\<exists>c \<in> set rounds. N < 2 * card (responders N i (rd_leader r) (snd c))"
      using Cons.prems(8) r(8) False by (auto simp: sets)
    moreover have "\<forall>c \<in> set rounds. permuting (fst c)" using Cons.prems(6) by simp
    ultimately obtain n1 peers' where
      IH: "ToLeader_loop rounds (rd_msg r) (rd_leader r, rd_peers r) = Inr (Synchronised, ToLeader_success n1, peers')"
        "leading N i n1" "leader_frame (rd_leader r) n1"
        "\<forall>j < N. j \<noteq> i \<longrightarrow> moved n (rd_peers r j) (peers' j)" "N < 2 * card (holders N i n peers')"
      using Cons.IH [OF r(2) Cons.prems(2-4) r(4)] unfolding sets leader_frame_views [OF r(3)] by blast
    moreover have "\<forall>j < N. j \<noteq> i \<longrightarrow> moved n (peers j) (peers' j)" using r(5) IH(4) moved_trans by blast
    ultimately show ?thesis using step leader_frame_trans [OF r(3) IH(3)] by auto
  qed
qed simp

lemma moved_replicated: "moved n p p' \<Longrightarrow> replicated n p \<Longrightarrow> replicated n p'"
  by (auto simp: moved_def replicated_def)

lemma HeartBeats_follow:
  assumes "leading N i n" and "i < N" and "2 \<le> N" and "N < 2147483647"
    and "\<forall>c \<in> set cs. permuting (fst c)" and "peers_follow N i n peers"
  shows "\<exists>n1 peers'. HeartBeats (map Tick cs @ beats) (n, peers) = HeartBeats beats (n1, peers') \<and>
     leading N i n1 \<and> leader_frame n n1 \<and> peers_follow N i n peers' \<and>
     (\<forall>j < N. j \<noteq> i \<longrightarrow> moved n (peers j) (peers' j)) \<and>
     (\<forall>c \<in> set cs. \<forall>j \<in> responders N i n (snd c). j = i \<or> replicated n (peers' j))"
  using assms
proof (induction cs arbitrary: n peers)
  case Nil
  then show ?case by (intro exI [of _ n] exI [of _ peers]) (auto simp: peers_follow_def moved_refl)
next
  case (Cons c cs)
  note lead = Cons.prems(1)
  have pf: "\<forall>j < N. j \<noteq> i \<longrightarrow> follows n (peers j)" using Cons.prems(6) by (simp add: peers_follow_def)
  have perm: "permuting (fst c)" "\<forall>c \<in> set cs. permuting (fst c)" using Cons.prems(5) by simp_all
  from LeaderSendAEs_follow [OF lead Cons.prems(2-4) headed_header refl perm(1) pf, of "snd c"] obtain r v where
    r: "LeaderSendAEs (fst c) (snd c) (header_msg n) (int (length (log n)) - 1) (n, peers) = Inr r"
      "leading N i (rd_leader r)" "leader_frame n (rd_leader r)"
      "\<forall>j < N. j \<noteq> i \<longrightarrow> moved n (peers j) (rd_peers r j)" "verdicts r = [v]"
      "\<forall>j \<in> responders N i n (snd c). j = i \<or> replicated n (rd_peers r j)" by blast
  note sets = leader_frame_sets [OF r(3)] and vw = leader_frame_views [OF r(3)]
  have "state n = Leader" using lead by (simp add: leading_def)
  then have "HeartBeats (Tick c # map Tick cs @ beats) (n, peers) = HeartBeats (map Tick cs @ beats) (rd_leader r, rd_peers r)"
    using r(1,5) leading_upper [OF lead] by (simp add: HeartBeats_check_def HeartBeats_msg_def)
  moreover have pf': "peers_follow N i (rd_leader r) (rd_peers r)"
    using r(4) by (auto simp: sets peers_follow_def moved_follows)
  from Cons.IH [OF r(2) Cons.prems(2-4) perm(2) pf'] obtain n1 peers' where
    IH: "HeartBeats (map Tick cs @ beats) (rd_leader r, rd_peers r) = HeartBeats beats (n1, peers')"
      "leading N i n1" "leader_frame (rd_leader r) n1" "peers_follow N i n peers'"
      "\<forall>j < N. j \<noteq> i \<longrightarrow> moved n (rd_peers r j) (peers' j)"
      "\<forall>c \<in> set cs. \<forall>j \<in> responders N i n (snd c). j = i \<or> replicated n (peers' j)"
    unfolding sets vw by blast
  moreover have "leader_frame n n1" by (rule leader_frame_trans [OF r(3) IH(3)])
  moreover have "\<forall>j < N. j \<noteq> i \<longrightarrow> moved n (peers j) (peers' j)" using r(4) IH(5) moved_trans by blast
  moreover have "j = i \<or> replicated n (peers' j)" if "j \<in> responders N i n (snd c)" for j
  proof -
    from that have "j < N" by (simp add: responders_def)
    with r(6) that IH(5) moved_replicated show ?thesis by blast
  qed
  ultimately have "HeartBeats (map Tick (c # cs) @ beats) (n, peers) = HeartBeats beats (n1, peers') \<and>
     leading N i n1 \<and> leader_frame n n1 \<and> peers_follow N i n peers' \<and>
     (\<forall>j < N. j \<noteq> i \<longrightarrow> moved n (peers j) (peers' j)) \<and>
     (\<forall>c \<in> set (c # cs). \<forall>j \<in> responders N i n (snd c). j = i \<or> replicated n (peers' j))"
    by simp
  then show ?case by blast
qed

text \<open>An entry of the leader's term, appended to its log, keeps the peers its followers.\<close>

definition fresh_term :: "RaftNode \<Rightarrow> RaftNode \<Rightarrow> bool" where
  "fresh_term n p \<longleftrightarrow> (\<forall>e \<in> set (drop (length (log n)) (log p)). Term e \<noteq> currentTerm n)"

lemma follows_append:
  assumes "follows n p" and "fresh_term n p" and "log n' = log n @ [e]" and "Term e = currentTerm n"
    and "currentTerm n' = currentTerm n"
  shows "follows n' p"
proof -
  have lm: "log_match (log n) (log p)" using assms(1) by (simp add: follows_def)
  have "Term (log p ! length (log n)) \<noteq> currentTerm n" if "length (log n) < length (log p)"
  proof -
    have "log p ! length (log n) = drop (length (log n)) (log p) ! 0" using that by simp
    moreover have "\<dots> \<in> set (drop (length (log n)) (log p))" using that by (intro nth_mem) simp
    ultimately show ?thesis using assms(2) unfolding fresh_term_def by metis
  qed
  then have "log_match (log n @ [e]) (log p)"
    using lm assms(4) unfolding log_match_def by (simp add: nth_append less_Suc_eq eq_commute)
  then show ?thesis using assms by (simp add: follows_def)
qed

lemma fresh_moved: "moved n p p' \<Longrightarrow> fresh_term n p \<Longrightarrow> fresh_term n p'"
  by (auto simp: moved_def fresh_term_def)

lemma ToLeader_begin_leading:
  assumes "connected N i n" and "i < N" and "int (length (log n)) + 1 < 2147483648"
    and "-1 \<le> commitIndex n" and "commitIndex n < int (length (log n))" and "N < 2147483648"
  shows "leading N i (snd (ToLeader_begin n))" and "headed (snd (ToLeader_begin n)) (fst (ToLeader_begin n))"
proof -
  have c: "nat (n_replicas (Meta n)) = N" "replica_id (Meta n) = int i"
    using assms(1) by (simp_all add: connected_def)
  have i: "i32 (int (length (log n))) = int (length (log n))" using assms(3) by (simp add: i32_id)
  have "nextIndex (snd (ToLeader_begin n)) = map (\<lambda>j. if int j = int i then 0 else int (length (log n))) [0..<N]"
    "matchIndex (snd (ToLeader_begin n)) = map (\<lambda>j. 0) [0..<N]"
    by (simp_all add: ToLeader_begin_def Let_def c i)
  then have "indices_ok N (snd (ToLeader_begin n))" by (auto simp: indices_ok_def)
  moreover have "connected N i (snd (ToLeader_begin n))"
    using connected_Meta [of "snd (ToLeader_begin n)" n] assms(1) by simp
  ultimately show "leading N i (snd (ToLeader_begin n))"
    using assms(3-5) by (simp add: leading_def small_def)
  show "headed (snd (ToLeader_begin n)) (fst (ToLeader_begin n))"
    by (simp add: headed_def ToLeader_begin_def Let_def)
qed

text \<open>The whole of \<open>ToLeader\<close> among followers.\<close>

lemma ToLeader_follow:
  assumes "connected N i n" and "i < N" and "2 \<le> N" and "N < 2147483647"
    and "int (length (log n)) + 1 < 2147483648" and "-1 \<le> commitIndex n" and "commitIndex n < int (length (log n))"
    and "\<forall>c \<in> set rounds. permuting (fst c)"
    and "\<forall>j < N. j \<noteq> i \<longrightarrow> follows n (peers j) \<and> fresh_term n (peers j)"
    and "\<exists>c \<in> set rounds. N < 2 * card (responders N i (snd (ToLeader_begin n)) (snd c))"
  shows "\<exists>n1 peers'. ToLeader rounds (n, peers) = Inr (Synchronised, ToLeader_success n1, peers') \<and>
     leading N i n1 \<and> leader_frame (snd (ToLeader_begin n)) n1 \<and>
     (\<forall>j < N. j \<noteq> i \<longrightarrow> moved (snd (ToLeader_begin n)) (peers j) (peers' j)) \<and>
     N < 2 * card (holders N i (snd (ToLeader_begin n)) peers')"
proof -
  let ?n = "snd (ToLeader_begin n)" and ?m = "fst (ToLeader_begin n)"
  have N: "N < 2147483648" using assms(4) by simp
  note lead = ToLeader_begin_leading [OF assms(1,2,5-7) N]
  have "follows ?n (peers j)" if "j < N" "j \<noteq> i" for j
    using assms(9) that by (intro follows_append [of n _ ?n "noop_entry (currentTerm n)"]) (simp_all add: noop_entry_def)
  then have "peers_follow N i ?n peers" by (simp add: peers_follow_def)
  from ToLeader_loop_follow [OF lead(1) assms(2-4) lead(2) assms(8) this assms(10)]
  show ?thesis by (simp add: ToLeader_def split_beta)
qed

section \<open>Properties\<close>

text \<open>
  C17: a round replicates the leader's log.  The replica leads, no peer is in a newer term and
  every peer's log matches the leader's; the goroutines of the round run one after another, in
  any order, over any network (their turns interleaved are the subject of
  \<open>interleaved_round\<close>, and a race of theirs that breaks the statement is
  \<open>race_replaces_acknowledged_entry\<close>).  Then the round does not panic and sends
  exactly one verdict; every peer whose calls are all answered in time holds the leader's whole log
  and knows what it has committed, whatever the verdict; a verdict of success means that a
  majority of the replicas do, and it is success whenever a majority answer.  The leader loses
  nothing but the indices of its peers, and the peers remain followers.
\<close>

theorem round_replicates:
  assumes "leading N i n" and "i < N" and "2 \<le> N" and "N < 2147483647" and "permuting sched"
    and "peers_follow N i n peers"
  shows "\<exists>r v. LeaderSendAEs sched net (header_msg n) (int (length (log n)) - 1) (n, peers) = Inr r \<and>
     verdicts r = [v] \<and> leader_frame n (rd_leader r) \<and> peers_follow N i n (rd_peers r) \<and>
     (\<forall>j < N. j \<noteq> i \<and> responsive n (net j) \<longrightarrow>
        take (length (log n)) (log (rd_peers r j)) = log n \<and> commitIndex n \<le> commitIndex (rd_peers r j)) \<and>
     (v \<longrightarrow> N < 2 * card {j. j < N \<and> (j = i \<or> take (length (log n)) (log (rd_peers r j)) = log n \<and>
                                              commitIndex n \<le> commitIndex (rd_peers r j))}) \<and>
     (N < 2 * card {j. j < N \<and> (j = i \<or> responsive n (net j))} \<longrightarrow> v)"
proof -
  have pf: "\<forall>j < N. j \<noteq> i \<longrightarrow> follows n (peers j)" using assms(6) by (simp add: peers_follow_def)
  from LeaderSendAEs_follow [OF assms(1-4) headed_header refl assms(5) pf, of net] obtain r v where
    r: "LeaderSendAEs sched net (header_msg n) (int (length (log n)) - 1) (n, peers) = Inr r"
      "leader_frame n (rd_leader r)" "\<forall>j < N. j \<noteq> i \<longrightarrow> moved n (peers j) (rd_peers r j)" "verdicts r = [v]"
      "v \<longrightarrow> N < 2 * card (holders N i n (rd_peers r))" "N < 2 * card (responders N i n net) \<longrightarrow> v"
      "\<forall>j \<in> responders N i n net. j = i \<or> replicated n (rd_peers r j)" by blast
  have "peers_follow N i n (rd_peers r)" using r(3) by (auto simp: peers_follow_def moved_follows)
  with r show ?thesis unfolding holders_def responders_def replicated_def by blast
qed

definition demo_peers :: "nat \<Rightarrow> RaftNode" where
  "demo_peers j = demo_node 3 (int j) 1 Follower [demo_entry 1]"

lemma demo_leading: "leading 3 0 (demo_node 3 0 2 Leader [demo_entry 1, demo_entry 2])"
proof -
  have "connected 3 0 (demo_node 3 0 2 Leader [demo_entry 1, demo_entry 2])"
    by (simp add: connected_def demo_node_def initial_node_def i32_id Let_def)
  then show ?thesis by (simp add: leading_def indices_ok_def small_def)
qed

lemma demo_peers_follow: "peers_follow 3 0 (demo_node 3 0 2 Leader [demo_entry 1, demo_entry 2]) demo_peers"
  by (simp add: peers_follow_def follows_def demo_peers_def small_def log_match_def)

lemma permuting_id [simp]: "permuting (\<lambda>gs. gs)" "permuting rev"
  by (simp_all add: permuting_def)

text \<open>A network in which the peer 1 answers and the peer 2 does not.\<close>

definition demo_net :: "nat \<Rightarrow> fate list" where
  "demo_net j = (if j = 1 then replicate 5 Delivered else [])"

lemma demo_responders:
  assumes "length (log n) = 2"
  shows "{j. j < 3 \<and> (j = 0 \<or> responsive n (demo_net j))} = {0, 1}"
proof -
  have "demo_net 1 = replicate (length (log n) + 1) Delivered @ replicate 2 Delivered"
    using assms by (simp add: demo_net_def eval_nat_numeral)
  then have "responsive n (demo_net 1)" unfolding responsive_def by blast
  moreover have "\<not> responsive n (demo_net 2)" by (simp add: responsive_def demo_net_def)
  moreover have "j < 3 \<longleftrightarrow> j = 0 \<or> j = 1 \<or> j = 2" for j :: nat by linarith
  ultimately show ?thesis by auto
qed

theorem round_replicates_witness:
  "\<exists>r. LeaderSendAEs rev demo_net (header_msg (demo_node 3 0 2 Leader [demo_entry 1, demo_entry 2])) 1
         (demo_node 3 0 2 Leader [demo_entry 1, demo_entry 2], demo_peers) = Inr r \<and> verdicts r = [True] \<and>
       take 2 (log (rd_peers r 1)) = [demo_entry 1, demo_entry 2]"
proof -
  let ?n = "demo_node 3 0 2 Leader [demo_entry 1, demo_entry 2]"
  from round_replicates [OF demo_leading _ _ _ permuting_id(2) demo_peers_follow, of demo_net] obtain r v where
    r: "LeaderSendAEs rev demo_net (header_msg ?n) (int (length (log ?n)) - 1) (?n, demo_peers) = Inr r"
    "verdicts r = [v]" "3 < 2 * card {j. j < 3 \<and> (j = 0 \<or> responsive ?n (demo_net j))} \<longrightarrow> v"
    "\<forall>j < 3. j \<noteq> 0 \<and> responsive ?n (demo_net j) \<longrightarrow> take (length (log ?n)) (log (rd_peers r j)) = log ?n"
    by auto
  have "1 \<in> {j. j < 3 \<and> (j = 0 \<or> responsive ?n (demo_net j))}" using demo_responders [of ?n] by simp
  with r(4) [rule_format, of 1] have "take 2 (log (rd_peers r 1)) = [demo_entry 1, demo_entry 2]"
    by (simp add: numeral_2_eq_2)
  with r(1-3) show ?thesis by (simp add: demo_responders)
qed

text \<open>
  C19: a new leader gets its NO-OP entry onto a majority.  No peer is in a newer term, every peer's
  log matches the leader's and has no entry of the new term beyond it, and the goroutines of each
  round run one after another, in any order.  Then, however many rounds fail before, once a
  majority of the replicas answer all calls of a round, the loop ends with the replica as leader, its
  NO-OP entry on a majority, its commit index one higher, the apply loop told and the heartbeats
  started.
\<close>

theorem new_leader_synchronises:
  assumes "connected N i n" and "i < N" and "2 \<le> N" and "N < 2147483647"
    and "int (length (log n)) + 1 < 2147483648" and "-1 \<le> commitIndex n" and "commitIndex n < int (length (log n))"
    and "\<forall>c \<in> set rounds. permuting (fst c)"
    and "\<forall>j < N. j \<noteq> i \<longrightarrow> follows n (peers j) \<and> fresh_term n (peers j)"
    and "\<exists>c \<in> set rounds. N < 2 * card (responders N i (snd (ToLeader_begin n)) (snd c))"
  shows "\<exists>n' peers'. ToLeader rounds (n, peers) = Inr (Synchronised, n', peers') \<and> state n' = Leader \<and>
     currentTerm n' = currentTerm n \<and> log n' = log n @ [noop_entry (currentTerm n)] \<and>
     commitIndex n' = commitIndex n + 1 \<and>
     effects n' = effects n @ [Send_stopElectiontimer, Send_commits_ready 1, Go_HeartBeats] \<and>
     N < 2 * card {j. j < N \<and> (j = i \<or> take (length (log n')) (log (peers' j)) = log n')}"
proof -
  let ?n = "snd (ToLeader_begin n)"
  from ToLeader_follow [OF assms] obtain n1 peers' where
    l: "ToLeader rounds (n, peers) = Inr (Synchronised, ToLeader_success n1, peers')" "leading N i n1"
      "leader_frame ?n n1" "N < 2 * card (holders N i ?n peers')" by blast
  note fr = leader_frame_fields [OF l(3)]
  have c: "i32 (commitIndex n + 1) = commitIndex n + 1" using assms(5-7) by (intro i32_id) auto
  have e: "effects (ToLeader_success n1) = effects n1 @ [Send_commits_ready 1, Go_HeartBeats]"
    by (simp add: ToLeader_success_def Let_def)
  have b: "effects ?n = effects n @ [Send_stopElectiontimer]" by (simp add: ToLeader_begin_def Let_def)
  have "holders N i ?n peers' \<subseteq> {j. j < N \<and> (j = i \<or> take (length (log ?n)) (log (peers' j)) = log ?n)}"
    by (auto simp: holders_def replicated_def)
  then have "card (holders N i ?n peers') \<le> card {j. j < N \<and> (j = i \<or> take (length (log ?n)) (log (peers' j)) = log ?n)}"
    by (intro card_mono) auto
  with l(4) have "N < 2 * card {j. j < N \<and> (j = i \<or> take (length (log ?n)) (log (peers' j)) = log ?n)}"
    by (meson less_le_trans mult_le_mono2)
  with l(1,2) show ?thesis by (simp add: fr c e b leading_def)
qed

lemma demo_candidate_connected: "connected 3 0 (demo_node 3 0 2 Candidate [demo_entry 1])"
  by (simp add: connected_def demo_node_def initial_node_def i32_id Let_def)

theorem new_leader_synchronises_witness:
  "\<exists>n' peers'. ToLeader [(\<lambda>gs. gs, \<lambda>_. []), (rev, demo_net)] (demo_node 3 0 2 Candidate [demo_entry 1], demo_peers)
       = Inr (Synchronised, n', peers') \<and> log n' = [demo_entry 1, noop_entry 2] \<and> commitIndex n' = 0"
proof -
  let ?n = "demo_node 3 0 2 Candidate [demo_entry 1]"
  let ?rounds = "[(\<lambda>gs. gs, \<lambda>_. []), (rev, demo_net)]"
  have f: "\<forall>j < 3. j \<noteq> 0 \<longrightarrow> follows ?n (demo_peers j) \<and> fresh_term ?n (demo_peers j)"
    by (simp add: follows_def fresh_term_def demo_peers_def small_def log_match_def)
  have "responders 3 0 (snd (ToLeader_begin ?n)) demo_net = {0, 1}"
    unfolding responders_def by (rule demo_responders) simp
  then have "\<exists>c \<in> set ?rounds. 3 < 2 * card (responders 3 0 (snd (ToLeader_begin ?n)) (snd c))" by simp
  from new_leader_synchronises [OF demo_candidate_connected _ _ _ _ _ _ _ f this] show ?thesis by auto
qed

text \<open>
  C20: the heartbeats keep the followers at the leader's log for as long as the replica leads,
  and stop when it does not.  No peer is in a newer term, every peer's log matches the leader's,
  and the goroutines of each round run one after another, in any order.  Then any number of ticks
  neither panics nor blocks and changes nothing of the leader but the indices of its peers; every
  peer that answers all calls of one of them holds the leader's log and knows its commit index
  at the end; and at the first tick after the replica has stepped down the loop returns without
  sending anything.
\<close>

theorem heartbeats_until_step_down:
  assumes "leading N i n" and "i < N" and "2 \<le> N" and "N < 2147483647"
    and "\<forall>c \<in> set cs. permuting (fst c)" and "peers_follow N i n peers"
  shows "\<exists>n1 peers'. HeartBeats (map Tick cs @ Meanwhile (ToFollower t) # Tick c # beats) (n, peers)
       = Inr (Returned, ToFollower t n1, peers') \<and>
     leader_frame n n1 \<and> peers_follow N i n peers' \<and>
     (\<forall>c \<in> set cs. \<forall>j < N. j \<noteq> i \<and> responsive n (snd c j) \<longrightarrow>
        take (length (log n)) (log (peers' j)) = log n \<and> commitIndex n \<le> commitIndex (peers' j))"
proof -
  from HeartBeats_follow [OF assms, of "Meanwhile (ToFollower t) # Tick c # beats"] obtain n1 peers' where
    h: "HeartBeats (map Tick cs @ Meanwhile (ToFollower t) # Tick c # beats) (n, peers)
        = HeartBeats (Meanwhile (ToFollower t) # Tick c # beats) (n1, peers')" "leader_frame n n1" "peers_follow N i n peers'"
      "\<forall>c \<in> set cs. \<forall>j \<in> responders N i n (snd c). j = i \<or> replicated n (peers' j)" by blast
  have "HeartBeats (Meanwhile (ToFollower t) # Tick c # beats) (n1, peers') = Inr (Returned, ToFollower t n1, peers')"
    by (simp add: HeartBeats_check_def)
  with h show ?thesis by (auto simp: responders_def replicated_def)
qed

theorem heartbeats_until_step_down_witness:
  "\<exists>n1 peers'. HeartBeats [Tick (rev, demo_net), Meanwhile (ToFollower 3), Tick (rev, demo_net)]
       (demo_node 3 0 2 Leader [demo_entry 1, demo_entry 2], demo_peers) = Inr (Returned, ToFollower 3 n1, peers') \<and>
     take 2 (log (peers' 1)) = [demo_entry 1, demo_entry 2]"
proof -
  let ?n = "demo_node 3 0 2 Leader [demo_entry 1, demo_entry 2]"
  from heartbeats_until_step_down [OF demo_leading _ _ _ _ demo_peers_follow,
      of "[(rev, demo_net)]" 3 "(rev, demo_net)" "[]"] obtain n1 peers' where
    h: "HeartBeats [Tick (rev, demo_net), Meanwhile (ToFollower 3), Tick (rev, demo_net)] (?n, demo_peers)
        = Inr (Returned, ToFollower 3 n1, peers')"
      "\<forall>j < 3. j \<noteq> 0 \<and> responsive ?n (demo_net j) \<longrightarrow>
         take (length (log ?n)) (log (peers' j)) = log ?n \<and> commitIndex ?n \<le> commitIndex (peers' j)" by auto
  have "1 \<in> {j. j < 3 \<and> (j = 0 \<or> responsive ?n (demo_net j))}" using demo_responders [of ?n] by simp
  with h(2) [rule_format, of 1] h(1) show ?thesis by (auto simp: numeral_2_eq_2)
qed



end
