(* ===== verification/Raft_Interleaved.thy ===== *)
theory Raft_Interleaved
  imports Raft_Round
begin

text \<open>
  A round of \<open>LeaderSendAEs\<close> (\<^verbatim>\<open>src/raft/send_AEs.go\<close>) with its goroutines interleaved.  A
  goroutine is a sequence of turns: the section under the read lock with its stores into the
  shared message, the store of the entries, the call, which sends what the message holds at that
  moment, the handling by the peer, the handling of the response, which reads the shared message
  again, and the counting of the result.  \<open>Raft_Round\<close> runs the goroutines one after the other.
  The properties: when all peers have the same \<open>nextIndex\<close>, as at the start of a term and whenever
  all are up to date, every interleaving keeps the promises of a round, since the goroutines store
  the same; when they differ, a follower can get a log in which an acknowledged entry is replaced
  by a copy of an older one.
\<close>

section \<open>Goroutines as sequences of turns\<close>

text \<open>
  Where a goroutine is.  Its own message, if it has retried, otherwise the message of its calls is
  the shared one.
\<close>

datatype stage =
    Ready
  | Stored "int \<times> int \<times> LogEntry list"
  | Calling "AppendEntriesMessage option"
  | OnWire "AppendEntriesMessage option" AppendEntriesMessage
  | Answer "AppendEntriesMessage option" AppendEntriesResponse
  | Back bool
  | Counted

type_synonym gid = "int \<times> nat"

record crowd =
  cr_msg :: AppendEntriesMessage
  cr_leader :: RaftNode
  cr_peers :: "nat \<Rightarrow> RaftNode"
  cr_count :: "int \<times> int"
  cr_verdicts :: "bool list"
  cr_stage :: "gid \<Rightarrow> stage"

text \<open>\<open>Drop\<close> is the deadline of a call, before or after its handling, or an error of the stub.\<close>

datatype turn =
    ReadLog gid
  | StoreEntries gid
  | Call gid
  | Serve gid
  | Drop gid
  | Resume gid
  | Count gid

definition the_message :: "AppendEntriesMessage option \<Rightarrow> AppendEntriesMessage \<Rightarrow> AppendEntriesMessage" where
  "the_message own shared = (case own of None \<Rightarrow> shared | Some m \<Rightarrow> m)"

definition set_stage :: "gid \<Rightarrow> stage \<Rightarrow> crowd \<Rightarrow> crowd" where
  "set_stage g st c = c\<lparr>cr_stage := (cr_stage c)(g := st)\<rparr>"

text \<open>A turn; \<open>None\<close> when it is not the goroutine's next one.\<close>

fun cr_step :: "int \<Rightarrow> turn \<Rightarrow> crowd \<Rightarrow> crowd go option" where
  "cr_step upper_index (ReadLog g) c =
     (case cr_stage c g of
        Ready \<Rightarrow> Some (go_bind (LeaderSendAEs_read (fst g) upper_index (cr_leader c)) (\<lambda>s.
                   Inr (set_stage g (Stored s) (c\<lparr>cr_msg := set_prev s (cr_msg c)\<rparr>))))
      | _ \<Rightarrow> None)"
| "cr_step upper_index (StoreEntries g) c =
     (case cr_stage c g of
        Stored s \<Rightarrow> Some (Inr (set_stage g (Calling None) (c\<lparr>cr_msg := set_entries s (cr_msg c)\<rparr>)))
      | _ \<Rightarrow> None)"
| "cr_step upper_index (Call g) c =
     (case cr_stage c g of
        Calling own \<Rightarrow> Some (Inr (set_stage g (OnWire own (the_message own (cr_msg c))) c))
      | _ \<Rightarrow> None)"
| "cr_step upper_index (Serve g) c =
     (case cr_stage c g of
        OnWire own m \<Rightarrow>
          Some (go_bind (AppendEntries m (cr_peers c (snd g))) (\<lambda>(response, peer).
            Inr (set_stage g (Answer own response) (c\<lparr>cr_peers := (cr_peers c)(snd g := peer)\<rparr>))))
      | _ \<Rightarrow> None)"
| "cr_step upper_index (Drop g) c =
     (case cr_stage c g of
        Calling own \<Rightarrow> Some (Inr (set_stage g (Back False) c))
      | OnWire own m \<Rightarrow> Some (Inr (set_stage g (Back False) c))
      | Answer own response \<Rightarrow> Some (Inr (set_stage g (Back False) c))
      | _ \<Rightarrow> None)"
| "cr_step upper_index (Resume g) c =
     (case cr_stage c g of
        Answer own response \<Rightarrow>
          Some (go_bind (LeaderSendAE_resp (fst g) upper_index (the_message own (cr_msg c)) (Some response) (cr_leader c))
            (\<lambda>(what, node).
               Inr (set_stage g (case what of Return b \<Rightarrow> Back b | Retry m \<Rightarrow> Calling (Some m)) (c\<lparr>cr_leader := node\<rparr>))))
      | _ \<Rightarrow> None)"
| "cr_step upper_index (Count g) c =
     (case cr_stage c g of
        Back ok \<Rightarrow>
          (let (count, out) = tally_step (n_replicas (Meta (cr_leader c))) ok (cr_count c)
           in Some (Inr (set_stage g Counted (c\<lparr>cr_count := count, cr_verdicts := cr_verdicts c @ out\<rparr>))))
      | _ \<Rightarrow> None)"

fun cr_run :: "int \<Rightarrow> turn list \<Rightarrow> crowd \<Rightarrow> crowd go option" where
  "cr_run upper_index [] c = Some (Inr c)"
| "cr_run upper_index (t # ts) c =
     (case cr_step upper_index t c of
        None \<Rightarrow> None
      | Some (Inl e) \<Rightarrow> Some (Inl e)
      | Some (Inr c1) \<Rightarrow> cr_run upper_index ts c1)"

text \<open>The start of the round: the loop over the stubs has started its goroutines.\<close>

definition cr_start :: "AppendEntriesMessage \<Rightarrow> RaftNode \<times> (nat \<Rightarrow> RaftNode) \<Rightarrow> crowd" where
  "cr_start msg s =
     \<lparr>cr_msg = msg, cr_leader = fst s, cr_peers = snd s, cr_count = (1, 0), cr_verdicts = [],
      cr_stage = (\<lambda>g. if g \<in> set (spawned (peer_replica_clients (Meta (fst s))) 0 (replica_id (Meta (fst s)))) then Ready
                      else Counted)\<rparr>"

definition over :: "crowd \<Rightarrow> bool" where
  "over c \<longleftrightarrow>
     list_all (\<lambda>g. cr_stage c g = Counted)
       (spawned (peer_replica_clients (Meta (cr_leader c))) 0 (replica_id (Meta (cr_leader c))))"

lemma set_stage_eq:
  "set_stage g st c = \<lparr>cr_msg = cr_msg c, cr_leader = cr_leader c, cr_peers = cr_peers c, cr_count = cr_count c,
     cr_verdicts = cr_verdicts c, cr_stage = (cr_stage c)(g := st)\<rparr>"
  by (cases c) (simp add: set_stage_def)

section \<open>Invariant of a round with equal indices\<close>

text \<open>What a goroutine reads for a peer with next index \<open>k\<close>, and the shared message with it.\<close>

definition read_at :: "RaftNode \<Rightarrow> int \<Rightarrow> int \<times> int \<times> LogEntry list" where
  "read_at n k = (k - 1, if 0 < k then Term (log n ! nat (k - 1)) else -1, drop (nat k) (log n))"

definition full_msg :: "RaftNode \<Rightarrow> int \<Rightarrow> AppendEntriesMessage \<Rightarrow> AppendEntriesMessage" where
  "full_msg n k m = set_entries (read_at n k) (set_prev (read_at n k) m)"

definition half_msg :: "RaftNode \<Rightarrow> int \<Rightarrow> AppendEntriesMessage \<Rightarrow> AppendEntriesMessage" where
  "half_msg n k m = set_prev (read_at n k) m"

lemma half_full_simps [simp]:
  "set_prev (read_at n k) m = half_msg n k m"
  "half_msg n k (half_msg n k m) = half_msg n k m" "half_msg n k (full_msg n k m) = full_msg n k m"
  "set_entries (read_at n k) (half_msg n k m) = full_msg n k m"
  "set_entries (read_at n k) (full_msg n k m) = full_msg n k m"
  "PrevLogIndex (full_msg n k m) = k - 1" "LeaderCommit (full_msg n k m) = LeaderCommit m"
  by (simp_all add: half_msg_def full_msg_def set_prev_def set_entries_def read_at_def)

lemma full_carries:
  assumes "headed n m" and "0 \<le> k" and "k \<le> int (length (log n))"
  shows "carries n (full_msg n k m)"
  using assms by (auto simp: carries_def full_msg_def set_prev_def set_entries_def read_at_def headed_def start_of_def)

text \<open>The contents that the shared message goes through, in this order.\<close>

definition shared_ok :: "RaftNode \<Rightarrow> int \<Rightarrow> AppendEntriesMessage \<Rightarrow> AppendEntriesMessage \<Rightarrow> bool" where
  "shared_ok n k m shared \<longleftrightarrow> shared = m \<or> shared = half_msg n k m \<or> shared = full_msg n k m"

definition grows :: "RaftNode \<Rightarrow> int \<Rightarrow> AppendEntriesMessage \<Rightarrow> AppendEntriesMessage \<Rightarrow> AppendEntriesMessage \<Rightarrow> bool" where
  "grows n k m shared shared' \<longleftrightarrow> shared_ok n k m shared' \<and>
     (shared = half_msg n k m \<longrightarrow> shared' = half_msg n k m \<or> shared' = full_msg n k m) \<and>
     (shared = full_msg n k m \<longrightarrow> shared' = full_msg n k m)"

lemma grows_refl: "shared_ok n k m shared \<Longrightarrow> grows n k m shared shared"
  by (simp add: grows_def)

lemma grows_half:
  assumes "shared_ok n k m shared"
  shows "grows n k m shared (half_msg n k shared)"
    "half_msg n k shared = half_msg n k m \<or> half_msg n k shared = full_msg n k m"
proof -
  from assms consider "shared = m" | "shared = half_msg n k m" | "shared = full_msg n k m" by (auto simp: shared_ok_def)
  then show h: "half_msg n k shared = half_msg n k m \<or> half_msg n k shared = full_msg n k m"
    by cases simp_all
  have "half_msg n k shared = half_msg n k m" if "shared = half_msg n k m" using that by simp
  moreover have "half_msg n k shared = full_msg n k m" if "shared = full_msg n k m" using that by simp
  ultimately show "grows n k m shared (half_msg n k shared)" unfolding grows_def shared_ok_def using h by blast
qed

lemma grows_full:
  assumes "shared = half_msg n k m \<or> shared = full_msg n k m"
  shows "set_entries (read_at n k) shared = full_msg n k m" "grows n k m shared (full_msg n k m)"
proof -
  show "set_entries (read_at n k) shared = full_msg n k m" using assms by (elim disjE) simp_all
  show "grows n k m shared (full_msg n k m)" unfolding grows_def shared_ok_def by blast
qed

text \<open>
  The message of a goroutine in its calls, with the index that the leader keeps for its peer: the
  shared message is complete, its own carries the log.
\<close>

definition own_ok :: "RaftNode \<Rightarrow> int \<Rightarrow> AppendEntriesMessage \<Rightarrow> AppendEntriesMessage \<Rightarrow> int \<Rightarrow> AppendEntriesMessage option \<Rightarrow> bool" where
  "own_ok n k m shared next own \<longleftrightarrow>
     (case own of
        None \<Rightarrow> shared = full_msg n k m \<and> next = k
      | Some m' \<Rightarrow> carries n m' \<and> LeaderCommit m' = commitIndex n \<and> next = PrevLogIndex m' + 1 \<and> PrevLogIndex m' < k)"

text \<open>A stage of the goroutine of a peer; \<open>D\<close> are the goroutines that have dropped a call.\<close>

definition stage_ok ::
    "RaftNode \<Rightarrow> int \<Rightarrow> AppendEntriesMessage \<Rightarrow> AppendEntriesMessage \<Rightarrow> int \<Rightarrow> RaftNode \<Rightarrow> bool \<Rightarrow> stage \<Rightarrow> bool" where
  "stage_ok n k m shared next peer dropped st \<longleftrightarrow>
     (case st of
        Ready \<Rightarrow> next = k
      | Stored s \<Rightarrow> s = read_at n k \<and> next = k \<and> (shared = half_msg n k m \<or> shared = full_msg n k m)
      | Calling own \<Rightarrow> own_ok n k m shared next own
      | OnWire own m' \<Rightarrow> own_ok n k m shared next own \<and> m' = the_message own shared
      | Answer own r \<Rightarrow> own_ok n k m shared next own \<and> aer_Term r = currentTerm n \<and>
          (Success r \<longrightarrow> replicated n peer) \<and> (\<not> Success r \<longrightarrow> 0 \<le> PrevLogIndex (the_message own shared))
      | Back ok \<Rightarrow> (if ok then replicated n peer else dropped)
      | Counted \<Rightarrow> True)"

definition peers_of :: "nat \<Rightarrow> nat \<Rightarrow> nat set" where
  "peers_of N i = {j. j < N \<and> j \<noteq> i}"

definition crowd_ok ::
    "nat \<Rightarrow> nat \<Rightarrow> RaftNode \<Rightarrow> (nat \<Rightarrow> RaftNode) \<Rightarrow> int \<Rightarrow> AppendEntriesMessage \<Rightarrow> gid set \<Rightarrow> crowd \<Rightarrow> (nat \<times> bool) list \<Rightarrow> bool" where
  "crowd_ok N i n peers k m D c ds \<longleftrightarrow>
     leading N i (cr_leader c) \<and> leader_frame n (cr_leader c) \<and>
     shared_ok n k m (cr_msg c) \<and>
     (\<forall>g. (\<nexists>j. j \<in> peers_of N i \<and> g = (int j, j)) \<longrightarrow> cr_stage c g = Counted) \<and>
     (\<forall>j \<in> peers_of N i. moved n (peers j) (cr_peers c j) \<and>
        stage_ok n k m (cr_msg c) (nextIndex (cr_leader c) ! j) (cr_peers c j) ((int j, j) \<in> D) (cr_stage c (int j, j))) \<and>
     distinct (map fst ds) \<and> set (map fst ds) = {j \<in> peers_of N i. cr_stage c (int j, j) = Counted} \<and>
     (\<forall>j ok. (j, ok) \<in> set ds \<longrightarrow> (if ok then replicated n (cr_peers c j) else (int j, j) \<in> D)) \<and>
     cr_count c = foldl (\<lambda>cnt ok. fst (tally_step (int N) ok cnt)) (1, 0) (map snd ds) \<and>
     cr_verdicts c = tally (int N) (map snd ds) (1, 0)"

lemma tally_snoc:
  "tally n (oks @ [ok]) c = tally n oks c @ snd (tally_step n ok (foldl (\<lambda>cnt ok. fst (tally_step n ok cnt)) c oks))"
  by (induction oks arbitrary: c) (auto simp: Let_def split: prod.splits)

lemma stage_ok_mono:
  assumes "stage_ok n k m shared next peer dropped st"
    and "grows n k m shared shared'" and "dropped \<longrightarrow> dropped'"
  shows "stage_ok n k m shared' next peer dropped' st"
proof -
  have own: "own_ok n k m shared' next own \<and> the_message own shared' = the_message own shared"
    if "own_ok n k m shared next own" for own
    using that assms(2) by (cases own) (simp_all add: own_ok_def the_message_def grows_def)
  show ?thesis
  proof (cases st)
    case (Stored s)
    have "s = read_at n k \<and> next = k \<and> (shared = half_msg n k m \<or> shared = full_msg n k m)"
      using assms(1) unfolding Stored stage_ok_def stage.case .
    with assms(2) show ?thesis unfolding Stored stage_ok_def stage.case grows_def by blast
  next
    case (Back ok)
    with assms(1,3) show ?thesis by (simp add: stage_ok_def split: if_splits)
  qed (use assms(1) own in \<open>auto simp: stage_ok_def\<close>)
qed

text \<open>A turn of one goroutine before its count.\<close>

lemma crowd_turn:
  assumes "crowd_ok N i n peers k m D c ds" and "j \<in> peers_of N i" and "cr_stage c (int j, j) \<noteq> Counted"
    and "leading N i L" and "leader_frame n L" and "\<forall>j'. j' \<noteq> j \<longrightarrow> nextIndex L ! j' = nextIndex (cr_leader c) ! j'"
    and "grows n k m (cr_msg c) shared" and "D \<subseteq> D'"
    and "moved n (cr_peers c j) p" and "st \<noteq> Counted"
    and "stage_ok n k m shared (nextIndex L ! j) p ((int j, j) \<in> D') st"
  shows "crowd_ok N i n peers k m D'
    \<lparr>cr_msg = shared, cr_leader = L, cr_peers = (cr_peers c)(j := p), cr_count = cr_count c,
     cr_verdicts = cr_verdicts c, cr_stage = (cr_stage c)((int j, j) := st)\<rparr> ds"
proof -
  let ?c = "\<lparr>cr_msg = shared, cr_leader = L, cr_peers = (cr_peers c)(j := p), cr_count = cr_count c,
     cr_verdicts = cr_verdicts c, cr_stage = (cr_stage c)((int j, j) := st)\<rparr>"
  have old: "moved n (peers j') (cr_peers c j')"
    "stage_ok n k m (cr_msg c) (nextIndex (cr_leader c) ! j') (cr_peers c j') ((int j', j') \<in> D) (cr_stage c (int j', j'))"
    if "j' \<in> peers_of N i" for j'
    using assms(1) that by (auto simp: crowd_ok_def)
  have new: "moved n (peers j') (cr_peers ?c j') \<and>
      stage_ok n k m shared (nextIndex L ! j') (cr_peers ?c j') ((int j', j') \<in> D') (cr_stage ?c (int j', j'))"
    if j': "j' \<in> peers_of N i" for j'
  proof (cases "j' = j")
    case True
    with moved_trans [OF old(1) [OF assms(2)] assms(9)] assms(11) show ?thesis by simp
  next
    case False
    then have "nextIndex L ! j' = nextIndex (cr_leader c) ! j'" using assms(6) by simp
    with stage_ok_mono [OF old(2) [OF j'], of shared "(int j', j') \<in> D'"] old(1) [OF j'] assms(7,8) False
    show ?thesis by auto
  qed
  have "\<forall>g. (\<nexists>j'. j' \<in> peers_of N i \<and> g = (int j', j')) \<longrightarrow> cr_stage ?c g = Counted"
    using assms(1,2) by (auto simp: crowd_ok_def)
  moreover have "{j' \<in> peers_of N i. cr_stage ?c (int j', j') = Counted} = {j' \<in> peers_of N i. cr_stage c (int j', j') = Counted}"
    using assms(3,10) by auto
  moreover have "\<forall>j' ok. (j', ok) \<in> set ds \<longrightarrow> (if ok then replicated n (cr_peers ?c j') else (int j', j') \<in> D')"
  proof -
    have "j' \<noteq> j" if "(j', ok) \<in> set ds" for j' ok
    proof
      assume "j' = j"
      with that have "j \<in> set (map fst ds)" by force
      with assms(1,3) show False by (auto simp: crowd_ok_def)
    qed
    with assms(1,8) show ?thesis by (simp add: crowd_ok_def subset_eq)
  qed
  ultimately show ?thesis using assms(1,4,5,7) new unfolding crowd_ok_def grows_def by (simp split del: if_split)
qed

lemma crowd_count:
  assumes "crowd_ok N i n peers k m D c ds" and "j \<in> peers_of N i" and "cr_stage c (int j, j) = Back ok"
    and "tally_step (int N) ok (cr_count c) = (count, out)"
  shows "crowd_ok N i n peers k m D
    (set_stage (int j, j) Counted (c\<lparr>cr_count := count, cr_verdicts := cr_verdicts c @ out\<rparr>)) (ds @ [(j, ok)])"
proof -
  let ?c = "set_stage (int j, j) Counted (c\<lparr>cr_count := count, cr_verdicts := cr_verdicts c @ out\<rparr>)"
  have old: "set (map fst ds) = {j \<in> peers_of N i. cr_stage c (int j, j) = Counted}" "distinct (map fst ds)"
    using assms(1) by (simp_all add: crowd_ok_def)
  have nj: "j \<notin> set (map fst ds)" unfolding old(1) using assms(3) by simp
  have "stage_ok n k m (cr_msg c) (nextIndex (cr_leader c) ! j) (cr_peers c j) ((int j, j) \<in> D) (Back ok)"
    using assms(1-3) by (fastforce simp: crowd_ok_def)
  then have ok: "if ok then replicated n (cr_peers c j) else (int j, j) \<in> D" by (simp add: stage_ok_def split: if_splits)
  have "\<forall>j' \<in> peers_of N i. moved n (peers j') (cr_peers ?c j') \<and>
      stage_ok n k m (cr_msg ?c) (nextIndex (cr_leader ?c) ! j') (cr_peers ?c j') ((int j', j') \<in> D) (cr_stage ?c (int j', j'))"
    using assms(1) by (auto simp: crowd_ok_def set_stage_def stage_ok_def [of _ _ _ _ _ _ _ Counted])
  moreover have "set (map fst (ds @ [(j, ok)])) = {j' \<in> peers_of N i. cr_stage ?c (int j', j') = Counted}"
    using old(1) assms(2) by (auto simp: set_stage_def)
  moreover have "distinct (map fst (ds @ [(j, ok)]))" using nj old(2) by simp
  moreover have "\<forall>j' ok'. (j', ok') \<in> set (ds @ [(j, ok)]) \<longrightarrow>
      (if ok' then replicated n (cr_peers ?c j') else (int j', j') \<in> D)"
    using assms(1) ok by (auto simp: crowd_ok_def set_stage_def)
  ultimately show ?thesis
    using assms(1,2,4) unfolding crowd_ok_def by (simp add: set_stage_def tally_snoc split del: if_split)
qed

section \<open>Every turn keeps the invariant\<close>

text \<open>The circumstances: a leader whose peers follow it and have the same next index.\<close>

definition level ::
    "nat \<Rightarrow> nat \<Rightarrow> RaftNode \<Rightarrow> (nat \<Rightarrow> RaftNode) \<Rightarrow> int \<Rightarrow> AppendEntriesMessage \<Rightarrow> int \<Rightarrow> bool" where
  "level N i n peers k m u \<longleftrightarrow> leading N i n \<and> headed n m \<and> 0 \<le> k \<and> k \<le> int (length (log n)) \<and>
     u = int (length (log n)) - 1 \<and> (\<forall>j \<in> peers_of N i. follows n (peers j) \<and> nextIndex n ! j = k)"

fun dropped :: "turn \<Rightarrow> gid set" where
  "dropped (Drop g) = {g}"
| "dropped t = {}"

fun turn_of :: "turn \<Rightarrow> gid" where
  "turn_of (ReadLog g) = g"
| "turn_of (StoreEntries g) = g"
| "turn_of (Call g) = g"
| "turn_of (Serve g) = g"
| "turn_of (Drop g) = g"
| "turn_of (Resume g) = g"
| "turn_of (Count g) = g"

text \<open>How many turns a goroutine has left at most, with the refusals that its message can meet.\<close>

definition own_prev :: "int \<Rightarrow> AppendEntriesMessage option \<Rightarrow> int" where
  "own_prev k own = (case own of None \<Rightarrow> k - 1 | Some m \<Rightarrow> PrevLogIndex m)"

definition turns_left :: "int \<Rightarrow> stage \<Rightarrow> nat" where
  "turns_left k st =
     (case st of
        Ready \<Rightarrow> 4 * nat k + 7
      | Stored s \<Rightarrow> 4 * nat k + 6
      | Calling own \<Rightarrow> 4 * nat (own_prev k own + 1) + 5
      | OnWire own m \<Rightarrow> 4 * nat (own_prev k own + 1) + 4
      | Answer own r \<Rightarrow> 4 * nat (own_prev k own + 1) + 3
      | Back ok \<Rightarrow> 1
      | Counted \<Rightarrow> 0)"

definition all_turns_left :: "nat \<Rightarrow> nat \<Rightarrow> int \<Rightarrow> crowd \<Rightarrow> nat" where
  "all_turns_left N i k c = (\<Sum>j \<in> peers_of N i. turns_left k (cr_stage c (int j, j)))"

lemma finite_peers_of [simp]: "finite (peers_of N i)"
  by (simp add: peers_of_def)

lemma all_turns_left_less:
  assumes "j \<in> peers_of N i" and "cr_stage c' = (cr_stage c)((int j, j) := st)"
    and "turns_left k st < turns_left k (cr_stage c (int j, j))"
  shows "all_turns_left N i k c' < all_turns_left N i k c"
  unfolding all_turns_left_def
  by (rule sum_strict_mono_ex1) (use assms in auto)

text \<open>What the invariant says of a goroutine that is under way.\<close>

lemma crowd_okE:
  assumes "crowd_ok N i n peers k m D c ds" and "cr_stage c g \<noteq> Counted"
  obtains j where "g = (int j, j)" "j \<in> peers_of N i" "j < N" "moved n (peers j) (cr_peers c j)"
    "follows n (cr_peers c j)"
    "stage_ok n k m (cr_msg c) (nextIndex (cr_leader c) ! j) (cr_peers c j) (g \<in> D) (cr_stage c g)"
    "leading N i (cr_leader c)" "leader_frame n (cr_leader c)" "shared_ok n k m (cr_msg c)"
proof -
  from assms obtain j where "j \<in> peers_of N i" "g = (int j, j)" unfolding crowd_ok_def by blast
  with assms(1) that [of j] show thesis by (auto simp: crowd_ok_def peers_of_def moved_def)
qed

lemma own_ok_carries:
  assumes "level N i n peers k m u" and "own_ok n k m shared next own"
  shows "carries n (the_message own shared)" "LeaderCommit (the_message own shared) = commitIndex n"
    "next = PrevLogIndex (the_message own shared) + 1" "own_prev k own = PrevLogIndex (the_message own shared)"
proof -
  have "headed n m" "carries n (full_msg n k m)" using assms(1) full_carries by (auto simp: level_def)
  with assms(2) show "carries n (the_message own shared)" "LeaderCommit (the_message own shared) = commitIndex n"
    "next = PrevLogIndex (the_message own shared) + 1" "own_prev k own = PrevLogIndex (the_message own shared)"
    by (auto simp: own_ok_def the_message_def own_prev_def headed_def split: option.splits)
qed

text \<open>A turn before the count, with all that it may change; the number of turns left goes down.\<close>

definition moving :: "gid \<Rightarrow> stage \<Rightarrow> AppendEntriesMessage \<Rightarrow> RaftNode \<Rightarrow> RaftNode \<Rightarrow> crowd \<Rightarrow> crowd" where
  "moving g st shared L p c =
     set_stage g st (c\<lparr>cr_msg := shared, cr_leader := L, cr_peers := (cr_peers c)(snd g := p)\<rparr>)"

lemma crowd_moving:
  assumes "crowd_ok N i n peers k m D c ds" and "(int j, j) = g" and "j \<in> peers_of N i" and "cr_stage c g \<noteq> Counted"
    and "leading N i L" and "leader_frame n L" and "\<forall>j'. j' \<noteq> j \<longrightarrow> nextIndex L ! j' = nextIndex (cr_leader c) ! j'"
    and "grows n k m (cr_msg c) shared" and "D \<subseteq> D'" and "moved n (cr_peers c j) p" and "st \<noteq> Counted"
    and "stage_ok n k m shared (nextIndex L ! j) p (g \<in> D') st"
    and "turns_left k st < turns_left k (cr_stage c g)"
  shows "crowd_ok N i n peers k m D' (moving g st shared L p c) ds \<and>
     all_turns_left N i k (moving g st shared L p c) < all_turns_left N i k c"
proof
  note g = assms(2) [symmetric]
  show "crowd_ok N i n peers k m D' (moving g st shared L p c) ds"
    using crowd_turn [OF assms(1,3) assms(4) [unfolded g] assms(5-11) assms(12) [unfolded g]]
    by (simp add: moving_def set_stage_eq g)
  show "all_turns_left N i k (moving g st shared L p c) < all_turns_left N i k c"
    by (rule all_turns_left_less [OF assms(3), where st = st]) (use assms(13) g in \<open>simp_all add: moving_def set_stage_def\<close>)
qed

text \<open>What a turn of the goroutine does to the invariant.\<close>

definition goes_on ::
    "nat \<Rightarrow> nat \<Rightarrow> RaftNode \<Rightarrow> (nat \<Rightarrow> RaftNode) \<Rightarrow> int \<Rightarrow> AppendEntriesMessage \<Rightarrow> gid set \<Rightarrow> crowd \<Rightarrow> (nat \<times> bool) list \<Rightarrow>
     crowd go option \<Rightarrow> bool" where
  "goes_on N i n peers k m D c ds res \<longleftrightarrow>
     (\<exists>c' ds'. res = Some (Inr c') \<and> crowd_ok N i n peers k m D c' ds' \<and> all_turns_left N i k c' < all_turns_left N i k c)"

lemma goes_onI:
  "res = Some (Inr c') \<Longrightarrow> crowd_ok N i n peers k m D c' ds' \<and> all_turns_left N i k c' < all_turns_left N i k c \<Longrightarrow>
     goes_on N i n peers k m D c ds res"
  by (auto simp: goes_on_def)

lemma crowd_read:
  assumes "level N i n peers k m u" and "crowd_ok N i n peers k m D c ds" and "cr_stage c g = Ready"
  shows "goes_on N i n peers k m D c ds (cr_step u (ReadLog g) c)"
proof -
  have nc: "cr_stage c g \<noteq> Counted" using assms(3) by simp
  with assms(2) obtain j where j: "g = (int j, j)" "j \<in> peers_of N i" "j < N" "follows n (cr_peers c j)"
    "stage_ok n k m (cr_msg c) (nextIndex (cr_leader c) ! j) (cr_peers c j) (g \<in> D) (cr_stage c g)"
    "leading N i (cr_leader c)" "leader_frame n (cr_leader c)" "shared_ok n k m (cr_msg c)"
    by (rule crowd_okE)
  have st: "nextIndex (cr_leader c) ! j = k" using j(5) by (simp add: assms(3) stage_ok_def)
  note fr = leader_frame_fields [OF j(7)]
  have lv: "u = int (length (log (cr_leader c))) - 1" "k \<le> int (length (log n))" "0 \<le> k"
    using assms(1) by (simp_all add: level_def fr)
  have "LeaderSendAEs_read (int j) u (cr_leader c) = Inr (read_at n k)"
    using LeaderSendAEs_read_eq [OF leading_slot [OF j(6,3)]] j(6) st lv
    by (simp add: leading_def read_at_def fr)
  then have s: "cr_step u (ReadLog g) c =
      Some (Inr (moving g (Stored (read_at n k)) (half_msg n k (cr_msg c)) (cr_leader c) (cr_peers c j) c))"
    using assms(3) by (cases c) (simp add: j(1) moving_def)
  have "stage_ok n k m (half_msg n k (cr_msg c)) (nextIndex (cr_leader c) ! j) (cr_peers c j) (g \<in> D) (Stored (read_at n k))"
    using st grows_half(2) [OF j(8)] by (simp add: stage_ok_def)
  from crowd_moving [OF assms(2) j(1) [symmetric] j(2) nc j(6,7) _ grows_half(1) [OF j(8)] order_refl moved_refl [OF j(4)] _ this]
  show ?thesis by (intro goes_onI [OF s, where ds' = ds]) (simp add: assms(3) turns_left_def)
qed

lemma crowd_store:
  assumes "level N i n peers k m u" and "crowd_ok N i n peers k m D c ds" and "cr_stage c g = Stored s"
  shows "goes_on N i n peers k m D c ds (cr_step u (StoreEntries g) c)"
proof -
  have nc: "cr_stage c g \<noteq> Counted" using assms(3) by simp
  with assms(2) obtain j where j: "g = (int j, j)" "j \<in> peers_of N i" "follows n (cr_peers c j)"
    "stage_ok n k m (cr_msg c) (nextIndex (cr_leader c) ! j) (cr_peers c j) (g \<in> D) (cr_stage c g)"
    "leading N i (cr_leader c)" "leader_frame n (cr_leader c)"
    by (rule crowd_okE)
  have st: "s = read_at n k" "nextIndex (cr_leader c) ! j = k" "cr_msg c = half_msg n k m \<or> cr_msg c = full_msg n k m"
    using j(4) unfolding assms(3) stage_ok_def stage.case by blast+
  note f = grows_full [OF st(3)]
  have s: "cr_step u (StoreEntries g) c =
      Some (Inr (moving g (Calling None) (full_msg n k m) (cr_leader c) (cr_peers c j) c))"
    using assms(3) f(1) st(1) by (cases c) (simp add: j(1) moving_def)
  have "stage_ok n k m (full_msg n k m) (nextIndex (cr_leader c) ! j) (cr_peers c j) (g \<in> D) (Calling None)"
    using st(2) by (simp add: stage_ok_def own_ok_def)
  from crowd_moving [OF assms(2) j(1) [symmetric] j(2) nc j(5,6) _ f(2) order_refl moved_refl [OF j(3)] _ this]
  show ?thesis using assms(1)
    by (intro goes_onI [OF s, where ds' = ds]) (simp add: assms(3) turns_left_def own_prev_def level_def)
qed

lemma crowd_call:
  assumes "crowd_ok N i n peers k m D c ds" and "cr_stage c g = Calling own"
  shows "goes_on N i n peers k m D c ds (cr_step u (Call g) c)"
proof -
  have nc: "cr_stage c g \<noteq> Counted" using assms(2) by simp
  with assms(1) obtain j where j: "g = (int j, j)" "j \<in> peers_of N i" "follows n (cr_peers c j)"
    "stage_ok n k m (cr_msg c) (nextIndex (cr_leader c) ! j) (cr_peers c j) (g \<in> D) (cr_stage c g)"
    "leading N i (cr_leader c)" "leader_frame n (cr_leader c)" "shared_ok n k m (cr_msg c)"
    by (rule crowd_okE)
  let ?st = "OnWire own (the_message own (cr_msg c))"
  have s: "cr_step u (Call g) c = Some (Inr (moving g ?st (cr_msg c) (cr_leader c) (cr_peers c j) c))"
    using assms(2) by (cases c) (simp add: j(1) moving_def)
  have "stage_ok n k m (cr_msg c) (nextIndex (cr_leader c) ! j) (cr_peers c j) (g \<in> D) ?st"
    using j(4) by (simp add: assms(2) stage_ok_def)
  from crowd_moving [OF assms(1) j(1) [symmetric] j(2) nc j(5,6) _ grows_refl [OF j(7)] order_refl moved_refl [OF j(3)] _ this]
  show ?thesis by (intro goes_onI [OF s, where ds' = ds]) (simp add: assms(2) turns_left_def)
qed

lemma crowd_drop:
  assumes "crowd_ok N i n peers k m D c ds" and "cr_step u (Drop g) c = Some res"
  shows "goes_on N i n peers k m (insert g D) c ds (cr_step u (Drop g) c)"
proof -
  have nc: "cr_stage c g \<noteq> Counted" using assms(2) by (auto split: stage.splits)
  with assms(1) obtain j where j: "g = (int j, j)" "j \<in> peers_of N i" "follows n (cr_peers c j)"
    "leading N i (cr_leader c)" "leader_frame n (cr_leader c)" "shared_ok n k m (cr_msg c)"
    by (rule crowd_okE)
  have s: "cr_step u (Drop g) c = Some (Inr (moving g (Back False) (cr_msg c) (cr_leader c) (cr_peers c j) c))"
    using assms(2) by (cases c) (auto simp: j(1) moving_def split: stage.splits)
  have t: "turns_left k (Back False) < turns_left k (cr_stage c g)"
    using assms(2) by (auto simp: turns_left_def split: stage.splits)
  have "stage_ok n k m (cr_msg c) (nextIndex (cr_leader c) ! j) (cr_peers c j) (g \<in> insert g D) (Back False)"
    by (simp add: stage_ok_def)
  from crowd_moving [OF assms(1) j(1) [symmetric] j(2) nc j(4,5) _ grows_refl [OF j(6)] subset_insertI moved_refl [OF j(3)] _ this t]
  show ?thesis by (intro goes_onI [OF s, where ds' = ds]) simp
qed

lemma crowd_serve:
  assumes "level N i n peers k m u" and "crowd_ok N i n peers k m D c ds" and "cr_stage c g = OnWire own msg"
  shows "goes_on N i n peers k m D c ds (cr_step u (Serve g) c)"
proof -
  have nc: "cr_stage c g \<noteq> Counted" using assms(3) by simp
  with assms(2) obtain j where j: "g = (int j, j)" "j \<in> peers_of N i" "follows n (cr_peers c j)"
    "stage_ok n k m (cr_msg c) (nextIndex (cr_leader c) ! j) (cr_peers c j) (g \<in> D) (cr_stage c g)"
    "leading N i (cr_leader c)" "leader_frame n (cr_leader c)" "shared_ok n k m (cr_msg c)"
    by (rule crowd_okE)
  have o: "own_ok n k m (cr_msg c) (nextIndex (cr_leader c) ! j) own" and msg: "msg = the_message own (cr_msg c)"
    using j(4) by (simp_all add: assms(3) stage_ok_def)
  note oc = own_ok_carries [OF assms(1) o]
  have n: "small (log n)" "commitIndex n < int (length (log n))"
    using assms(1) by (simp_all add: level_def leading_def)
  from carried_response [OF n(1) oc(1,2) n(2) j(3)] obtain r p where
    ae: "AppendEntries msg (cr_peers c j) = Inr (r, p)" "aer_Term r = currentTerm n" "Success r = prev_ok msg (log (cr_peers c j))"
      "moved n (cr_peers c j) p" "Success r \<longrightarrow> replicated n p" unfolding msg by blast
  have s: "cr_step u (Serve g) c = Some (Inr (moving g (Answer own r) (cr_msg c) (cr_leader c) p c))"
    using assms(3) ae(1) by (cases c) (simp add: j(1) moving_def)
  have "0 \<le> PrevLogIndex msg" if "\<not> Success r"
    using that ae(3) oc(1) by (auto simp: msg prev_ok_def carries_def)
  then have "stage_ok n k m (cr_msg c) (nextIndex (cr_leader c) ! j) p (g \<in> D) (Answer own r)"
    using o ae(2,5) by (simp add: stage_ok_def msg)
  from crowd_moving [OF assms(2) j(1) [symmetric] j(2) nc j(5,6) _ grows_refl [OF j(7)] order_refl ae(4) _ this]
  show ?thesis by (intro goes_onI [OF s, where ds' = ds]) (simp add: assms(3) turns_left_def)
qed

lemma crowd_resume:
  assumes "level N i n peers k m u" and "crowd_ok N i n peers k m D c ds" and "cr_stage c g = Answer own r"
  shows "goes_on N i n peers k m D c ds (cr_step u (Resume g) c)"
proof -
  have nc: "cr_stage c g \<noteq> Counted" using assms(3) by simp
  with assms(2) obtain j where j: "g = (int j, j)" "j \<in> peers_of N i" "j < N" "follows n (cr_peers c j)"
    "stage_ok n k m (cr_msg c) (nextIndex (cr_leader c) ! j) (cr_peers c j) (g \<in> D) (cr_stage c g)"
    "leading N i (cr_leader c)" "leader_frame n (cr_leader c)" "shared_ok n k m (cr_msg c)"
    by (rule crowd_okE)
  let ?L = "cr_leader c" and ?msg = "the_message own (cr_msg c)"
  have st: "own_ok n k m (cr_msg c) (nextIndex ?L ! j) own" "aer_Term r = currentTerm n"
    "Success r \<longrightarrow> replicated n (cr_peers c j)" "\<not> Success r \<longrightarrow> 0 \<le> PrevLogIndex ?msg"
    using j(5) by (simp_all add: assms(3) stage_ok_def)
  note oc = own_ok_carries [OF assms(1) st(1)] and fr = leader_frame_fields [OF j(7)]
  have u: "u = int (length (log ?L)) - 1" using assms(1) by (simp add: level_def fr)
  have len: "j < length (nextIndex ?L)" using j(3,6) by (simp add: leading_def indices_ok_def)
  show ?thesis
  proof (cases "Success r")
    case True
    from accepted_advances [OF j(6,3) True _ u] st(2) obtain L where
      L: "LeaderSendAE_resp (int j) u ?msg (Some r) ?L = Inr (Return True, L)" "leading N i L" "leader_frame ?L L"
        "nextIndex L = (nextIndex ?L)[j := u + 1]" by (auto simp: fr)
    have s: "cr_step u (Resume g) c = Some (Inr (moving g (Back True) (cr_msg c) L (cr_peers c j) c))"
      using assms(3) L(1) by (cases c) (simp add: j(1) moving_def)
    have "stage_ok n k m (cr_msg c) (nextIndex L ! j) (cr_peers c j) (g \<in> D) (Back True)"
      using st(3) True by (simp add: stage_ok_def)
    from crowd_moving [OF assms(2) j(1) [symmetric] j(2) nc L(2) leader_frame_trans [OF j(7) L(3)] _
        grows_refl [OF j(8)] order_refl moved_refl [OF j(4)] _ this] L(4)
    show ?thesis by (intro goes_onI [OF s, where ds' = ds]) (simp add: assms(3) turns_left_def)
  next
    case False
    have ca: "carries ?L ?msg" using oc(1) by (simp add: carries_def fr)
    from refused_steps_back [OF j(6,3) ca oc(3) False _ _ u] st(2,4) False obtain m1 L where
      L: "LeaderSendAE_resp (int j) u ?msg (Some r) ?L = Inr (Retry m1, L)" "carries L m1"
        "LeaderCommit m1 = commitIndex n" "PrevLogIndex m1 = PrevLogIndex ?msg - 1" "leading N i L" "leader_frame ?L L"
        "nextIndex L = (nextIndex ?L)[j := PrevLogIndex m1 + 1]" by (auto simp: fr)
    have s: "cr_step u (Resume g) c = Some (Inr (moving g (Calling (Some m1)) (cr_msg c) L (cr_peers c j) c))"
      using assms(3) L(1) by (cases c) (simp add: j(1) moving_def)
    have "carries n m1" using L(2) by (simp add: carries_def fr leader_frame_fields [OF L(6)])
    moreover have "PrevLogIndex ?msg \<le> k - 1" using st(1) by (auto simp: own_ok_def the_message_def split: option.splits)
    ultimately have "stage_ok n k m (cr_msg c) (nextIndex L ! j) (cr_peers c j) (g \<in> D) (Calling (Some m1))"
      using L(3,4,7) len by (simp add: stage_ok_def own_ok_def)
    from crowd_moving [OF assms(2) j(1) [symmetric] j(2) nc L(5) leader_frame_trans [OF j(7) L(6)] _
        grows_refl [OF j(8)] order_refl moved_refl [OF j(4)] _ this] L(7)
    have "turns_left k (Calling (Some m1)) < turns_left k (Answer own r) \<Longrightarrow> ?thesis"
      by (intro goes_onI [OF s, where ds' = ds]) (simp add: assms(3))
    moreover have "turns_left k (Calling (Some m1)) < turns_left k (Answer own r)"
      using L(4) st(4) False by (simp add: turns_left_def oc(4)) (simp add: own_prev_def)
    ultimately show ?thesis by blast
  qed
qed

lemma crowd_counted:
  assumes "crowd_ok N i n peers k m D c ds" and "cr_stage c g = Back ok"
  shows "goes_on N i n peers k m D c ds (cr_step u (Count g) c)"
proof -
  have nc: "cr_stage c g \<noteq> Counted" using assms(2) by simp
  with assms(1) obtain j where j: "g = (int j, j)" "j \<in> peers_of N i" "leading N i (cr_leader c)"
    by (rule crowd_okE)
  obtain count out where t: "tally_step (int N) ok (cr_count c) = (count, out)" by (cases "tally_step (int N) ok (cr_count c)")
  let ?c = "set_stage g Counted (c\<lparr>cr_count := count, cr_verdicts := cr_verdicts c @ out\<rparr>)"
  have "n_replicas (Meta (cr_leader c)) = int N" using j(3) by (simp add: leading_def connected_def)
  then have s: "cr_step u (Count g) c = Some (Inr ?c)" using assms(2) t by simp
  have "all_turns_left N i k ?c < all_turns_left N i k c"
    by (rule all_turns_left_less [OF j(2), where st = Counted])
       (use assms(2) j(1) in \<open>simp_all add: set_stage_def turns_left_def\<close>)
  with crowd_count [OF assms(1) j(2) _ t] assms(2) j(1) s show ?thesis unfolding goes_on_def by blast
qed

lemma crowd_step:
  assumes "level N i n peers k m u" and "crowd_ok N i n peers k m D c ds" and "cr_step u t c = Some res"
  shows "goes_on N i n peers k m (D \<union> dropped t) c ds (Some res)"
proof (cases t)
  case (ReadLog g)
  with assms(3) have "cr_stage c g = Ready" by (auto split: stage.splits)
  from crowd_read [OF assms(1,2) this] show ?thesis using assms(3) ReadLog by simp
next
  case (StoreEntries g)
  with assms(3) obtain s where "cr_stage c g = Stored s" by (auto split: stage.splits)
  from crowd_store [OF assms(1,2) this] show ?thesis using assms(3) StoreEntries by simp
next
  case (Call g)
  with assms(3) obtain own where "cr_stage c g = Calling own" by (auto split: stage.splits)
  from crowd_call [OF assms(2) this, of u] show ?thesis using assms(3) Call by simp
next
  case (Serve g)
  with assms(3) obtain own m' where "cr_stage c g = OnWire own m'" by (auto split: stage.splits)
  from crowd_serve [OF assms(1,2) this] show ?thesis using assms(3) Serve by simp
next
  case (Drop g)
  with crowd_drop [OF assms(2), of u g] assms(3) show ?thesis by simp
next
  case (Resume g)
  with assms(3) obtain own r where "cr_stage c g = Answer own r" by (auto split: stage.splits)
  from crowd_resume [OF assms(1,2) this] show ?thesis using assms(3) Resume by simp
next
  case (Count g)
  with assms(3) obtain ok where "cr_stage c g = Back ok" by (auto split: stage.splits)
  from crowd_counted [OF assms(2) this, of u] show ?thesis using assms(3) Count by simp
qed

section \<open>Runs of a round\<close>

definition drops :: "turn list \<Rightarrow> gid set" where
  "drops ts = (\<Union>t \<in> set ts. dropped t)"

lemma crowd_run:
  assumes "level N i n peers k m u" and "crowd_ok N i n peers k m D c ds" and "cr_run u ts c = Some res"
  shows "\<exists>c' ds'. res = Inr c' \<and> crowd_ok N i n peers k m (D \<union> drops ts) c' ds' \<and>
     length ts + all_turns_left N i k c' \<le> all_turns_left N i k c"
  using assms(2,3)
proof (induction ts arbitrary: D c ds)
  case Nil
  then show ?case by (auto simp: drops_def)
next
  case (Cons t ts)
  then obtain r1 where r1: "cr_step u t c = Some r1" by (cases "cr_step u t c") simp_all
  from crowd_step [OF assms(1) Cons.prems(1) r1] obtain c1 ds1 where
    1: "r1 = Inr c1" "crowd_ok N i n peers k m (D \<union> dropped t) c1 ds1" "all_turns_left N i k c1 < all_turns_left N i k c"
    by (auto simp: goes_on_def)
  with Cons.prems(2) r1 have "cr_run u ts c1 = Some res" by simp
  from Cons.IH [OF 1(2) this] obtain c' ds' where
    "res = Inr c'" "crowd_ok N i n peers k m (D \<union> dropped t \<union> drops ts) c' ds'"
    "length ts + all_turns_left N i k c' \<le> all_turns_left N i k c1" by blast
  with 1(3) show ?case by (intro exI [of _ c'] exI [of _ ds']) (simp add: drops_def Un_assoc)
qed

lemma crowd_start:
  assumes "level N i n peers k m u" and "N < 2147483648"
  shows "crowd_ok N i n peers k m {} (cr_start m (n, peers)) []"
    "all_turns_left N i k (cr_start m (n, peers)) = card (peers_of N i) * (4 * nat k + 7)"
proof -
  have con: "connected N i n" and lead: "leading N i n" using assms(1) by (simp_all add: level_def leading_def)
  have sp: "g \<in> set (spawned (peer_replica_clients (Meta n)) 0 (replica_id (Meta n))) \<longleftrightarrow>
      (\<exists>j. j \<in> peers_of N i \<and> g = (int j, j))" for g
    unfolding spawned_connected [OF con assms(2)] by (auto simp: peers_of_def)
  then have st: "cr_stage (cr_start m (n, peers)) g = (if \<exists>j. j \<in> peers_of N i \<and> g = (int j, j) then Ready else Counted)" for g
    by (simp add: cr_start_def)
  have f: "\<forall>j \<in> peers_of N i. follows n (peers j) \<and> nextIndex n ! j = k" using assms(1) by (simp add: level_def)
  have "\<forall>j \<in> peers_of N i. moved n (peers j) (cr_peers (cr_start m (n, peers)) j) \<and>
      stage_ok n k m (cr_msg (cr_start m (n, peers))) (nextIndex (cr_leader (cr_start m (n, peers))) ! j)
        (cr_peers (cr_start m (n, peers)) j) ((int j, j) \<in> {}) (cr_stage (cr_start m (n, peers)) (int j, j))"
    using f by (auto simp: st stage_ok_def moved_refl) (simp_all add: cr_start_def moved_refl)
  then show "crowd_ok N i n peers k m {} (cr_start m (n, peers)) []"
    using lead unfolding crowd_ok_def by (simp add: st) (auto simp: cr_start_def shared_ok_def)
  show "all_turns_left N i k (cr_start m (n, peers)) = card (peers_of N i) * (4 * nat k + 7)"
    unfolding all_turns_left_def by (simp add: st turns_left_def)
qed

lemma over_eq:
  assumes "crowd_ok N i n peers k m D c ds" and "N < 2147483648"
  shows "over c \<longleftrightarrow> set (map fst ds) = peers_of N i"
proof -
  have "connected N i (cr_leader c)" using assms(1) by (simp add: crowd_ok_def leading_def)
  from spawned_connected [OF this assms(2)] have "over c \<longleftrightarrow> (\<forall>j \<in> peers_of N i. cr_stage c (int j, j) = Counted)"
    by (auto simp: over_def peers_of_def list_all_iff)
  moreover have "set (map fst ds) = {j \<in> peers_of N i. cr_stage c (int j, j) = Counted}"
    using assms(1) by (simp add: crowd_ok_def)
  ultimately show ?thesis by auto
qed

lemma not_over_step:
  assumes "level N i n peers k m u" and "crowd_ok N i n peers k m D c ds" and "N < 2147483648" and "\<not> over c"
  shows "\<exists>t res. cr_step u t c = Some res"
proof -
  have "set (map fst ds) = {j \<in> peers_of N i. cr_stage c (int j, j) = Counted}" using assms(2) by (simp add: crowd_ok_def)
  with assms(4) over_eq [OF assms(2,3)] obtain j where "cr_stage c (int j, j) \<noteq> Counted" by blast
  then have "\<exists>res. cr_step u (ReadLog (int j, j)) c = Some res \<or> cr_step u (StoreEntries (int j, j)) c = Some res \<or>
      cr_step u (Drop (int j, j)) c = Some res \<or> cr_step u (Count (int j, j)) c = Some res"
    by (cases "cr_stage c (int j, j)") (simp_all split: prod.splits)
  then show ?thesis by blast
qed

text \<open>The verdict of a round that is over.\<close>

lemma crowd_verdict:
  assumes "crowd_ok N i n peers k m D c ds" and "over c" and "i < N" and "2 \<le> N" and "N < 2147483647"
  shows "\<exists>v. cr_verdicts c = [v] \<and> (v \<longrightarrow> N < 2 * card (holders N i n (cr_peers c))) \<and>
     (N < 2 * card {j. j < N \<and> (j = i \<or> (int j, j) \<notin> D)} \<longrightarrow> v)"
proof -
  have ds: "set (map fst ds) = peers_of N i" using over_eq [OF assms(1)] assms(2,5) by simp
  have dis: "distinct (map fst ds)" and vd: "cr_verdicts c = tally (int N) (map snd ds) (1, 0)"
    and ok: "\<And>j b. (j, b) \<in> set ds \<Longrightarrow> if b then replicated n (cr_peers c j) else (int j, j) \<in> D"
    using assms(1) unfolding crowd_ok_def by blast+
  have "length ds = card (peers_of N i)" using dis ds by (metis distinct_card length_map)
  also have "peers_of N i = {0..<N} - {i}" by (auto simp: peers_of_def)
  also have "card ({0..<N} - {i}) = N - 1" using assms(3) by simp
  finally have len: "length ds = N - 1" .
  define S where "S = fst ` set (filter snd ds)"
  have "count_list (map snd ds) True = length (filter snd ds)" by (induction ds) auto
  also have "\<dots> = card S"
    using dis unfolding S_def by (metis card_image distinct_card distinct_filter distinct_map inj_on_subset filter_is_subset)
  finally have card: "count_list (map snd ds) True = card S" .
  have fin: "finite S" "i \<notin> S" using ds by (auto simp: S_def peers_of_def)
  let ?v = "N < 2 * (1 + card S)"
  have "cr_verdicts c = [int N < 2 * (1 + int (count_list (map snd ds) True))]"
    unfolding vd using assms(3-5) len by (intro tally_verdict) auto
  then have v: "cr_verdicts c = [?v]" unfolding card by simp linarith
  have c1: "card (insert i S) = 1 + card S" using fin by simp
  have "insert i S \<subseteq> holders N i n (cr_peers c)"
    using ds ok assms(3) by (fastforce simp: S_def holders_def peers_of_def)
  from card_mono [OF finite_holders(1) this] have h: "1 + card S \<le> card (holders N i n (cr_peers c))" using c1 by simp
  have "{j. j < N \<and> (j = i \<or> (int j, j) \<notin> D)} \<subseteq> insert i S"
  proof
    fix j
    assume j: "j \<in> {j. j < N \<and> (j = i \<or> (int j, j) \<notin> D)}"
    show "j \<in> insert i S"
    proof (cases "j = i")
      case False
      with j ds have "j \<in> set (map fst ds)" by (simp add: peers_of_def)
      then obtain b where "(j, b) \<in> set ds" by auto
      with ok [of j b] j False show ?thesis by (cases b) (force simp: S_def)+
    qed simp
  qed
  from card_mono [OF _ this] fin(1) have g: "card {j. j < N \<and> (j = i \<or> (int j, j) \<notin> D)} \<le> 1 + card S" using c1 by simp
  have "?v \<longrightarrow> N < 2 * card (holders N i n (cr_peers c))" using less_le_trans [OF _ mult_le_mono2 [OF h]] by blast
  moreover have "N < 2 * card {j. j < N \<and> (j = i \<or> (int j, j) \<notin> D)} \<longrightarrow> ?v" using less_le_trans [OF _ mult_le_mono2 [OF g]] by blast
  ultimately show ?thesis using v by blast
qed

text \<open>A peer whose goroutine has returned without a lost call.\<close>

lemma crowd_returned:
  assumes "crowd_ok N i n peers k m D c ds" and "j < N" and "j \<noteq> i" and "(int j, j) \<notin> D"
    and "cr_stage c (int j, j) = Counted \<or> (\<exists>b. cr_stage c (int j, j) = Back b)"
  shows "replicated n (cr_peers c j)"
proof -
  have j: "j \<in> peers_of N i" using assms(2,3) by (simp add: peers_of_def)
  have ok: "stage_ok n k m (cr_msg c) (nextIndex (cr_leader c) ! j) (cr_peers c j) ((int j, j) \<in> D) (cr_stage c (int j, j))"
    and ds: "set (map fst ds) = {j \<in> peers_of N i. cr_stage c (int j, j) = Counted}"
    and counted: "\<And>x b. (x, b) \<in> set ds \<Longrightarrow> if b then replicated n (cr_peers c x) else (int x, x) \<in> D"
    using assms(1) j unfolding crowd_ok_def by blast+
  show ?thesis
  proof (cases "cr_stage c (int j, j) = Counted")
    case True
    then have "j \<in> set (map fst ds)" unfolding ds using j by simp
    then obtain b where "(j, b) \<in> set ds" by auto
    with counted [OF this] assms(4) show ?thesis by (cases b) simp_all
  next
    case False
    with assms(5) ok assms(4) show ?thesis by (auto simp: stage_ok_def split: if_splits)
  qed
qed

section \<open>Properties\<close>

text \<open>
  C7: a round under real interleavings: at a leader all of whose peers follow it (no newer term, logs
  that match) and have the same next index, the goroutines of a round may take their turns in any
  order, with calls dropped at any moment; no turn panics, the leader loses nothing but the indices
  of its peers, the peers remain followers, and a peer whose goroutine has returned without a dropped
  call holds the leader's whole log and knows what it has committed; a round that is not over has a
  turn to take and every run has at most a number of turns that is known beforehand; a round that is
  over has sent exactly one verdict, success only if a majority of the replicas hold the leader's
  log, and success for sure if a majority dropped no call.
\<close>

theorem interleaved_round:
  assumes "leading N i n" and "i < N" and "2 \<le> N" and "N < 2147483647" and "peers_follow N i n peers"
    and "\<forall>j < N. j \<noteq> i \<longrightarrow> nextIndex n ! j = k"
    and "cr_run (int (length (log n)) - 1) ts (cr_start (header_msg n) (n, peers)) = Some res"
  shows "\<exists>c. res = Inr c \<and> leader_frame n (cr_leader c) \<and> peers_follow N i n (cr_peers c) \<and>
     length ts \<le> (N - 1) * (4 * nat k + 7) \<and>
     (\<forall>j < N. j \<noteq> i \<and> Drop (int j, j) \<notin> set ts \<and>
        (cr_stage c (int j, j) = Counted \<or> (\<exists>b. cr_stage c (int j, j) = Back b)) \<longrightarrow>
        take (length (log n)) (log (cr_peers c j)) = log n \<and> commitIndex n \<le> commitIndex (cr_peers c j)) \<and>
     (\<not> over c \<longrightarrow> (\<exists>t c'. cr_step (int (length (log n)) - 1) t c = Some (Inr c'))) \<and>
     (over c \<longrightarrow> (\<exists>v. cr_verdicts c = [v] \<and>
        (v \<longrightarrow> N < 2 * card {j. j < N \<and> (j = i \<or> take (length (log n)) (log (cr_peers c j)) = log n \<and>
                                                 commitIndex n \<le> commitIndex (cr_peers c j))}) \<and>
        (N < 2 * card {j. j < N \<and> (j = i \<or> Drop (int j, j) \<notin> set ts)} \<longrightarrow> v)))"
proof -
  obtain j where j: "j < N" "j \<noteq> i" using assms(3) by (metis One_nat_def Suc_1 Suc_leD less_le_trans n_not_Suc_n neq0_conv lessI zero_less_one)
  have k: "0 \<le> k" "k \<le> int (length (log n))" using leading_next [OF assms(1) j(1)] assms(6) j by auto
  have N: "N < 2147483648" using assms(4) by simp
  have lv: "level N i n peers k (header_msg n) (int (length (log n)) - 1)"
    using assms(1,5,6) k by (simp add: level_def peers_follow_def peers_of_def)
  have "card (peers_of N i) = card ({0..<N} - {i})" by (rule arg_cong [where f = card]) (auto simp: peers_of_def)
  then have cp: "card (peers_of N i) = N - 1" using assms(2) by simp
  note st = crowd_start [OF lv N]
  from crowd_run [OF lv st(1) assms(7)] obtain c ds where
    c: "res = Inr c" "crowd_ok N i n peers k (header_msg n) (drops ts) c ds"
      "length ts \<le> (N - 1) * (4 * nat k + 7)" unfolding st(2) cp by auto
  have D: "(g \<in> drops ts) = (Drop g \<in> set ts)" for g
  proof -
    have "g \<in> dropped t \<longleftrightarrow> t = Drop g" for t by (cases t) auto
    then show ?thesis by (auto simp: drops_def)
  qed
  have "leader_frame n (cr_leader c)" "peers_follow N i n (cr_peers c)"
    using c(2) by (auto simp: crowd_ok_def peers_follow_def peers_of_def moved_def)
  moreover have "\<exists>t c'. cr_step (int (length (log n)) - 1) t c = Some (Inr c')" if "\<not> over c"
  proof -
    from not_over_step [OF lv c(2) N that] obtain t r where t: "cr_step (int (length (log n)) - 1) t c = Some r" by blast
    from crowd_step [OF lv c(2) t] t show ?thesis by (auto simp: goes_on_def)
  qed
  moreover have "\<exists>v. cr_verdicts c = [v] \<and>
        (v \<longrightarrow> N < 2 * card {j. j < N \<and> (j = i \<or> take (length (log n)) (log (cr_peers c j)) = log n \<and>
                                                 commitIndex n \<le> commitIndex (cr_peers c j))}) \<and>
        (N < 2 * card {j. j < N \<and> (j = i \<or> Drop (int j, j) \<notin> set ts)} \<longrightarrow> v)" if "over c"
    using crowd_verdict [OF c(2) that assms(2-4)] unfolding holders_def replicated_def D by simp
  moreover have "\<forall>j < N. j \<noteq> i \<and> Drop (int j, j) \<notin> set ts \<and>
        (cr_stage c (int j, j) = Counted \<or> (\<exists>b. cr_stage c (int j, j) = Back b)) \<longrightarrow>
        take (length (log n)) (log (cr_peers c j)) = log n \<and> commitIndex n \<le> commitIndex (cr_peers c j)"
    using crowd_returned [OF c(2)] unfolding D replicated_def by blast
  ultimately show ?thesis using c(1,3) by blast
qed

text \<open>
  Two peers that are one entry behind an unfinished log; their goroutines overlap in every turn,
  both are refused once, and the call of the second is lost in the end.
\<close>

definition overlapping :: "turn list" where
  "overlapping =
     [ReadLog (1, 1), ReadLog (2, 2), StoreEntries (2, 2), StoreEntries (1, 1), Call (1, 1), Call (2, 2),
      Serve (2, 2), Serve (1, 1), Resume (1, 1), Resume (2, 2), Call (2, 2), Call (1, 1), Serve (1, 1), Drop (2, 2),
      Resume (1, 1), Count (2, 2), Count (1, 1)]"

definition level_leader :: RaftNode where
  "level_leader = demo_node 3 0 2 Leader [demo_entry 1, demo_entry 2]"

lemma overlapping_run:
  "map_option (map_sum id (\<lambda>c. (over c, cr_verdicts c, log (cr_peers c 1), log (cr_peers c 2))))
     (cr_run 1 overlapping (cr_start (header_msg level_leader) (level_leader, demo_peers)))
   = Some (Inr (True, [True], [demo_entry 1, demo_entry 2], [demo_entry 1]))"
  by code_simp

theorem interleaved_round_witness:
  "\<exists>c. cr_run 1 overlapping (cr_start (header_msg level_leader) (level_leader, demo_peers)) = Some (Inr c) \<and>
     over c \<and> cr_verdicts c = [True] \<and> length overlapping \<le> 30 \<and>
     3 < 2 * card {j. j < 3 \<and> (j = 0 \<or> take 2 (log (cr_peers c j)) = [demo_entry 1, demo_entry 2] \<and>
                                              -1 \<le> commitIndex (cr_peers c j))}"
proof -
  note d = level_leader_def
  from overlapping_run obtain c where
    c: "cr_run 1 overlapping (cr_start (header_msg level_leader) (level_leader, demo_peers)) = Some (Inr c)"
      "over c" "cr_verdicts c = [True]"
    by (cases "projr (the (cr_run 1 overlapping (cr_start (header_msg level_leader) (level_leader, demo_peers))))")
       (auto simp: map_option_case map_sum_def split: sum.splits option.splits)
  have l: "int (length (log level_leader)) - 1 = 1" by (simp add: d)
  have side: "(0::nat) < 3" "(2::nat) \<le> 3" "(3::nat) < 2147483647" "\<forall>j < 3. j \<noteq> 0 \<longrightarrow> nextIndex level_leader ! j = 2"
    by (simp_all add: d)
  from interleaved_round [OF demo_leading [folded d] side(1-3) demo_peers_follow [folded d] side(4), unfolded l, OF c(1)] c
  show ?thesis by (auto simp: d numeral_2_eq_2)
qed

end
