(* ===== verification/KV_LinkedList.thy ===== *)
theory KV_LinkedList
  imports Prelude
begin

text \<open>
  The bucket lists of the key-value store, \<^verbatim>\<open>src/raft/kv_store/linkedlist.go\<close>, at the level
  of pointers: nodes live in an explicit heap, \<open>Next\<close> fields are addresses, and every loop
  of the source is a loop over the heap.  A loop that follows pointers may run forever on a
  cyclic structure, so it is a \<open>partial_function (option)\<close>: \<open>None\<close> is \<open>does not return\<close>.
  The lemmas relate the pointer operations to operations on the list of pairs that a chain
  represents (\<open>chain\<close>), show that they return on every chain, and that they leave other
  chains alone.
\<close>

section \<open>State\<close>

type_synonym addr = nat

record Node =
  Next :: "addr option"
  Key :: string
  Data :: string

record Linkedlist =
  Head :: "addr option"
  Size :: int

text \<open>The heap: allocated nodes and the next free address (allocation never fails).\<close>

record heap =
  cells :: "addr \<Rightarrow> Node option"
  fresh :: addr

definition empty_heap :: heap where
  "empty_heap = \<lparr>cells = (\<lambda>_. None), fresh = 0\<rparr>"

definition alloc :: "Node \<Rightarrow> heap \<Rightarrow> addr \<times> heap" where
  "alloc n h = (fresh h, h\<lparr>cells := (cells h)(fresh h := Some n), fresh := Suc (fresh h)\<rparr>)"

definition set_next :: "addr \<Rightarrow> addr option \<Rightarrow> heap \<Rightarrow> heap" where
  "set_next a p h = h\<lparr>cells := (cells h)(a := map_option (\<lambda>n. n\<lparr>Next := p\<rparr>) (cells h a))\<rparr>"

definition set_data :: "addr \<Rightarrow> string \<Rightarrow> heap \<Rightarrow> heap" where
  "set_data a d h = h\<lparr>cells := (cells h)(a := map_option (\<lambda>n. n\<lparr>Data := d\<rparr>) (cells h a))\<rparr>"

section \<open>Operations\<close>

definition newLinkedList :: Linkedlist where
  "newLinkedList = \<lparr>Head = None, Size = 0\<rparr>"

definition isEmpty :: "Linkedlist \<Rightarrow> bool" where
  "isEmpty ll = (if Head ll = None then True else False)"

definition add :: "string \<Rightarrow> string \<Rightarrow> Linkedlist \<Rightarrow> heap \<Rightarrow> Linkedlist \<times> heap" where
  "add strA strB ll h =
     (let (newNode, h1) = alloc \<lparr>Next = None, Key = strA, Data = strB\<rparr> h;
          h2 = (if Head ll \<noteq> None then set_next newNode (Head ll) h1 else h1)
      in (ll\<lparr>Head := Some newNode, Size := i64 (Size ll + 1)\<rparr>, h2))"

text \<open>
  The loop of \<open>remove\<close>: \<open>a\<close> is the address of the node that \<open>newNode\<close> points to.
\<close>

partial_function (option) remove_loop ::
    "string \<Rightarrow> Linkedlist \<Rightarrow> addr \<Rightarrow> heap \<Rightarrow> (bool \<times> Linkedlist \<times> heap) option" where
  "remove_loop str ll a h =
     Option.bind (cells h a) (\<lambda>newNode.
       (case Next newNode of
          None \<Rightarrow> Some (False, ll, h)
        | Some b \<Rightarrow>
            Option.bind (cells h b) (\<lambda>nextNode.
              if Key nextNode = str
              then Some (True, ll\<lparr>Size := i64 (Size ll - 1)\<rparr>, set_next a (Next nextNode) h)
              else remove_loop str ll b h)))"

definition remove :: "string \<Rightarrow> Linkedlist \<Rightarrow> heap \<Rightarrow> (bool \<times> Linkedlist \<times> heap) option" where
  "remove str ll h =
     (case Head ll of
        None \<Rightarrow> Some (False, ll, h)
      | Some a \<Rightarrow>
          Option.bind (cells h a) (\<lambda>newNode.
            if Key newNode = str
            then Some (True, ll\<lparr>Head := Next newNode, Size := i64 (Size ll - 1)\<rparr>, h)
            else remove_loop str ll a h))"

text \<open>The text that \<open>printlist\<close> prints.\<close>

partial_function (option) printlist_loop :: "addr option \<Rightarrow> heap \<Rightarrow> string \<Rightarrow> string option" where
  "printlist_loop p h out =
     (case p of
        None \<Rightarrow> Some (out @ [CHR 0x0A])
      | Some a \<Rightarrow>
          Option.bind (cells h a) (\<lambda>newNode.
            printlist_loop (Next newNode) h (out @ Key newNode @ '','' @ Data newNode @ '' -> '')))"

definition printlist :: "Linkedlist \<Rightarrow> heap \<Rightarrow> string option" where
  "printlist ll h = printlist_loop (Head ll) h []"

section \<open>Chains\<close>

text \<open>
  \<open>chain c p as kvs\<close>: the pointer \<open>p\<close> is the head of a nil-terminated chain through the
  addresses \<open>as\<close> whose nodes hold the pairs \<open>kvs\<close>.
\<close>

fun chain :: "(addr \<Rightarrow> Node option) \<Rightarrow> addr option \<Rightarrow> addr list \<Rightarrow> (string \<times> string) list \<Rightarrow> bool" where
  "chain c p [] [] \<longleftrightarrow> p = None"
| "chain c p (a # as) ((k, v) # kvs) \<longleftrightarrow>
     p = Some a \<and>
     (case c a of None \<Rightarrow> False | Some n \<Rightarrow> Key n = k \<and> Data n = v \<and> chain c (Next n) as kvs)"
| "chain c p _ _ \<longleftrightarrow> False"

lemma chain_Nil [simp]: "chain c p [] kvs \<longleftrightarrow> p = None \<and> kvs = []"
  by (cases kvs) auto

lemma chain_None [simp]: "chain c None as kvs \<longleftrightarrow> as = [] \<and> kvs = []"
  by (cases as; cases kvs) auto

lemma chain_Some: "chain c (Some a) as kvs \<longleftrightarrow>
    (\<exists>n as' kvs'. as = a # as' \<and> kvs = (Key n, Data n) # kvs' \<and> c a = Some n \<and> chain c (Next n) as' kvs')"
  by (cases as; cases kvs) (auto split: option.splits)

lemma chain_length: "chain c p as kvs \<Longrightarrow> length as = length kvs"
  by (induction c p as kvs rule: chain.induct) (auto split: option.splits)

lemma chain_upd_other [simp]: "a \<notin> set as \<Longrightarrow> chain (c(a := x)) p as kvs = chain c p as kvs"
  by (induction c p as kvs rule: chain.induct) (auto split: option.splits)

lemma chain_cells: "chain c p as kvs \<Longrightarrow> b \<in> set as \<Longrightarrow> c b \<noteq> None"
  by (induction c p as kvs rule: chain.induct) (auto split: option.splits)

text \<open>A well-formed heap has no cell at or above the next free address.\<close>

definition heap_ok :: "heap \<Rightarrow> bool" where
  "heap_ok h \<longleftrightarrow> (\<forall>a. fresh h \<le> a \<longrightarrow> cells h a = None)"

lemma heap_ok_chain_below: "heap_ok h \<Longrightarrow> chain (cells h) p as kvs \<Longrightarrow> fresh h \<notin> set as"
  using chain_cells by (fastforce simp: heap_ok_def)

lemma heap_ok_empty [simp]: "heap_ok empty_heap"
  by (simp add: heap_ok_def empty_heap_def)

lemma heap_ok_set_next [simp]: "heap_ok h \<Longrightarrow> heap_ok (set_next a p h)"
  by (auto simp: heap_ok_def set_next_def)

lemma heap_ok_set_data [simp]: "heap_ok h \<Longrightarrow> heap_ok (set_data a p h)"
  by (auto simp: heap_ok_def set_data_def)

text \<open>
  \<open>ll_repr h ll as kvs\<close>: the list object \<open>ll\<close> owns the distinct nodes \<open>as\<close>, which hold the
  pairs \<open>kvs\<close>, and its size field counts them.
\<close>

definition ll_repr :: "heap \<Rightarrow> Linkedlist \<Rightarrow> addr list \<Rightarrow> (string \<times> string) list \<Rightarrow> bool" where
  "ll_repr h ll as kvs \<longleftrightarrow>
     chain (cells h) (Head ll) as kvs \<and> distinct as \<and> Size ll = i64 (int (length kvs))"

lemma newLinkedList_repr: "ll_repr h newLinkedList [] []"
  by (simp add: ll_repr_def newLinkedList_def i64_id)

lemma isEmpty_repr: "ll_repr h ll as kvs \<Longrightarrow> isEmpty ll \<longleftrightarrow> kvs = []"
  by (cases "Head ll") (auto simp: ll_repr_def isEmpty_def chain_Some)

section \<open>Addition\<close>

text \<open>The net effect of \<open>add\<close>: one fresh node in front of the chain.\<close>

lemma add_eq:
  "add k v ll h =
     (ll\<lparr>Head := Some (fresh h), Size := i64 (Size ll + 1)\<rparr>,
      h\<lparr>cells := (cells h)(fresh h := Some \<lparr>Next = Head ll, Key = k, Data = v\<rparr>),
        fresh := Suc (fresh h)\<rparr>)"
  by (cases "Head ll") (simp_all add: add_def alloc_def set_next_def Let_def)

lemma add_repr:
  assumes "heap_ok h" and "ll_repr h ll as kvs" and "add k v ll h = (ll', h')"
  shows "ll_repr h' ll' (fresh h # as) ((k, v) # kvs)"
  using assms heap_ok_chain_below [of h "Head ll" as kvs]
  by (auto simp: add_eq ll_repr_def algebra_simps)

lemma add_heap_ok: "heap_ok h \<Longrightarrow> add k v ll h = (ll', h') \<Longrightarrow> heap_ok h'"
  by (auto simp: add_eq heap_ok_def)

lemma add_frame:
  "heap_ok h \<Longrightarrow> add k v ll h = (ll', h') \<Longrightarrow> chain (cells h) p bs kvs' \<Longrightarrow> chain (cells h') p bs kvs'"
  using heap_ok_chain_below [of h p bs kvs'] by (auto simp: add_eq)

section \<open>Removal\<close>

text \<open>What \<open>remove\<close> does to the list of pairs: the first pair with the key goes.\<close>

fun del_first :: "string \<Rightarrow> (string \<times> string) list \<Rightarrow> (string \<times> string) list" where
  "del_first k [] = []"
| "del_first k ((k', v) # kvs) = (if k' = k then kvs else (k', v) # del_first k kvs)"

fun del_addr :: "string \<Rightarrow> addr list \<Rightarrow> (string \<times> string) list \<Rightarrow> addr list" where
  "del_addr k (a # as) ((k', v) # kvs) = (if k' = k then as else a # del_addr k as kvs)"
| "del_addr k as _ = as"

lemma set_del_addr: "set (del_addr k as kvs) \<subseteq> set as"
  by (induction k as kvs rule: del_addr.induct) auto

lemma distinct_del_addr: "distinct as \<Longrightarrow> distinct (del_addr k as kvs)"
  using set_del_addr by (induction k as kvs rule: del_addr.induct) fastforce+

lemma length_del_first:
  "length (del_first k kvs) = (if k \<in> fst ` set kvs then length kvs - 1 else length kvs)"
proof (induction k kvs rule: del_first.induct)
  case (2 k k' v kvs)
  then show ?case by (cases kvs) auto
qed simp

text \<open>
  A change of the heap that is confined to the nodes \<open>A\<close>: nothing is allocated or freed, and
  cells outside \<open>A\<close> keep their contents.
\<close>

definition confined :: "addr set \<Rightarrow> heap \<Rightarrow> heap \<Rightarrow> bool" where
  "confined A h h' \<longleftrightarrow> fresh h' = fresh h \<and> (\<forall>b. b \<notin> A \<longrightarrow> cells h' b = cells h b) \<and>
     (\<forall>b. cells h' b = None \<longleftrightarrow> cells h b = None)"

lemma confined_refl [simp]: "confined A h h"
  by (simp add: confined_def)

lemma confined_mono: "confined A h h' \<Longrightarrow> A \<subseteq> B \<Longrightarrow> confined B h h'"
  by (auto simp: confined_def)

lemma confined_set_next [simp]: "a \<in> A \<Longrightarrow> confined A h (set_next a p h)"
  by (auto simp: confined_def set_next_def)

lemma confined_set_data [simp]: "a \<in> A \<Longrightarrow> confined A h (set_data a d h)"
  by (auto simp: confined_def set_data_def)

lemma confined_cells: "confined A h h' \<Longrightarrow> b \<notin> A \<Longrightarrow> cells h' b = cells h b"
  by (simp add: confined_def)

lemma confined_heap_ok: "confined A h h' \<Longrightarrow> heap_ok h \<Longrightarrow> heap_ok h'"
  by (simp add: confined_def heap_ok_def)

lemma chain_cong: "(\<And>b. b \<in> set as \<Longrightarrow> c' b = c b) \<Longrightarrow> chain c' p as kvs = chain c p as kvs"
  by (induction c p as kvs rule: chain.induct) (auto split: option.splits)

lemma confined_chain: "confined A h h' \<Longrightarrow> A \<inter> set as = {} \<Longrightarrow> chain (cells h') p as kvs = chain (cells h) p as kvs"
  by (rule chain_cong) (auto simp: confined_def)

lemma remove_loop_chain:
  assumes "chain (cells h) (Some a) (a # as) ((k0, v0) # kvs)" and "distinct (a # as)"
  shows "\<exists>h'. remove_loop str ll a h =
             Some (str \<in> fst ` set kvs,
                   if str \<in> fst ` set kvs then ll\<lparr>Size := i64 (Size ll - 1)\<rparr> else ll, h') \<and>
           chain (cells h') (Some a) (a # del_addr str as kvs) ((k0, v0) # del_first str kvs) \<and>
           confined (set (a # as)) h h'"
  using assms
proof (induction as arbitrary: a k0 v0 kvs)
  case Nil
  then show ?case by (auto simp: remove_loop.simps split: option.splits)
next
  case (Cons b as)
  from Cons.prems obtain n m kvs' where
    n: "cells h a = Some n" "Key n = k0" "Data n = v0" "Next n = Some b" and
    m: "cells h b = Some m" "chain (cells h) (Next m) as kvs'" and
    kvs: "kvs = (Key m, Data m) # kvs'"
    by (cases kvs) (auto split: option.splits)
  from m kvs have tail: "chain (cells h) (Some b) (b # as) ((Key m, Data m) # kvs')" by simp
  show ?case
  proof (cases "Key m = str")
    case True
    then show ?thesis
      using Cons.prems n m kvs
      by (auto simp: remove_loop.simps set_next_def confined_def)
  next
    case False
    from Cons.IH [OF tail] Cons.prems(2) obtain h' where
      run: "remove_loop str ll b h = Some (str \<in> fst ` set kvs',
               if str \<in> fst ` set kvs' then ll\<lparr>Size := i64 (Size ll - 1)\<rparr> else ll, h')" and
      ch: "chain (cells h') (Some b) (b # del_addr str as kvs')
             ((Key m, Data m) # del_first str kvs')" and
      conf: "confined (set (b # as)) h h'"
      by auto
    from conf Cons.prems(2) have "cells h' a = cells h a" by (auto simp: confined_def)
    moreover from conf have "confined (set (a # b # as)) h h'" by (rule confined_mono) auto
    ultimately show ?thesis
      using False n m kvs run ch by (auto simp: remove_loop.simps)
  qed
qed

text \<open>\<open>remove\<close> returns on every well-formed list and removes the first node with the key.\<close>

lemma remove_repr:
  assumes "ll_repr h ll as kvs"
  shows "\<exists>ll' h'. remove str ll h = Some (str \<in> fst ` set kvs, ll', h') \<and>
           ll_repr h' ll' (del_addr str as kvs) (del_first str kvs) \<and> confined (set as) h h'"
proof (cases "Head ll")
  case None
  with assms show ?thesis by (auto simp: remove_def ll_repr_def)
next
  case (Some a)
  with assms obtain n as' kvs' where
    eqs: "as = a # as'" "kvs = (Key n, Data n) # kvs'" and
    n: "cells h a = Some n" "chain (cells h) (Next n) as' kvs'" and
    d: "distinct as" and sz: "Size ll = i64 (int (length kvs))"
    by (auto simp: ll_repr_def chain_Some)
  show ?thesis
  proof (cases "Key n = str")
    case True
    with Some eqs n d sz show ?thesis
      by (auto simp: remove_def ll_repr_def)
  next
    case False
    from n have "chain (cells h) (Some a) (a # as') ((Key n, Data n) # kvs')" by simp
    from remove_loop_chain [OF this] d eqs obtain h' where
      "remove_loop str ll a h = Some (str \<in> fst ` set kvs',
         if str \<in> fst ` set kvs' then ll\<lparr>Size := i64 (Size ll - 1)\<rparr> else ll, h')"
      "chain (cells h') (Some a) (a # del_addr str as' kvs') ((Key n, Data n) # del_first str kvs')"
      "confined (set as) h h'"
      by auto
    moreover have "distinct (del_addr str as kvs)" using d by (rule distinct_del_addr)
    moreover have "int (length kvs') = 1 + int (length kvs' - Suc 0)" if "str \<in> fst ` set kvs'"
      using that by (cases kvs') auto
    ultimately show ?thesis
      using False Some eqs n sz
      by (auto simp: remove_def ll_repr_def length_del_first algebra_simps)
  qed
qed

section \<open>Printing\<close>

definition render :: "(string \<times> string) list \<Rightarrow> string" where
  "render kvs = concat (map (\<lambda>(k, v). k @ '','' @ v @ '' -> '') kvs)"

lemma printlist_loop_chain:
  "chain (cells h) p as kvs \<Longrightarrow> printlist_loop p h out = Some (out @ render kvs @ [CHR 0x0A])"
proof (induction as arbitrary: p kvs out)
  case Nil
  then show ?case by (simp add: printlist_loop.simps render_def)
next
  case (Cons a as)
  then obtain n kvs' where "p = Some a" "kvs = (Key n, Data n) # kvs'" "cells h a = Some n"
    "chain (cells h) (Next n) as kvs'"
    by (cases kvs) (auto split: option.splits)
  with Cons.IH show ?case by (simp add: printlist_loop.simps render_def)
qed

lemma printlist_repr: "ll_repr h ll as kvs \<Longrightarrow> printlist ll h = Some (render kvs @ [CHR 0x0A])"
  unfolding ll_repr_def printlist_def by (metis printlist_loop_chain append_Nil)

section \<open>Properties\<close>

text \<open>
  Removing a key from a linked list returns whether a node has it, unlinks the first
  such node and no other, keeps the size field in step, and printing the list then shows the
  remaining pairs in order; both loops end.
\<close>

theorem remove_then_print:
  assumes "ll_repr h ll as kvs"
  shows "\<exists>ll' h'. remove str ll h = Some (str \<in> fst ` set kvs, ll', h') \<and>
     printlist ll' h' = Some (render (del_first str kvs) @ [CHR 0x0A]) \<and>
     Size ll' = i64 (int (length (del_first str kvs)))"
proof -
  from remove_repr [OF assms, of str] obtain ll' h' where
    r: "remove str ll h = Some (str \<in> fst ` set kvs, ll', h')"
       "ll_repr h' ll' (del_addr str as kvs) (del_first str kvs)" by blast
  from printlist_repr [OF r(2)] r show ?thesis by (auto simp: ll_repr_def)
qed

theorem remove_then_print_witness:
  "\<exists>ll' h'. remove ''a'' (fst (add ''a'' ''1'' newLinkedList empty_heap)) (snd (add ''a'' ''1'' newLinkedList empty_heap))
      = Some (True, ll', h') \<and> printlist ll' h' = Some [CHR 0x0A]"
proof -
  have "heap_ok empty_heap" by (simp add: heap_ok_def empty_heap_def)
  from add_repr [OF this newLinkedList_repr, of "''a''" "''1''"] have
    "ll_repr (snd (add ''a'' ''1'' newLinkedList empty_heap)) (fst (add ''a'' ''1'' newLinkedList empty_heap))
       [fresh empty_heap] [(''a'', ''1'')]" by (simp add: prod_eq_iff)
  from remove_then_print [OF this, of "''a''"] show ?thesis by (auto simp: render_def)
qed

end
