(* ===== verification/KV_HashMap.thy ===== *)
theory KV_HashMap
  imports KV_LinkedList
begin

text \<open>
  The hash table of the key-value store, \<^verbatim>\<open>src/raft/kv_store/hashmap.go\<close>, with the \<open>store\<close>
  struct of \<^verbatim>\<open>restaccess_key_value.go\<close>: 101 buckets of pointer lists.  \<open>Push\<close> adds in front
  without looking for the key, so a key may occur several times in its bucket; the abstract
  state of the table is therefore a stack of values per key (\<open>stack\<close>), of which \<open>Get\<close> sees the
  top, \<open>Put\<close> overwrites the top and \<open>Delete\<close> pops the top.  The locale \<open>kv_table\<close> states this
  contract, and the interpretation \<open>tab\<close> discharges it for the pointer implementation.
\<close>

section \<open>The hash function\<close>

definition prime :: int where
  "prime = 17003"

text \<open>
  \<open>str[i] - 'A'\<close> is a subtraction of bytes, so it wraps around modulo 256 before the
  conversion to \<open>int\<close>; the sign test after it never fires.
\<close>

fun hash_loop :: "string \<Rightarrow> int \<Rightarrow> int" where
  "hash_loop [] res = res"
| "hash_loop (c # cs) res =
     (let x = uint ((of_char c :: 8 word) - 65);
          x1 = (if x < 0 then i64 (- 1 * x) else x);
          res1 = i64 (res + i64 (i64 (res * prime) + x1));
          res2 = go_rem res1 101
      in hash_loop cs res2)"

definition hash :: "string \<Rightarrow> int" where
  "hash str = hash_loop str 1"

lemma byte_range: "0 \<le> uint (w :: 8 word)" "uint (w :: 8 word) < 256"
proof -
  show "0 \<le> uint w" by simp
  show "uint w < 256" using uint_lt2p [of w] by simp
qed

text \<open>One round of the loop without wrap-around: the accumulator stays below 101.\<close>

lemma hash_round:
  assumes "0 \<le> res" and "res \<le> 100"
  shows "hash_loop (c # cs) res = hash_loop cs ((17004 * res + uint ((of_char c :: 8 word) - 65)) mod 101)"
proof -
  let ?x = "uint ((of_char c :: 8 word) - 65)"
  have x: "0 \<le> ?x" "?x < 256" by (rule byte_range)+
  have "i64 (res * 17003) = res * 17003" using assms by (intro i64_id) linarith+
  moreover have "i64 (res + i64 (res * 17003 + ?x)) = 17004 * res + ?x"
    using assms x by (subst i64_id; (subst i64_id)?) linarith+
  moreover have "go_rem (17004 * res + ?x) 101 = (17004 * res + ?x) mod 101"
    using assms x by (intro go_rem_nonneg) linarith+
  moreover have "\<not> ?x < 0" using x by linarith
  ultimately show ?thesis by (simp add: Let_def prime_def del: i64_add_right i64_add_left)
qed

lemma hash_loop_range: "0 \<le> res \<Longrightarrow> res \<le> 100 \<Longrightarrow> 0 \<le> hash_loop cs res \<and> hash_loop cs res \<le> 100"
proof (induction cs arbitrary: res)
  case (Cons c cs)
  let ?r = "(17004 * res + uint ((of_char c :: 8 word) - 65)) mod 101"
  have "?r < 101" by (rule pos_mod_bound) simp
  then have "0 \<le> ?r" "?r \<le> 100" by simp_all
  with Cons show ?case by (simp only: hash_round)
qed simp

lemma hash_range: "0 \<le> hash s" "hash s \<le> 100" "nat (hash s) < 101"
  using hash_loop_range [of 1 s] unfolding hash_def by linarith+

section \<open>The store\<close>

record store =
  db :: "Linkedlist option list"
  filename :: string
  db_temp :: "string \<Rightarrow> string option"
  mem :: heap

text \<open>\<open>kv.db[id]\<close>: an index outside the array panics, which is no normal return.\<close>

definition db_at :: "store \<Rightarrow> int \<Rightarrow> Linkedlist option option" where
  "db_at kv ix = (if 0 \<le> ix \<and> ix < int (length (db kv)) then Some (db kv ! nat ix) else None)"

definition Push :: "string \<Rightarrow> string \<Rightarrow> store \<Rightarrow> store option" where
  "Push key value kv =
     (let ix = hash key
      in Option.bind (db_at kv ix) (\<lambda>slot.
           let ll = (case slot of None \<Rightarrow> newLinkedList | Some ll \<Rightarrow> ll);
               (ll', h') = add key value ll (mem kv)
           in Some (kv\<lparr>db := (db kv)[nat ix := Some ll'], mem := h'\<rparr>)))"

partial_function (option) get_loop :: "string \<Rightarrow> addr option \<Rightarrow> heap \<Rightarrow> string option" where
  "get_loop key newNode h =
     (case newNode of
        None \<Rightarrow> Some ''Invalid''
      | Some a \<Rightarrow>
          Option.bind (cells h a) (\<lambda>n.
            if Key n = key then Some (Data n) else get_loop key (Next n) h))"

definition Get :: "string \<Rightarrow> store \<Rightarrow> string option" where
  "Get key kv =
     Option.bind (db_at kv (hash key)) (\<lambda>slot.
       (case slot of
          None \<Rightarrow> Some ''Invalid''
        | Some ll \<Rightarrow> get_loop key (Head ll) (mem kv)))"

partial_function (option) put_loop :: "string \<Rightarrow> string \<Rightarrow> addr option \<Rightarrow> heap \<Rightarrow> (bool \<times> heap) option" where
  "put_loop key value newNode h =
     (case newNode of
        None \<Rightarrow> Some (False, h)
      | Some a \<Rightarrow>
          Option.bind (cells h a) (\<lambda>n.
            if Key n = key then Some (True, set_data a value h)
            else put_loop key value (Next n) h))"

definition Put :: "string \<Rightarrow> string \<Rightarrow> store \<Rightarrow> (bool \<times> store) option" where
  "Put key value kv =
     Option.bind (db_at kv (hash key)) (\<lambda>slot.
       (case slot of
          None \<Rightarrow> Some (False, kv)
        | Some ll \<Rightarrow>
            map_option (\<lambda>(b, h'). (b, kv\<lparr>mem := h'\<rparr>)) (put_loop key value (Head ll) (mem kv))))"

definition Delete :: "string \<Rightarrow> store \<Rightarrow> (bool \<times> store) option" where
  "Delete key kv =
     (let ix = hash key
      in Option.bind (db_at kv ix) (\<lambda>slot.
           (case slot of
              None \<Rightarrow> Some (False, kv)
            | Some ll \<Rightarrow>
                map_option (\<lambda>(b, ll', h'). (b, kv\<lparr>db := (db kv)[nat ix := Some ll'], mem := h'\<rparr>))
                  (remove key ll (mem kv)))))"

section \<open>Loops on chains\<close>

text \<open>The values of a key in a bucket, front first, and the effect of an update in place.\<close>

fun vals :: "string \<Rightarrow> (string \<times> string) list \<Rightarrow> string list" where
  "vals k [] = []"
| "vals k ((k', v) # kvs) = (if k' = k then v # vals k kvs else vals k kvs)"

fun upd_first :: "string \<Rightarrow> string \<Rightarrow> (string \<times> string) list \<Rightarrow> (string \<times> string) list" where
  "upd_first k v [] = []"
| "upd_first k v ((k', v') # kvs) = (if k' = k then (k', v) # kvs else (k', v') # upd_first k v kvs)"

lemma vals_eq_Nil: "vals k kvs = [] \<longleftrightarrow> k \<notin> fst ` set kvs"
  by (induction k kvs rule: vals.induct) auto

lemma vals_del_first: "vals k' (del_first k kvs) = (if k' = k then tl (vals k kvs) else vals k' kvs)"
  by (induction k kvs rule: del_first.induct) auto

lemma vals_upd_first:
  "vals k' (upd_first k v kvs) =
     (if k' = k \<and> vals k kvs \<noteq> [] then v # tl (vals k kvs) else vals k' kvs)"
  by (induction k v kvs rule: upd_first.induct) auto

lemma keys_del_first: "fst ` set (del_first k kvs) \<subseteq> fst ` set kvs"
  by (induction k kvs rule: del_first.induct) auto

lemma keys_upd_first: "fst ` set (upd_first k v kvs) = fst ` set kvs"
  by (induction k v kvs rule: upd_first.induct) auto

lemma length_upd_first [simp]: "length (upd_first k v kvs) = length kvs"
  by (induction k v kvs rule: upd_first.induct) auto

lemma get_loop_chain:
  "chain (cells h) p as kvs \<Longrightarrow>
     get_loop k p h = Some (case vals k kvs of [] \<Rightarrow> ''Invalid'' | v # _ \<Rightarrow> v)"
proof (induction as arbitrary: p kvs)
  case Nil
  then show ?case by (simp add: get_loop.simps)
next
  case (Cons a as)
  then show ?case by (cases kvs) (auto simp: get_loop.simps split: option.splits)
qed

lemma put_loop_chain:
  "chain (cells h) p as kvs \<Longrightarrow> distinct as \<Longrightarrow>
     \<exists>h'. put_loop k v p h = Some (k \<in> fst ` set kvs, h') \<and>
          chain (cells h') p as (upd_first k v kvs) \<and> confined (set as) h h'"
proof (induction as arbitrary: p kvs)
  case Nil
  then show ?case by (simp add: put_loop.simps)
next
  case (Cons a as)
  from Cons.prems obtain n kvs' where
    n: "p = Some a" "cells h a = Some n" "chain (cells h) (Next n) as kvs'" and
    kvs: "kvs = (Key n, Data n) # kvs'"
    by (cases kvs) (auto split: option.splits)
  show ?case
  proof (cases "Key n = k")
    case True
    then show ?thesis
      using Cons.prems n kvs by (auto simp: put_loop.simps set_data_def confined_def)
  next
    case False
    from Cons.IH [OF n(3)] Cons.prems(2) obtain h' where
      run: "put_loop k v (Next n) h = Some (k \<in> fst ` set kvs', h')" and
      ch: "chain (cells h') (Next n) as (upd_first k v kvs')" and
      conf: "confined (set as) h h'"
      by auto
    from conf Cons.prems(2) have "cells h' a = cells h a" by (auto simp: confined_def)
    moreover from conf have "confined (set (a # as)) h h'" by (rule confined_mono) auto
    ultimately show ?thesis
      using False n kvs run ch by (auto simp: put_loop.simps)
  qed
qed

section \<open>Well-formed stores and their abstract contents\<close>

partial_function (option) chain_list :: "addr option \<Rightarrow> heap \<Rightarrow> (string \<times> string) list option" where
  "chain_list p h =
     (case p of
        None \<Rightarrow> Some []
      | Some a \<Rightarrow>
          Option.bind (cells h a) (\<lambda>n.
            Option.bind (chain_list (Next n) h) (\<lambda>kvs. Some ((Key n, Data n) # kvs))))"

lemma chain_list_chain: "chain (cells h) p as kvs \<Longrightarrow> chain_list p h = Some kvs"
proof (induction as arbitrary: p kvs)
  case Nil
  then show ?case by (simp add: chain_list.simps)
next
  case (Cons a as)
  then show ?case by (cases kvs) (auto simp: chain_list.simps split: option.splits)
qed

text \<open>The stack of values that a store holds for a key, read off the pointer structure.\<close>

definition stack :: "store \<Rightarrow> string \<Rightarrow> string list" where
  "stack kv k =
     (case db_at kv (hash k) of
        Some (Some ll) \<Rightarrow>
          (case chain_list (Head ll) (mem kv) of None \<Rightarrow> [] | Some kvs \<Rightarrow> vals k kvs)
      | _ \<Rightarrow> [])"

definition slot_repr :: "heap \<Rightarrow> Linkedlist option \<Rightarrow> addr list \<Rightarrow> (string \<times> string) list \<Rightarrow> bool" where
  "slot_repr h slot as kvs \<longleftrightarrow>
     (case slot of None \<Rightarrow> as = [] \<and> kvs = [] | Some ll \<Rightarrow> ll_repr h ll as kvs)"

text \<open>
  \<open>store_repr kv A B\<close>: bucket \<open>i\<close> owns the nodes \<open>A i\<close>, which hold the pairs \<open>B i\<close>; buckets do
  not share nodes, and a bucket holds keys of its own hash value only.
\<close>

definition store_repr ::
    "store \<Rightarrow> (nat \<Rightarrow> addr list) \<Rightarrow> (nat \<Rightarrow> (string \<times> string) list) \<Rightarrow> bool" where
  "store_repr kv A B \<longleftrightarrow>
     heap_ok (mem kv) \<and> length (db kv) = 101 \<and>
     (\<forall>i < 101. slot_repr (mem kv) (db kv ! i) (A i) (B i)) \<and>
     (\<forall>i < 101. \<forall>j < 101. i \<noteq> j \<longrightarrow> set (A i) \<inter> set (A j) = {}) \<and>
     (\<forall>i < 101. \<forall>k \<in> fst ` set (B i). nat (hash k) = i)"

definition store_ok :: "store \<Rightarrow> bool" where
  "store_ok kv \<longleftrightarrow> (\<exists>A B. store_repr kv A B)"

lemma store_repr_heap: "store_repr kv A B \<Longrightarrow> heap_ok (mem kv)"
  by (simp add: store_repr_def)

lemma store_repr_keys: "store_repr kv A B \<Longrightarrow> i < 101 \<Longrightarrow> \<forall>k \<in> fst ` set (B i). nat (hash k) = i"
  unfolding store_repr_def by blast

lemma store_repr_slot: "store_repr kv A B \<Longrightarrow>
    \<exists>slot. db_at kv (hash k) = Some slot \<and> db kv ! nat (hash k) = slot \<and>
           slot_repr (mem kv) slot (A (nat (hash k))) (B (nat (hash k)))"
  using hash_range [of k] by (simp add: store_repr_def db_at_def)

lemma stack_repr: "store_repr kv A B \<Longrightarrow> stack kv k = vals k (B (nat (hash k)))"
  using store_repr_slot [of kv A B k]
  by (auto simp: stack_def slot_repr_def ll_repr_def chain_list_chain split: option.splits)

lemma slot_repr_frame:
  assumes "slot_repr h slot as kvs" and "\<And>b. b \<in> set as \<Longrightarrow> cells h' b = cells h b"
  shows "slot_repr h' slot as kvs"
  using assms chain_cong [of as "cells h'" "cells h"]
  by (auto simp: slot_repr_def ll_repr_def split: option.splits)

lemma slot_repr_below: "heap_ok h \<Longrightarrow> slot_repr h slot as kvs \<Longrightarrow> fresh h \<notin> set as"
  using heap_ok_chain_below by (auto simp: slot_repr_def ll_repr_def split: option.splits)

text \<open>One bucket changes, the others are framed.\<close>

lemma store_repr_update:
  assumes repr: "store_repr kv A B" and i: "i < 101"
    and slot: "slot_repr h' slot' as' kvs'" and ok: "heap_ok h'"
    and frame: "\<And>b. b \<notin> set (A i) \<Longrightarrow> b \<noteq> fresh (mem kv) \<Longrightarrow> cells h' b = cells (mem kv) b"
    and sub: "set as' \<subseteq> insert (fresh (mem kv)) (set (A i))"
    and keys: "\<forall>k \<in> fst ` set kvs'. nat (hash k) = i"
  shows "store_repr (kv\<lparr>db := (db kv)[i := slot'], mem := h'\<rparr>) (A(i := as')) (B(i := kvs'))"
proof -
  have below: "fresh (mem kv) \<notin> set (A j)" if "j < 101" for j
    using repr that slot_repr_below by (auto simp: store_repr_def)
  have disj: "set (A i) \<inter> set (A j) = {}" if "j < 101" "j \<noteq> i" for j
    using repr that i unfolding store_repr_def by auto
  have other: "slot_repr h' (db kv ! j) (A j) (B j)" if "j < 101" "j \<noteq> i" for j
  proof (rule slot_repr_frame)
    show "slot_repr (mem kv) (db kv ! j) (A j) (B j)" using repr that by (simp add: store_repr_def)
    fix b assume "b \<in> set (A j)"
    then show "cells h' b = cells (mem kv) b"
      using below [OF that(1)] disj [OF that] by (intro frame) auto
  qed
  have "set as' \<inter> set (A j) = {}" if "j < 101" "j \<noteq> i" for j
    using sub below [OF that(1)] disj [OF that] by auto
  then show ?thesis
    using repr i slot ok keys other unfolding store_repr_def
    by (auto simp: nth_list_update Int_commute)
qed

section \<open>The operations on well-formed stores\<close>

lemma Get_repr:
  "store_repr kv A B \<Longrightarrow>
     Get k kv = Some (case vals k (B (nat (hash k))) of [] \<Rightarrow> ''Invalid'' | v # _ \<Rightarrow> v)"
  using store_repr_slot [of kv A B k] get_loop_chain
  by (auto simp: Get_def slot_repr_def ll_repr_def split: option.splits)

lemma Push_repr:
  assumes "store_repr kv A B"
  shows "\<exists>kv' as. Push k v kv = Some kv' \<and>
           store_repr kv' (A(nat (hash k) := as)) (B(nat (hash k) := (k, v) # B (nat (hash k)))) \<and>
           filename kv' = filename kv \<and> db_temp kv' = db_temp kv"
proof -
  let ?i = "nat (hash k)"
  have i: "?i < 101" by (rule hash_range)
  have ok: "heap_ok (mem kv)" using assms by (simp add: store_repr_def)
  obtain slot where slot: "db_at kv (hash k) = Some slot" "slot_repr (mem kv) slot (A ?i) (B ?i)"
    using store_repr_slot [OF assms, of k] by auto
  define ll where "ll = (case slot of None \<Rightarrow> newLinkedList | Some ll \<Rightarrow> ll)"
  have ll: "ll_repr (mem kv) ll (A ?i) (B ?i)"
    using slot(2) newLinkedList_repr by (cases slot) (simp_all add: slot_repr_def ll_def)
  obtain ll' h' where add: "add k v ll (mem kv) = (ll', h')" by fastforce
  have slot': "slot_repr h' (Some ll') (fresh (mem kv) # A ?i) ((k, v) # B ?i)"
    using add_repr [OF ok ll add] by (simp add: slot_repr_def)
  have frame: "cells h' b = cells (mem kv) b" if "b \<noteq> fresh (mem kv)" for b
    using add that by (auto simp: add_eq)
  have keys: "\<forall>k' \<in> fst ` set ((k, v) # B ?i). nat (hash k') = ?i"
    using store_repr_keys [OF assms i] by simp
  have "store_repr (kv\<lparr>db := (db kv)[?i := Some ll'], mem := h'\<rparr>)
      (A(?i := fresh (mem kv) # A ?i)) (B(?i := (k, v) # B ?i))"
    by (rule store_repr_update [OF assms i slot' add_heap_ok [OF ok add] frame _ keys]) auto
  moreover have "Push k v kv = Some (kv\<lparr>db := (db kv)[?i := Some ll'], mem := h'\<rparr>)"
    using slot(1) add by (simp add: Push_def Let_def ll_def [symmetric])
  ultimately show ?thesis by auto
qed

lemma Put_repr:
  assumes "store_repr kv A B"
  shows "\<exists>kv'. Put k v kv = Some (k \<in> fst ` set (B (nat (hash k))), kv') \<and>
           store_repr kv' A (B(nat (hash k) := upd_first k v (B (nat (hash k))))) \<and>
           filename kv' = filename kv \<and> db_temp kv' = db_temp kv"
proof -
  let ?i = "nat (hash k)"
  have i: "?i < 101" by (rule hash_range)
  obtain slot where slot: "db_at kv (hash k) = Some slot" "db kv ! ?i = slot"
      "slot_repr (mem kv) slot (A ?i) (B ?i)"
    using store_repr_slot [OF assms, of k] by auto
  show ?thesis
  proof (cases slot)
    case None
    with slot assms show ?thesis by (auto simp: Put_def slot_repr_def fun_upd_idem)
  next
    case (Some ll)
    with slot have ll: "chain (cells (mem kv)) (Head ll) (A ?i) (B ?i)" "distinct (A ?i)"
      "Size ll = i64 (int (length (B ?i)))"
      by (auto simp: slot_repr_def ll_repr_def)
    from put_loop_chain [OF ll(1,2), of k v] obtain h' where
      run: "put_loop k v (Head ll) (mem kv) = Some (k \<in> fst ` set (B ?i), h')" and
      ch: "chain (cells h') (Head ll) (A ?i) (upd_first k v (B ?i))" and
      conf: "confined (set (A ?i)) (mem kv) h'"
      by blast
    have slot': "slot_repr h' (Some ll) (A ?i) (upd_first k v (B ?i))"
      using ch ll by (simp add: slot_repr_def ll_repr_def)
    have keys: "\<forall>k' \<in> fst ` set (upd_first k v (B ?i)). nat (hash k') = ?i"
      unfolding keys_upd_first by (rule store_repr_keys [OF assms i])
    have "store_repr (kv\<lparr>db := (db kv)[?i := Some ll], mem := h'\<rparr>)
        (A(?i := A ?i)) (B(?i := upd_first k v (B ?i)))"
      by (rule store_repr_update [OF assms i slot' confined_heap_ok [OF conf store_repr_heap [OF assms]]
            confined_cells [OF conf] _ keys]) auto
    moreover have "(db kv)[?i := Some ll] = db kv" using slot(2) Some by (metis list_update_id)
    ultimately show ?thesis using slot Some run by (simp add: Put_def)
  qed
qed

lemma Delete_repr:
  assumes "store_repr kv A B"
  shows "\<exists>kv' as. Delete k kv = Some (k \<in> fst ` set (B (nat (hash k))), kv') \<and>
           store_repr kv' (A(nat (hash k) := as)) (B(nat (hash k) := del_first k (B (nat (hash k))))) \<and>
           filename kv' = filename kv \<and> db_temp kv' = db_temp kv"
proof -
  let ?i = "nat (hash k)"
  have i: "?i < 101" by (rule hash_range)
  obtain slot where slot: "db_at kv (hash k) = Some slot" "db kv ! ?i = slot"
      "slot_repr (mem kv) slot (A ?i) (B ?i)"
    using store_repr_slot [OF assms, of k] by auto
  show ?thesis
  proof (cases slot)
    case None
    with slot assms show ?thesis
      by (auto simp: Delete_def slot_repr_def fun_upd_idem intro!: exI [of _ "[]"])
  next
    case (Some ll)
    with slot have ll: "ll_repr (mem kv) ll (A ?i) (B ?i)" by (simp add: slot_repr_def)
    from remove_repr [OF ll, of k] obtain ll' h' where
      run: "remove k ll (mem kv) = Some (k \<in> fst ` set (B ?i), ll', h')" and
      re: "ll_repr h' ll' (del_addr k (A ?i) (B ?i)) (del_first k (B ?i))" and
      conf: "confined (set (A ?i)) (mem kv) h'"
      by blast
    from re have slot': "slot_repr h' (Some ll') (del_addr k (A ?i) (B ?i)) (del_first k (B ?i))"
      by (simp add: slot_repr_def)
    have keys: "\<forall>k' \<in> fst ` set (del_first k (B ?i)). nat (hash k') = ?i"
      using store_repr_keys [OF assms i] keys_del_first [of k "B ?i"] by blast
    have "store_repr (kv\<lparr>db := (db kv)[?i := Some ll'], mem := h'\<rparr>)
        (A(?i := del_addr k (A ?i) (B ?i))) (B(?i := del_first k (B ?i)))"
      using set_del_addr [of k "A ?i" "B ?i"]
      by (intro store_repr_update [OF assms i slot' confined_heap_ok [OF conf store_repr_heap [OF assms]]
            confined_cells [OF conf] _ keys]) auto
    then show ?thesis using slot Some run by (auto simp: Delete_def Let_def)
  qed
qed

section \<open>The contract of the table\<close>

text \<open>The stacks of a table in which no key occurs twice: a finite map.\<close>

definition stacks :: "(string \<Rightarrow> string option) \<Rightarrow> string \<Rightarrow> string list" where
  "stacks m k = (case m k of None \<Rightarrow> [] | Some v \<Rightarrow> [v])"

lemma stacks_simps [simp]:
  "stacks m k = [] \<longleftrightarrow> m k = None"
  "m k = None \<Longrightarrow> stacks m k = []"
  "m k = Some v \<Longrightarrow> stacks m k = [v]"
  by (simp_all add: stacks_def split: option.splits)

lemma stacks_upd:
  "(stacks m)(k := [v]) = stacks (m(k := Some v))"
  "(stacks m)(k := []) = stacks (m(k := None))"
  by (auto simp: stacks_def fun_eq_iff)

text \<open>
  What a client of the hash table may rely on, whatever the representation: every operation
  returns, keeps the invariant, and acts on the stack of values of its key only.
\<close>

locale kv_table =
  fixes inv :: "'s \<Rightarrow> bool"
    and st :: "'s \<Rightarrow> string \<Rightarrow> string list"
    and get :: "string \<Rightarrow> 's \<Rightarrow> string option"
    and push :: "string \<Rightarrow> string \<Rightarrow> 's \<Rightarrow> 's option"
    and put :: "string \<Rightarrow> string \<Rightarrow> 's \<Rightarrow> (bool \<times> 's) option"
    and del :: "string \<Rightarrow> 's \<Rightarrow> (bool \<times> 's) option"
  assumes get_law: "inv s \<Longrightarrow> get k s = Some (case st s k of [] \<Rightarrow> ''Invalid'' | v # _ \<Rightarrow> v)"
    and push_law: "inv s \<Longrightarrow> \<exists>s'. push k v s = Some s' \<and> inv s' \<and> st s' = (st s)(k := v # st s k)"
    and put_law: "inv s \<Longrightarrow> \<exists>s'. put k v s = Some (st s k \<noteq> [], s') \<and> inv s' \<and>
                    st s' = (if st s k = [] then st s else (st s)(k := v # tl (st s k)))"
    and del_law: "inv s \<Longrightarrow> \<exists>s'. del k s = Some (st s k \<noteq> [], s') \<and> inv s' \<and>
                    st s' = (st s)(k := tl (st s k))"
begin

lemma get_absent: "inv s \<Longrightarrow> st s k = [] \<Longrightarrow> get k s = Some ''Invalid''"
  by (simp add: get_law)

lemma get_after_push: "inv s \<Longrightarrow> push k v s = Some s' \<Longrightarrow> get k' s' = (if k' = k then Some v else get k' s)"
  using push_law [of s k v] by (auto simp: get_law)

lemma get_after_put:
  "inv s \<Longrightarrow> put k v s = Some (b, s') \<Longrightarrow> get k' s' = (if k' = k \<and> b then Some v else get k' s)"
  using put_law [of s k v] by (auto simp: get_law)

lemma push_del_cancel:
  "inv s \<Longrightarrow> push k v s = Some s1 \<Longrightarrow> del k s1 = Some (b, s2) \<Longrightarrow> b \<and> st s2 = st s"
  using push_law [of s k v] del_law [of s1 k] by auto

end

text \<open>
  The table together with the part of the state that its operations leave alone.  As long as
  nobody pushes a key that is present, the table is a finite map.
\<close>

locale kv_table_framed = kv_table inv st get push put del
  for inv :: "'s \<Rightarrow> bool" and st :: "'s \<Rightarrow> string \<Rightarrow> string list"
    and get :: "string \<Rightarrow> 's \<Rightarrow> string option" and push :: "string \<Rightarrow> string \<Rightarrow> 's \<Rightarrow> 's option"
    and put :: "string \<Rightarrow> string \<Rightarrow> 's \<Rightarrow> (bool \<times> 's) option"
    and del :: "string \<Rightarrow> 's \<Rightarrow> (bool \<times> 's) option" +
  fixes rest :: "'s \<Rightarrow> 'r"
  assumes push_rest: "inv s \<Longrightarrow> push k v s = Some s' \<Longrightarrow> rest s' = rest s"
    and put_rest: "inv s \<Longrightarrow> put k v s = Some (b, s') \<Longrightarrow> rest s' = rest s"
    and del_rest: "inv s \<Longrightarrow> del k s = Some (b, s') \<Longrightarrow> rest s' = rest s"
begin

lemma get_map:
  "inv s \<Longrightarrow> st s = stacks m \<Longrightarrow> get k s = Some (case m k of None \<Rightarrow> ''Invalid'' | Some v \<Rightarrow> v)"
  by (simp add: get_law stacks_def split: option.splits)

lemma push_map:
  assumes "inv s" and "st s = stacks m" and "m k = None"
  shows "\<exists>s'. push k v s = Some s' \<and> inv s' \<and> st s' = stacks (m(k := Some v)) \<and> rest s' = rest s"
proof -
  from push_law [OF assms(1), of k v] obtain s' where
    s': "push k v s = Some s'" "inv s'" "st s' = (st s)(k := v # st s k)" by blast
  with push_rest [OF assms(1) s'(1)] assms(2,3) show ?thesis by (auto simp: stacks_upd)
qed

lemma put_map:
  assumes "inv s" and "st s = stacks m"
  shows "\<exists>s'. put k v s = Some (m k \<noteq> None, s') \<and> inv s' \<and>
           st s' = stacks (if m k = None then m else m(k := Some v)) \<and> rest s' = rest s"
proof -
  from put_law [OF assms(1), of k v] obtain s' where
    s': "put k v s = Some (st s k \<noteq> [], s')" "inv s'"
        "st s' = (if st s k = [] then st s else (st s)(k := v # tl (st s k)))" by blast
  with put_rest [OF assms(1) s'(1)] assms(2) show ?thesis by (auto simp: stacks_upd)
qed

lemma del_map:
  assumes "inv s" and "st s = stacks m"
  shows "\<exists>s'. del k s = Some (m k \<noteq> None, s') \<and> inv s' \<and>
           st s' = stacks (m(k := None)) \<and> rest s' = rest s"
proof -
  from del_law [OF assms(1), of k] obtain s' where
    s': "del k s = Some (st s k \<noteq> [], s')" "inv s'" "st s' = (st s)(k := tl (st s k))" by blast
  have "tl (stacks m k) = []" by (simp add: stacks_def split: option.splits)
  with s' del_rest [OF assms(1) s'(1)] assms(2) show ?thesis by (auto simp: stacks_upd)
qed

end

lemma stack_fun_upd:
  assumes "store_repr kv A B" and "store_repr kv' A' (B(nat (hash k) := kvs))"
    and "\<And>k'. k' \<noteq> k \<Longrightarrow> vals k' kvs = vals k' (B (nat (hash k)))"
  shows "stack kv' = (stack kv)(k := vals k kvs)"
  using assms by (intro ext) (simp add: stack_repr)

lemma Get_stack: "store_ok kv \<Longrightarrow> Get k kv = Some (case stack kv k of [] \<Rightarrow> ''Invalid'' | v # _ \<Rightarrow> v)"
  by (auto simp: store_ok_def Get_repr stack_repr)

lemma Push_stack:
  assumes "store_ok kv"
  shows "\<exists>kv'. Push k v kv = Some kv' \<and> store_ok kv' \<and> stack kv' = (stack kv)(k := v # stack kv k) \<and>
           filename kv' = filename kv \<and> db_temp kv' = db_temp kv"
proof -
  from assms obtain A B where r: "store_repr kv A B" by (auto simp: store_ok_def)
  from Push_repr [OF r, of k v] obtain kv' as where
    p: "Push k v kv = Some kv'" "filename kv' = filename kv" "db_temp kv' = db_temp kv" and
    r': "store_repr kv' (A(nat (hash k) := as)) (B(nat (hash k) := (k, v) # B (nat (hash k))))"
    by blast
  from stack_fun_upd [OF r r'] r have "stack kv' = (stack kv)(k := v # stack kv k)"
    by (simp add: stack_repr)
  with p r' show ?thesis by (auto simp: store_ok_def)
qed

lemma Put_stack:
  assumes "store_ok kv"
  shows "\<exists>kv'. Put k v kv = Some (stack kv k \<noteq> [], kv') \<and> store_ok kv' \<and>
           stack kv' = (if stack kv k = [] then stack kv else (stack kv)(k := v # tl (stack kv k))) \<and>
           filename kv' = filename kv \<and> db_temp kv' = db_temp kv"
proof -
  from assms obtain A B where r: "store_repr kv A B" by (auto simp: store_ok_def)
  let ?kvs = "B (nat (hash k))"
  from Put_repr [OF r, of k v] obtain kv' where
    p: "Put k v kv = Some (k \<in> fst ` set ?kvs, kv')" "filename kv' = filename kv" "db_temp kv' = db_temp kv" and
    r': "store_repr kv' A (B(nat (hash k) := upd_first k v ?kvs))"
    by blast
  from stack_fun_upd [OF r r'] r
  have "stack kv' = (if stack kv k = [] then stack kv else (stack kv)(k := v # tl (stack kv k)))"
    by (auto simp: stack_repr vals_upd_first fun_upd_idem)
  with p r' r show ?thesis by (auto simp: store_ok_def stack_repr vals_eq_Nil)
qed

lemma Delete_stack:
  assumes "store_ok kv"
  shows "\<exists>kv'. Delete k kv = Some (stack kv k \<noteq> [], kv') \<and> store_ok kv' \<and>
           stack kv' = (stack kv)(k := tl (stack kv k)) \<and>
           filename kv' = filename kv \<and> db_temp kv' = db_temp kv"
proof -
  from assms obtain A B where r: "store_repr kv A B" by (auto simp: store_ok_def)
  let ?kvs = "B (nat (hash k))"
  from Delete_repr [OF r, of k] obtain kv' as where
    p: "Delete k kv = Some (k \<in> fst ` set ?kvs, kv')" "filename kv' = filename kv" "db_temp kv' = db_temp kv" and
    r': "store_repr kv' (A(nat (hash k) := as)) (B(nat (hash k) := del_first k ?kvs))"
    by blast
  from stack_fun_upd [OF r r'] r have "stack kv' = (stack kv)(k := tl (stack kv k))"
    by (simp add: stack_repr vals_del_first)
  with p r' r show ?thesis by (auto simp: store_ok_def stack_repr vals_eq_Nil)
qed

text \<open>The pointer implementation provides the contract.\<close>

interpretation tab: kv_table_framed store_ok stack Get Push Put Delete "\<lambda>s. (filename s, db_temp s)"
proof unfold_locales
  fix s s' k v b
  assume ok: "store_ok s"
  show "Get k s = Some (case stack s k of [] \<Rightarrow> ''Invalid'' | v # _ \<Rightarrow> v)"
    using ok by (rule Get_stack)
  show "\<exists>s'. Push k v s = Some s' \<and> store_ok s' \<and> stack s' = (stack s)(k := v # stack s k)"
    using Push_stack [OF ok, of k v] by blast
  show "\<exists>s'. Put k v s = Some (stack s k \<noteq> [], s') \<and> store_ok s' \<and>
          stack s' = (if stack s k = [] then stack s else (stack s)(k := v # tl (stack s k)))"
    using Put_stack [OF ok, of k v] by blast
  show "\<exists>s'. Delete k s = Some (stack s k \<noteq> [], s') \<and> store_ok s' \<and>
          stack s' = (stack s)(k := tl (stack s k))"
    using Delete_stack [OF ok, of k] by blast
  show "Push k v s = Some s' \<Longrightarrow> (filename s', db_temp s') = (filename s, db_temp s)"
    using Push_stack [OF ok, of k v] by auto
  show "Put k v s = Some (b, s') \<Longrightarrow> (filename s', db_temp s') = (filename s, db_temp s)"
    using Put_stack [OF ok, of k v] by auto
  show "Delete k s = Some (b, s') \<Longrightarrow> (filename s', db_temp s') = (filename s, db_temp s)"
    using Delete_stack [OF ok, of k] by auto
qed

section \<open>Properties\<close>

text \<open>The hash over the integers.\<close>

definition hash_spec :: "string \<Rightarrow> int" where
  "hash_spec str = foldl (\<lambda>res c. (17004 * res + (int (of_char c) - 65) mod 256) mod 101) 1 str"

lemma byte_diff: "uint ((of_char c :: 8 word) - 65) = (int (of_char c) - 65) mod 256"
proof -
  have "of_char c = (of_nat (of_char c :: nat) :: 8 word)" by (rule of_nat_of_char [symmetric])
  moreover have "uint (of_nat n :: 8 word) = int n mod 256" for n
    by (simp add: unsigned_of_nat take_bit_eq_mod zmod_int)
  ultimately have "uint (of_char c :: 8 word) = int (of_char c) mod 256" by metis
  then show ?thesis by (simp add: uint_word_ariths mod_diff_left_eq)
qed

lemma hash_loop_spec:
  "0 \<le> res \<Longrightarrow> res \<le> 100 \<Longrightarrow>
     hash_loop cs res = foldl (\<lambda>res c. (17004 * res + (int (of_char c) - 65) mod 256) mod 101) res cs"
proof (induction cs arbitrary: res)
  case (Cons c cs)
  let ?r = "(17004 * res + (int (of_char c) - 65) mod 256) mod 101"
  have "?r < 101" "0 \<le> ?r" by simp_all
  then have "0 \<le> ?r" "?r \<le> 100" by linarith+
  from Cons.IH [OF this] hash_round [OF Cons.prems] show ?case by (simp add: byte_diff)
qed simp

text \<open>
  The slot of a key is always inside the table of 101 slots, and the 64-bit arithmetic
  never wraps around: the hash is the value of the recurrence over the integers modulo 101,
  in which the difference of a byte and the letter A is taken modulo 256.
\<close>

theorem hash_never_wraps: "hash str = hash_spec str \<and> 0 \<le> hash str \<and> hash str < 101"
  using hash_range [of str] hash_loop_spec [of 1 str] by (simp add: hash_def hash_spec_def)

end
