(* ===== verification/KV_Store.thy ===== *)
theory KV_Store
  imports KV_HashMap
begin

text \<open>
  The key-value store process: the HTTP handlers of
  \<^verbatim>\<open>src/raft/kv_store/restaccess_key_value.go\<close>, which hold the store's mutex from the lookup to
  the write of the file and so are atomic, and the persistence of \<^verbatim>\<open>src/raft/kv_store/saved.go\<close>.
  The state is the store and the file system.  A handler returns \<open>None\<close> when the code does not
  return: a failing \<open>os.Create\<close> or \<open>os.Open\<close> exits the process.
  The lemmas show that the handlers implement a finite map with a one-line reply per
  request, and what a restart recovers from the file.
\<close>

section \<open>Files\<close>

text \<open>
  \<open>os.Create\<close> leaves an empty file; encoding fills it.  The codec of \<^verbatim>\<open>encoding/gob\<close> is the
  identity on a \<open>map[string]string\<close>: a file holds the encoded map.
\<close>

datatype disk_file = Truncated | Gob "string \<Rightarrow> string option"

type_synonym filesystem = "string \<Rightarrow> disk_file option"

text \<open>The write of the file in its two steps; \<open>io\<close> says whether the OS opens the file.\<close>

definition create_file :: "store \<Rightarrow> filesystem \<Rightarrow> filesystem" where
  "create_file kv fs = fs(filename kv := Some Truncated)"

definition encode_file :: "store \<Rightarrow> filesystem \<Rightarrow> filesystem" where
  "encode_file kv fs = fs(filename kv := Some (Gob (db_temp kv)))"

definition writeFile :: "bool \<Rightarrow> store \<Rightarrow> filesystem \<Rightarrow> filesystem option" where
  "writeFile io kv fs = (if \<not> io then None else Some (encode_file kv (create_file kv fs)))"

definition Persist :: "bool \<Rightarrow> store \<Rightarrow> filesystem \<Rightarrow> filesystem option" where
  "Persist io kv fs = writeFile io kv fs"

definition HasData :: "store \<Rightarrow> filesystem \<Rightarrow> bool" where
  "HasData kv fs =
     (case fs (filename kv) of
        None \<Rightarrow> False
      | Some Truncated \<Rightarrow> False
      | Some (Gob m) \<Rightarrow> True)"

text \<open>
  The loop over \<open>db_temp\<close>.  Go iterates over a map in an unspecified order: \<open>order\<close> lists the
  keys in the order of this run.
\<close>

fun push_loop :: "string list \<Rightarrow> store \<Rightarrow> store option" where
  "push_loop [] kv = Some kv"
| "push_loop (key # order) kv =
     (case db_temp kv key of
        None \<Rightarrow> push_loop order kv
      | Some value \<Rightarrow>
          if value \<noteq> [] then Option.bind (Push key value kv) (push_loop order)
          else push_loop order kv)"

text \<open>Decoding into the existing map adds the file's entries to it.\<close>

definition readFile :: "bool \<Rightarrow> string list \<Rightarrow> store \<Rightarrow> filesystem \<Rightarrow> store option" where
  "readFile io order kv fs =
     (if \<not> io then None
      else case fs (filename kv) of
             Some (Gob m) \<Rightarrow> push_loop order (kv\<lparr>db_temp := db_temp kv ++ m\<rparr>)
           | _ \<Rightarrow> None)"

definition Recover :: "bool \<Rightarrow> string list \<Rightarrow> store \<Rightarrow> filesystem \<Rightarrow> store option" where
  "Recover io order kv fs = readFile io order kv fs"

definition InitializeStore :: "bool \<Rightarrow> string list \<Rightarrow> string \<Rightarrow> filesystem \<Rightarrow> store option" where
  "InitializeStore io order fname fs =
     (let kv = \<lparr>db = replicate 101 None, filename = fname, db_temp = (\<lambda>_. None), mem = empty_heap\<rparr>
      in if HasData kv fs then Recover io order kv fs else Some kv)"

section \<open>Handlers\<close>

text \<open>
  A request as \<open>net/http\<close> and the router hand it over: the result of parsing the form, its
  fields, and the key in the path.  \<open>FormValue\<close> of an absent field is the empty string.
\<close>

record request =
  parse_error :: "string option"
  form :: "string \<Rightarrow> string option"
  url_key :: string

record response =
  status :: int
  header :: "(string \<times> string) list"
  body :: string

definition FormValue :: "request \<Rightarrow> string \<Rightarrow> string" where
  "FormValue r x = (case form r x of None \<Rightarrow> [] | Some v \<Rightarrow> v)"

definition nl :: string where
  "nl = [CHR 0x0A]"

definition json_close :: "(string \<times> string) list" where
  "json_close = [(''Content-Type'', ''application/json''), (''Connection'', ''close'')]"

definition reply :: "int \<Rightarrow> string \<Rightarrow> response" where
  "reply s b = \<lparr>status = s, header = json_close, body = b\<rparr>"

definition KvstoreHandler :: response where
  "KvstoreHandler = \<lparr>status = 200, header = [], body = ''KEY VALUE STORE !!!''\<rparr>"

type_synonym kv_result = "(response \<times> store \<times> filesystem) option"

definition persisted :: "bool \<Rightarrow> response \<Rightarrow> store \<Rightarrow> filesystem \<Rightarrow> kv_result" where
  "persisted io resp kv fs = map_option (\<lambda>fs'. (resp, kv, fs')) (Persist io kv fs)"

definition PostHandler :: "bool \<Rightarrow> request \<Rightarrow> store \<Rightarrow> filesystem \<Rightarrow> kv_result" where
  "PostHandler io r kv fs =
     (case parse_error r of
        Some err \<Rightarrow> Some (reply 201 (''ParseForm() err: '' @ err), kv, fs)
      | None \<Rightarrow>
          (let value = FormValue r ''value''; key = url_key r
           in Option.bind (Get key kv) (\<lambda>duplicate.
                if duplicate = ''Invalid'' then
                  Option.bind (Push key value kv) (\<lambda>kv1.
                    persisted io (reply 201 (''Key = '' @ key @ nl @ ''Value = '' @ value @ nl))
                      (kv1\<lparr>db_temp := (db_temp kv1)(key := Some value)\<rparr>) fs)
                else persisted io (reply 201 ''This key already exists'') kv fs)))"

definition GetHandler :: "request \<Rightarrow> store \<Rightarrow> filesystem \<Rightarrow> kv_result" where
  "GetHandler r kv fs =
     Option.bind (Get (url_key r) kv) (\<lambda>value.
       if value = ''Invalid'' then Some (reply 200 (''Invalid key value pair'' @ nl), kv, fs)
       else Some (reply 200 (''Value = '' @ value @ nl), kv, fs))"

definition PutHandler :: "bool \<Rightarrow> request \<Rightarrow> store \<Rightarrow> filesystem \<Rightarrow> kv_result" where
  "PutHandler io r kv fs =
     (case parse_error r of
        Some err \<Rightarrow> Some (reply 202 (''ParseForm() err: '' @ err), kv, fs)
      | None \<Rightarrow>
          (let value = FormValue r ''value''; key = url_key r
           in Option.bind (Put key value kv) (\<lambda>(ok, kv1).
                if ok = True then
                  persisted io (reply 202 (''Key = '' @ key @ nl @ ''Value = '' @ value @ nl))
                    (kv1\<lparr>db_temp := (db_temp kv1)(key := Some value)\<rparr>) fs
                else persisted io (reply 202 (''Invalid key value pair'' @ nl)) kv1 fs)))"

definition DeleteHandler :: "bool \<Rightarrow> request \<Rightarrow> store \<Rightarrow> filesystem \<Rightarrow> kv_result" where
  "DeleteHandler io r kv fs =
     (let key = url_key r
      in Option.bind (Delete key kv) (\<lambda>(ok, kv1).
           if ok = True then
             persisted io (reply 200 (''Removed Key = '' @ key @ nl))
               (kv1\<lparr>db_temp := (db_temp kv1)(key := Some [])\<rparr>) fs
           else persisted io (reply 200 (''Invalid key value pair'' @ nl)) kv1 fs))"

datatype kv_op = POST | GET | PUT | DELETE

definition kv_handle :: "bool \<Rightarrow> kv_op \<Rightarrow> request \<Rightarrow> store \<times> filesystem \<Rightarrow> kv_result" where
  "kv_handle io opr r s =
     (case opr of
        POST \<Rightarrow> PostHandler io r (fst s) (snd s)
      | GET \<Rightarrow> GetHandler r (fst s) (snd s)
      | PUT \<Rightarrow> PutHandler io r (fst s) (snd s)
      | DELETE \<Rightarrow> DeleteHandler io r (fst s) (snd s))"

text \<open>A run of the server: the replies to a sequence of requests.\<close>

fun kv_run :: "(kv_op \<times> request) list \<Rightarrow> store \<times> filesystem \<Rightarrow> (response list \<times> store \<times> filesystem) option" where
  "kv_run [] s = Some ([], s)"
| "kv_run ((opr, r) # reqs) s =
     Option.bind (kv_handle True opr r s) (\<lambda>(resp, s1).
       Option.bind (kv_run reqs s1) (\<lambda>(resps, s2). Some (resp # resps, s2)))"

section \<open>What the server promises\<close>

text \<open>
  The specification: a finite map and one reply per request.
\<close>

definition kv_spec ::
    "kv_op \<Rightarrow> request \<Rightarrow> (string \<Rightarrow> string option) \<Rightarrow> response \<times> (string \<Rightarrow> string option)" where
  "kv_spec opr r m =
     (let k = url_key r; v = FormValue r ''value''
      in case opr of
           GET \<Rightarrow>
             (case m k of
                None \<Rightarrow> (reply 200 (''Invalid key value pair'' @ nl), m)
              | Some x \<Rightarrow> (reply 200 (''Value = '' @ x @ nl), m))
         | DELETE \<Rightarrow>
             (case m k of
                None \<Rightarrow> (reply 200 (''Invalid key value pair'' @ nl), m)
              | Some x \<Rightarrow> (reply 200 (''Removed Key = '' @ k @ nl), m(k := None)))
         | POST \<Rightarrow>
             (case parse_error r of
                Some e \<Rightarrow> (reply 201 (''ParseForm() err: '' @ e), m)
              | None \<Rightarrow>
                  (case m k of
                     None \<Rightarrow> (reply 201 (''Key = '' @ k @ nl @ ''Value = '' @ v @ nl), m(k := Some v))
                   | Some x \<Rightarrow> (reply 201 ''This key already exists'', m)))
         | PUT \<Rightarrow>
             (case parse_error r of
                Some e \<Rightarrow> (reply 202 (''ParseForm() err: '' @ e), m)
              | None \<Rightarrow>
                  (case m k of
                     None \<Rightarrow> (reply 202 (''Invalid key value pair'' @ nl), m)
                   | Some x \<Rightarrow> (reply 202 (''Key = '' @ k @ nl @ ''Value = '' @ v @ nl), m(k := Some v)))))"

fun kv_spec_run ::
    "(kv_op \<times> request) list \<Rightarrow> (string \<Rightarrow> string option) \<Rightarrow> response list \<times> (string \<Rightarrow> string option)" where
  "kv_spec_run [] m = ([], m)"
| "kv_spec_run ((opr, r) # reqs) m =
     (let (resp, m1) = kv_spec opr r m; (resps, m2) = kv_spec_run reqs m1 in (resp # resps, m2))"

text \<open>
  The text \<open>Invalid\<close> stands for absence in the code; a request is \<open>plain\<close> when it does not
  store it as a value.
\<close>

definition plain :: "request \<Rightarrow> bool" where
  "plain r \<longleftrightarrow> FormValue r ''value'' \<noteq> ''Invalid''"

text \<open>
  The simulation relation.  \<open>db_temp\<close> is the shadow of the table that is written to the
  file; a deleted key stays in it with the empty string as a tombstone.
\<close>

definition shadows :: "(string \<Rightarrow> string option) \<Rightarrow> (string \<Rightarrow> string option) \<Rightarrow> bool" where
  "shadows t m \<longleftrightarrow> (\<forall>k v. m k = Some v \<longrightarrow> t k = Some v) \<and>
     (\<forall>k. m k = None \<longrightarrow> t k = None \<or> t k = Some [])"

definition on_disk :: "store \<Rightarrow> filesystem \<Rightarrow> bool" where
  "on_disk kv fs \<longleftrightarrow>
     fs (filename kv) = Some (Gob (db_temp kv)) \<or>
     (fs (filename kv) \<in> {None, Some Truncated} \<and> db_temp kv = (\<lambda>_. None))"

definition kv_rel :: "(string \<Rightarrow> string option) \<Rightarrow> store \<times> filesystem \<Rightarrow> bool" where
  "kv_rel m s \<longleftrightarrow>
     store_ok (fst s) \<and> stack (fst s) = stacks m \<and> (\<forall>k. m k \<noteq> Some ''Invalid'') \<and>
     shadows (db_temp (fst s)) m \<and> on_disk (fst s) (snd s)"

lemma shadows_upd [simp]: "shadows t m \<Longrightarrow> shadows (t(k := Some v)) (m(k := Some v))"
  by (auto simp: shadows_def)

lemma shadows_del [simp]: "shadows t m \<Longrightarrow> shadows (t(k := Some [])) (m(k := None))"
  by (auto simp: shadows_def)

lemma store_ok_db_temp [simp]: "store_ok (kv\<lparr>db_temp := t\<rparr>) = store_ok kv"
  by (simp add: store_ok_def store_repr_def)

lemma stack_cong: "db kv' = db kv \<Longrightarrow> mem kv' = mem kv \<Longrightarrow> stack kv' = stack kv"
  by (rule ext) (simp only: stack_def db_at_def)

lemma stack_db_temp [simp]: "stack (kv\<lparr>db_temp := t\<rparr>) = stack kv"
  by (rule stack_cong) simp_all

lemma persisted_True:
  "persisted True resp kv fs = Some (resp, kv, encode_file kv (create_file kv fs))"
  by (simp add: persisted_def Persist_def writeFile_def)

lemma on_disk_encode [simp]: "on_disk kv (encode_file kv fs)"
  by (simp add: on_disk_def encode_file_def)

lemmas handler_defs = kv_handle_def PostHandler_def GetHandler_def PutHandler_def DeleteHandler_def
  kv_spec_def Let_def persisted_True

section \<open>Each handler implements the specification\<close>

lemma kv_relE:
  assumes "kv_rel m s"
  obtains kv fs where "s = (kv, fs)" "store_ok kv" "stack kv = stacks m" "\<forall>k. m k \<noteq> Some ''Invalid''"
    "shadows (db_temp kv) m" "on_disk kv fs"
  using assms by (cases s) (auto simp: kv_rel_def)

lemma GetHandler_sim:
  "kv_rel m s \<Longrightarrow> kv_handle io GET r s = Some (fst (kv_spec GET r m), s) \<and> snd (kv_spec GET r m) = m"
  by (erule kv_relE) (auto simp: handler_defs tab.get_map split: option.splits)

lemma PostHandler_sim:
  assumes "kv_rel m s" and "plain r"
  shows "\<exists>s'. kv_handle True POST r s = Some (fst (kv_spec POST r m), s') \<and>
           kv_rel (snd (kv_spec POST r m)) s'"
proof -
  from assms(1) obtain kv fs where s: "s = (kv, fs)" and rel: "store_ok kv" "stack kv = stacks m"
    "\<forall>k. m k \<noteq> Some ''Invalid''" "shadows (db_temp kv) m" "on_disk kv fs"
    by (elim kv_relE) blast
  let ?k = "url_key r" and ?v = "FormValue r ''value''"
  note g = tab.get_map [OF rel(1,2), of ?k]
  show ?thesis
  proof (cases "parse_error r")
    case (Some e)
    with assms(1) s show ?thesis by (auto simp: handler_defs)
  next
    case None
    show ?thesis
    proof (cases "m ?k")
      case (Some x)
      with None rel s g show ?thesis by (auto simp: handler_defs kv_rel_def)
    next
      case absent: None
      from tab.push_map [OF rel(1,2) absent, of ?v] obtain kv' where
        "Push ?k ?v kv = Some kv'" "store_ok kv'" "stack kv' = stacks (m(?k := Some ?v))"
        "db_temp kv' = db_temp kv" by auto
      with None absent rel s g assms(2) show ?thesis
        by (auto simp: handler_defs kv_rel_def plain_def)
    qed
  qed
qed

lemma PutHandler_sim:
  assumes "kv_rel m s" and "plain r"
  shows "\<exists>s'. kv_handle True PUT r s = Some (fst (kv_spec PUT r m), s') \<and>
           kv_rel (snd (kv_spec PUT r m)) s'"
proof -
  from assms(1) obtain kv fs where s: "s = (kv, fs)" and rel: "store_ok kv" "stack kv = stacks m"
    "\<forall>k. m k \<noteq> Some ''Invalid''" "shadows (db_temp kv) m" "on_disk kv fs"
    by (elim kv_relE) blast
  let ?k = "url_key r" and ?v = "FormValue r ''value''"
  from tab.put_map [OF rel(1,2), of ?k ?v] obtain kv' where
    "Put ?k ?v kv = Some (m ?k \<noteq> None, kv')" "store_ok kv'"
    "stack kv' = stacks (if m ?k = None then m else m(?k := Some ?v))" "db_temp kv' = db_temp kv"
    by auto
  with assms rel s show ?thesis
    by (cases "parse_error r"; cases "m ?k") (auto simp: handler_defs kv_rel_def plain_def)
qed

lemma DeleteHandler_sim:
  assumes "kv_rel m s"
  shows "\<exists>s'. kv_handle True DELETE r s = Some (fst (kv_spec DELETE r m), s') \<and>
           kv_rel (snd (kv_spec DELETE r m)) s'"
proof -
  from assms(1) obtain kv fs where s: "s = (kv, fs)" and rel: "store_ok kv" "stack kv = stacks m"
    "\<forall>k. m k \<noteq> Some ''Invalid''" "shadows (db_temp kv) m" "on_disk kv fs"
    by (elim kv_relE) blast
  let ?k = "url_key r"
  from tab.del_map [OF rel(1,2), of ?k] obtain kv' where
    "Delete ?k kv = Some (m ?k \<noteq> None, kv')" "store_ok kv'" "stack kv' = stacks (m(?k := None))"
    "db_temp kv' = db_temp kv"
    by auto
  with rel s show ?thesis
    by (cases "m ?k") (auto simp: handler_defs kv_rel_def fun_upd_idem)
qed

lemma kv_handle_sim:
  assumes "kv_rel m s" and "plain r"
  shows "\<exists>s'. kv_handle True opr r s = Some (fst (kv_spec opr r m), s') \<and>
           kv_rel (snd (kv_spec opr r m)) s'"
  using assms GetHandler_sim PostHandler_sim PutHandler_sim DeleteHandler_sim by (cases opr) auto

lemma kv_run_sim:
  "kv_rel m s \<Longrightarrow> \<forall>(opr, r) \<in> set reqs. plain r \<Longrightarrow>
     \<exists>s'. kv_run reqs s = Some (fst (kv_spec_run reqs m), s') \<and> kv_rel (snd (kv_spec_run reqs m)) s'"
proof (induction reqs arbitrary: m s)
  case Nil
  then show ?case by simp
next
  case (Cons a reqs)
  obtain opr r where a: "a = (opr, r)" by fastforce
  with Cons.prems kv_handle_sim [of m s r opr] obtain s1 where
    s1: "kv_handle True opr r s = Some (fst (kv_spec opr r m), s1)" "kv_rel (snd (kv_spec opr r m)) s1"
    by auto
  from Cons.IH [OF s1(2)] Cons.prems(2) obtain s2 where
    "kv_run reqs s1 = Some (fst (kv_spec_run reqs (snd (kv_spec opr r m))), s2)"
    "kv_rel (snd (kv_spec_run reqs (snd (kv_spec opr r m)))) s2"
    by auto
  with s1 a show ?case by (auto simp: split_beta)
qed

section \<open>Start and restart\<close>

definition fresh_store :: "string \<Rightarrow> (string \<Rightarrow> string option) \<Rightarrow> store" where
  "fresh_store fname t = \<lparr>db = replicate 101 None, filename = fname, db_temp = t, mem = empty_heap\<rparr>"

lemma fresh_store_ok: "store_ok (fresh_store fname t)" "stack (fresh_store fname t) = stacks (\<lambda>_. None)"
proof -
  have r: "store_repr (fresh_store fname t) (\<lambda>_. []) (\<lambda>_. [])"
    by (simp add: store_repr_def fresh_store_def slot_repr_def)
  then show "store_ok (fresh_store fname t)" by (auto simp: store_ok_def)
  from r show "stack (fresh_store fname t) = stacks (\<lambda>_. None)"
    by (intro ext) (simp add: stack_repr)
qed

lemma fresh_store_simps [simp]:
  "filename (fresh_store fname t) = fname" "db_temp (fresh_store fname t) = t"
  "fresh_store fname t\<lparr>db_temp := t'\<rparr> = fresh_store fname t'"
  by (simp_all add: fresh_store_def)

lemma InitializeStore_no_data:
  "\<not> HasData (fresh_store fname (\<lambda>_. None)) fs \<Longrightarrow>
     InitializeStore io order fname fs = Some (fresh_store fname (\<lambda>_. None))"
  by (simp add: InitializeStore_def fresh_store_def)

lemma InitializeStore_data:
  "fs fname = Some (Gob t) \<Longrightarrow>
     InitializeStore True order fname fs = push_loop order (fresh_store fname t)"
  by (simp add: InitializeStore_def HasData_def Recover_def readFile_def fresh_store_def)

text \<open>A first start, without a file, yields the empty map.\<close>

lemma fresh_kv_rel:
  "fs fname = None \<or> fs fname = Some Truncated \<Longrightarrow>
     InitializeStore io order fname fs = Some (fresh_store fname (\<lambda>_. None)) \<and>
     kv_rel (\<lambda>_. None) (fresh_store fname (\<lambda>_. None), fs)"
  by (auto simp: InitializeStore_no_data HasData_def kv_rel_def fresh_store_ok shadows_def on_disk_def)

text \<open>What the loop over the recovered map leaves in the table: tombstones are skipped.\<close>

definition live :: "(string \<Rightarrow> string option) \<Rightarrow> string \<Rightarrow> string option" where
  "live t k = (if t k = Some [] then None else t k)"

lemma push_loop_recovers:
  assumes "store_ok kv" and "stack kv = stacks m" and "distinct order"
    and "\<And>k. k \<in> set order \<Longrightarrow> m k = None"
  shows "\<exists>kv'. push_loop order kv = Some kv' \<and> store_ok kv' \<and>
           stack kv' = stacks (\<lambda>k. if k \<in> set order then live (db_temp kv) k else m k) \<and>
           filename kv' = filename kv \<and> db_temp kv' = db_temp kv"
  using assms
proof (induction order arbitrary: kv m)
  case Nil
  then show ?case by simp
next
  case (Cons k order)
  show ?case
  proof (cases "live (db_temp kv) k")
    case None
    have "(\<lambda>k'. if k' \<in> set (k # order) then live (db_temp kv) k' else m k')
        = (\<lambda>k'. if k' \<in> set order then live (db_temp kv) k' else m k')"
      using None Cons.prems(4) by (auto simp: fun_eq_iff)
    moreover have "push_loop (k # order) kv = push_loop order kv"
      using None by (auto simp: live_def split: if_splits option.splits)
    ultimately show ?thesis using Cons.IH [OF Cons.prems(1,2)] Cons.prems(3,4) by simp
  next
    case (Some v)
    then have v: "db_temp kv k = Some v" "v \<noteq> []" by (auto simp: live_def split: if_splits)
    from tab.push_map [OF Cons.prems(1,2), of k v] Cons.prems(4) obtain kv1 where
      kv1: "Push k v kv = Some kv1" "store_ok kv1" "stack kv1 = stacks (m(k := Some v))"
        "filename kv1 = filename kv" "db_temp kv1 = db_temp kv" by auto
    have "(\<lambda>k'. if k' \<in> set (k # order) then live (db_temp kv) k' else m k')
        = (\<lambda>k'. if k' \<in> set order then live (db_temp kv1) k' else (m(k := Some v)) k')"
      using Some Cons.prems(3) unfolding kv1(5) by (auto simp del: fun_upd_apply simp: fun_upd_def)
    moreover have "push_loop (k # order) kv = push_loop order kv1"
      using v kv1(1) by (simp add: Let_def)
    moreover have "\<And>k'. k' \<in> set order \<Longrightarrow> (m(k := Some v)) k' = None"
      using Cons.prems(3,4) by auto
    ultimately show ?thesis using Cons.IH [OF kv1(2,3)] kv1(4,5) Cons.prems(3) by simp
  qed
qed

text \<open>
  A restart from the file that a running server left: every key with a non-empty value comes
  back, in whatever order Go walks over the decoded map.
\<close>

lemma restart_recovers:
  assumes rel: "kv_rel m (kv, fs)" and order: "distinct order" "set order = dom (db_temp kv)"
  shows "\<exists>kv'. InitializeStore True order (filename kv) fs = Some kv' \<and> kv_rel (live m) (kv', fs)"
proof -
  let ?n = "filename kv"
  from rel have m: "\<forall>k. m k \<noteq> Some ''Invalid''" "shadows (db_temp kv) m" "on_disk kv fs"
    by (auto simp: kv_rel_def)
  show ?thesis
  proof (cases "fs ?n = Some (Gob (db_temp kv))")
    case True
    have st: "stack (fresh_store ?n (db_temp kv)) = stacks (\<lambda>_. None)" by (rule fresh_store_ok)
    from push_loop_recovers [OF fresh_store_ok(1) st order(1)] obtain kv' where
      kv': "push_loop order (fresh_store ?n (db_temp kv)) = Some kv'" "store_ok kv'"
        "stack kv' = stacks (\<lambda>k. if k \<in> set order then live (db_temp kv) k else None)"
        "filename kv' = ?n" "db_temp kv' = db_temp kv"
      unfolding fresh_store_simps by blast
    have "(\<lambda>k. if k \<in> set order then live (db_temp kv) k else None) = live m"
    proof
      fix k
      show "(if k \<in> set order then live (db_temp kv) k else None) = live m k"
        using m(2) order(2) by (cases "m k") (auto simp: live_def shadows_def)
    qed
    moreover have "shadows (db_temp kv) (live m)"
      using m(2) by (auto simp: shadows_def live_def split: if_splits)
    moreover have "\<forall>k. live m k \<noteq> Some ''Invalid''" using m(1) by (auto simp: live_def)
    moreover have "on_disk kv' fs" using True kv' by (simp add: on_disk_def)
    ultimately have "kv_rel (live m) (kv', fs)" using kv' by (simp add: kv_rel_def)
    then show ?thesis using InitializeStore_data [of fs ?n "db_temp kv" order] True kv'(1) by auto
  next
    case False
    with m(3) have e: "fs ?n \<in> {None, Some Truncated}" "db_temp kv = (\<lambda>_. None)"
      by (auto simp: on_disk_def)
    have "live m = (\<lambda>_. None)"
    proof
      fix k show "live m k = None" using m(2) e(2) by (cases "m k") (auto simp: shadows_def live_def)
    qed
    with fresh_kv_rel e(1) show ?thesis by auto
  qed
qed

section \<open>Requests of every kind\<close>

text \<open>Without any condition on the stored values the server still answers every request.\<close>

lemma kv_handle_returns:
  assumes "store_ok kv"
  shows "\<exists>resp kv' fs'. kv_handle True opr r (kv, fs) = Some (resp, kv', fs') \<and> store_ok kv' \<and>
           filename kv' = filename kv"
proof (cases opr)
  case POST
  from Push_stack [OF assms, of "url_key r" "FormValue r ''value''"] obtain kv1 where
    "Push (url_key r) (FormValue r ''value'') kv = Some kv1" "store_ok kv1" "filename kv1 = filename kv"
    by blast
  with assms show ?thesis
    by (cases "parse_error r") (auto simp: POST handler_defs Get_stack)
next
  case GET
  with assms show ?thesis by (auto simp: handler_defs Get_stack)
next
  case PUT
  from Put_stack [OF assms, of "url_key r" "FormValue r ''value''"] obtain kv1 b where
    "Put (url_key r) (FormValue r ''value'') kv = Some (b, kv1)" "store_ok kv1" "filename kv1 = filename kv"
    by blast
  with assms show ?thesis
    by (cases "parse_error r"; cases b) (auto simp: PUT handler_defs)
next
  case DELETE
  from Delete_stack [OF assms, of "url_key r"] obtain kv1 b where
    "Delete (url_key r) kv = Some (b, kv1)" "store_ok kv1" "filename kv1 = filename kv"
    by blast
  with assms show ?thesis by (cases b) (auto simp: DELETE handler_defs)
qed

lemma PostHandler_stack:
  assumes "store_ok kv" and "stack kv (url_key r) = [] \<or> hd (stack kv (url_key r)) = ''Invalid''"
    and "parse_error r = None"
  shows "\<exists>kv' fs'. PostHandler True r kv fs =
             Some (reply 201 (''Key = '' @ url_key r @ nl @ ''Value = '' @ FormValue r ''value'' @ nl), kv', fs') \<and>
           store_ok kv' \<and>
           stack kv' = (stack kv)(url_key r := FormValue r ''value'' # stack kv (url_key r))"
proof -
  from Push_stack [OF assms(1), of "url_key r" "FormValue r ''value''"] obtain kv1 where
    "Push (url_key r) (FormValue r ''value'') kv = Some kv1" "store_ok kv1"
    "stack kv1 = (stack kv)(url_key r := FormValue r ''value'' # stack kv (url_key r))" by blast
  with assms show ?thesis by (auto simp: handler_defs Get_stack split: list.splits)
qed

lemma kv_run_filename:
  "kv_run reqs (kv, fs) = Some (resps, kv', fs') \<Longrightarrow> store_ok kv \<Longrightarrow> filename kv' = filename kv"
proof (induction reqs arbitrary: kv fs resps)
  case Nil
  then show ?case by simp
next
  case (Cons a reqs)
  obtain opr r where a: "a = (opr, r)" by fastforce
  from kv_handle_returns [OF Cons.prems(2), of opr r fs] obtain resp kv1 fs1 where
    h: "kv_handle True opr r (kv, fs) = Some (resp, kv1, fs1)" "store_ok kv1" "filename kv1 = filename kv"
    by blast
  with Cons.prems(1) a obtain resps' where "kv_run reqs (kv1, fs1) = Some (resps', kv', fs')"
    by (auto simp: bind_eq_Some_conv)
  from Cons.IH [OF this h(2)] h(3) show ?case by simp
qed

section \<open>Properties\<close>

text \<open>
  C14: starting without a file, and as long as no request stores the text \<open>Invalid\<close> and every write
  of the file succeeds, the handlers of the server answer every sequence of requests exactly as the
  one-map specification does, on every branch (created, already exists, read, not found, updated,
  removed, form error), and none of them panics.  A GET of the key \<open>kvstore\<close> is answered by a
  fixed route before it gets to them (\<open>fixed_route_hides_key\<close>).
\<close>

theorem kv_server_refines_map:
  assumes "\<forall>(opr, r) \<in> set reqs. plain r" and "fs fname = None"
  shows "\<exists>kv fs'. Option.bind (InitializeStore True order fname fs) (\<lambda>kv0. kv_run reqs (kv0, fs))
                 = Some (fst (kv_spec_run reqs (\<lambda>_. None)), kv, fs')"
proof -
  from fresh_kv_rel assms(2) have
    init: "InitializeStore True order fname fs = Some (fresh_store fname (\<lambda>_. None))" and
    rel: "kv_rel (\<lambda>_. None) (fresh_store fname (\<lambda>_. None), fs)" by auto
  from kv_run_sim [OF rel assms(1)] init show ?thesis by auto
qed

definition sample :: "string \<Rightarrow> string \<Rightarrow> request" where
  "sample k v = \<lparr>parse_error = None, form = (\<lambda>_. None)(''value'' := Some v), url_key = k\<rparr>"

theorem kv_server_refines_map_witness:
  "\<exists>kv fs'. Option.bind (InitializeStore True [] ''6001'' (\<lambda>_. None))
       (\<lambda>kv0. kv_run [(POST, sample ''k'' ''v''), (GET, sample ''k'' []), (DELETE, sample ''k'' []),
                     (GET, sample ''k'' [])] (kv0, \<lambda>_. None))
     = Some ([reply 201 (''Key = '' @ ''k'' @ nl @ ''Value = '' @ ''v'' @ nl),
              reply 200 (''Value = '' @ ''v'' @ nl),
              reply 200 (''Removed Key = '' @ ''k'' @ nl),
              reply 200 (''Invalid key value pair'' @ nl)], kv, fs')"
  using kv_server_refines_map
    [of "[(POST, sample ''k'' ''v''), (GET, sample ''k'' []), (DELETE, sample ''k'' []), (GET, sample ''k'' [])]"
        "\<lambda>_. None" "''6001''" "[]"]
  by (simp add: plain_def sample_def FormValue_def kv_spec_def)

text \<open>
  C28: a restart recovers the map. The server starts without a file and every request of the run
  writes its file; no request before or after the restart has the value \<open>Invalid\<close>.
  Then a new process that decodes the file, in whatever order Go walks over the decoded map, has
  its handlers answer every further sequence of requests as the specification does from the map
  before the restart, but for the keys whose value was the empty string, which the file cannot
  tell from deleted ones.
\<close>

theorem kv_restart_recovers_map:
  assumes plain: "\<forall>(opr, r) \<in> set reqs. plain r" "\<forall>(opr, r) \<in> set reqs2. plain r"
    and run: "kv_run reqs (fresh_store fname (\<lambda>_. None), \<lambda>_. None) = Some (resps, kv, fs')"
    and order: "distinct order" "set order = dom (db_temp kv)"
  shows "\<exists>kv2 s. InitializeStore True order fname fs' = Some kv2 \<and>
           kv_run reqs2 (kv2, fs')
             = Some (fst (kv_spec_run reqs2 (live (snd (kv_spec_run reqs (\<lambda>_. None))))), s)"
proof -
  let ?m = "snd (kv_spec_run reqs (\<lambda>_. None))"
  have "kv_rel (\<lambda>_. None) (fresh_store fname (\<lambda>_. None), \<lambda>_. None)"
    using fresh_kv_rel [of "\<lambda>_. None" fname] by simp
  from kv_run_sim [OF this plain(1)] run have rel: "kv_rel ?m (kv, fs')" by auto
  moreover have "filename kv = fname" using kv_run_filename [OF run fresh_store_ok(1)] by simp
  ultimately obtain kv2 where
    "InitializeStore True order fname fs' = Some kv2" "kv_rel (live ?m) (kv2, fs')"
    using restart_recovers [OF rel order] by auto
  with kv_run_sim [OF this(2) plain(2)] show ?thesis by auto
qed

lemma sample_run:
  assumes "store_ok kv" and "stack kv k = []"
  shows "\<exists>resps kv' fs'. kv_run [(POST, sample k v)] (kv, fs) = Some (resps, kv', fs') \<and>
           db_temp kv' = (db_temp kv)(k := Some v)"
proof -
  from Push_stack [OF assms(1), of k v] obtain kv1 where
    "Push k v kv = Some kv1" "db_temp kv1 = db_temp kv" by blast
  with assms show ?thesis by (auto simp: handler_defs sample_def FormValue_def Get_stack)
qed

theorem kv_restart_recovers_map_witness:
  "\<exists>resps kv fs' kv2 s.
     kv_run [(POST, sample ''k'' ''v'')] (fresh_store ''6001'' (\<lambda>_. None), \<lambda>_. None) = Some (resps, kv, fs') \<and>
     InitializeStore True [''k''] ''6001'' fs' = Some kv2 \<and>
     kv_run [(GET, sample ''k'' [])] (kv2, fs') = Some ([reply 200 (''Value = '' @ ''v'' @ nl)], s)"
proof -
  from sample_run [of "fresh_store ''6001'' (\<lambda>_. None)" "''k''" "''v''" "\<lambda>_. None"] obtain resps kv fs' where
    run: "kv_run [(POST, sample ''k'' ''v'')] (fresh_store ''6001'' (\<lambda>_. None), \<lambda>_. None) = Some (resps, kv, fs')" and
    "db_temp kv = (\<lambda>_. None)(''k'' := Some ''v'')"
    by (auto simp: fresh_store_ok)
  then have "set [''k''] = dom (db_temp kv)" by simp
  from kv_restart_recovers_map [OF _ _ run _ this, of "[(GET, sample ''k'' [])]"] run show ?thesis
    by (simp add: plain_def sample_def FormValue_def kv_spec_def live_def)
qed

text \<open>
  The server survives every request: whatever the request and whatever it stores, the
  handler returns (no pointer loop runs forever, no nil or out-of-range access), and the
  hash table stays well-formed.
\<close>

theorem kv_handler_total:
  assumes "store_ok kv"
  shows "\<exists>resp kv' fs'. kv_handle True opr r (kv, fs) = Some (resp, kv', fs') \<and> store_ok kv'"
  using kv_handle_returns [OF assms, of opr r fs] by blast

theorem kv_handler_total_witness:
  "\<exists>resp kv' fs'. kv_handle True POST (sample ''k'' ''Invalid'') (fresh_store ''6001'' (\<lambda>_. None), \<lambda>_. None)
     = Some (resp, kv', fs') \<and> store_ok kv'"
  by (rule kv_handler_total [OF fresh_store_ok(1)])

text \<open>
  The value \<open>Invalid\<close> is not stored faithfully: after a POST of it the key reads as absent,
  a second POST of the same key is accepted instead of refused and leaves the key in its bucket
  twice, and after a DELETE of the key, which reports success, the old node is still there
  for a PUT to bring back.
\<close>

theorem invalid_value_breaks_map:
  assumes "store_ok kv" and "stack kv k = []"
  shows "\<exists>kv1 fs1 kv2 fs2 kv3 fs3 kv4 fs4.
     kv_handle True POST (sample k ''Invalid'') (kv, fs)
       = Some (reply 201 (''Key = '' @ k @ nl @ ''Value = '' @ ''Invalid'' @ nl), kv1, fs1) \<and>
     kv_handle True GET (sample k []) (kv1, fs1)
       = Some (reply 200 (''Invalid key value pair'' @ nl), kv1, fs1) \<and>
     kv_handle True POST (sample k ''x'') (kv1, fs1)
       = Some (reply 201 (''Key = '' @ k @ nl @ ''Value = '' @ ''x'' @ nl), kv2, fs2) \<and>
     stack kv2 k = [''x'', ''Invalid''] \<and>
     kv_handle True DELETE (sample k []) (kv2, fs2) = Some (reply 200 (''Removed Key = '' @ k @ nl), kv3, fs3) \<and>
     kv_handle True PUT (sample k ''y'') (kv3, fs3)
       = Some (reply 202 (''Key = '' @ k @ nl @ ''Value = '' @ ''y'' @ nl), kv4, fs4) \<and>
     stack kv4 k = [''y'']"
proof -
  let ?r = "sample k"
  have r: "url_key (?r v) = k" "FormValue (?r v) ''value'' = v" "parse_error (?r v) = None" for v
    by (simp_all add: sample_def FormValue_def)
  from PostHandler_stack [of kv "?r ''Invalid''" fs] assms obtain kv1 fs1 where
    s1: "kv_handle True POST (?r ''Invalid'') (kv, fs)
           = Some (reply 201 (''Key = '' @ k @ nl @ ''Value = '' @ ''Invalid'' @ nl), kv1, fs1)"
        "store_ok kv1" "stack kv1 k = [''Invalid'']"
    by (auto simp: r kv_handle_def)
  from PostHandler_stack [OF s1(2), of "?r ''x''" fs1] s1(3) obtain kv2 fs2 where
    s2: "kv_handle True POST (?r ''x'') (kv1, fs1)
           = Some (reply 201 (''Key = '' @ k @ nl @ ''Value = '' @ ''x'' @ nl), kv2, fs2)"
        "store_ok kv2" "stack kv2 k = [''x'', ''Invalid'']"
    by (auto simp: r kv_handle_def)
  from Delete_stack [OF s2(2), of k] s2(3) obtain kv3 where
    s3: "Delete k kv2 = Some (True, kv3)" "store_ok kv3" "stack kv3 k = [''Invalid'']" by auto
  let ?kv3 = "kv3\<lparr>db_temp := (db_temp kv3)(k := Some [])\<rparr>"
  from Put_stack [of ?kv3 k "''y''"] s3 obtain kv4 where
    s4: "Put k ''y'' ?kv3 = Some (True, kv4)" "stack kv4 k = [''y'']" by auto
  show ?thesis
    using s1 s2 s3(1) s4 Get_stack [OF s1(2), of k]
    by (auto simp: handler_defs r)
qed

theorem invalid_value_breaks_map_witness:
  "\<exists>kv1 fs1. kv_handle True POST (sample ''k'' ''Invalid'') (fresh_store ''6001'' (\<lambda>_. None), \<lambda>_. None)
       = Some (reply 201 (''Key = '' @ ''k'' @ nl @ ''Value = '' @ ''Invalid'' @ nl), kv1, fs1) \<and>
     kv_handle True GET (sample ''k'' []) (kv1, fs1) = Some (reply 200 (''Invalid key value pair'' @ nl), kv1, fs1)"
  using invalid_value_breaks_map [OF fresh_store_ok(1), of "''6001''" "\<lambda>_. None" "''k''" "\<lambda>_. None"]
  by (auto simp: fresh_store_ok)

text \<open>
  The write of the file is not atomic: a crash after \<open>os.Create\<close> and before the encoding
  leaves an empty file, and the next start comes up with an empty store, whatever was stored
  before.
\<close>

theorem crash_in_write_loses_store:
  "\<exists>kv'. InitializeStore True order (filename kv) (create_file kv fs) = Some kv' \<and>
     (\<forall>k. Get k kv' = Some ''Invalid'')"
proof -
  have "InitializeStore True order (filename kv) (create_file kv fs) = Some (fresh_store (filename kv) (\<lambda>_. None))"
    by (rule InitializeStore_no_data) (simp add: HasData_def create_file_def)
  then show ?thesis by (simp add: Get_stack fresh_store_ok)
qed

text \<open>
  A pushed pair is found, and deleting its key uncovers what the table held before,
  for every key; the operations return.
\<close>

theorem push_then_delete:
  assumes "store_ok kv"
  shows "\<exists>kv1 kv2. Push k v kv = Some kv1 \<and> Get k kv1 = Some v \<and> Delete k kv1 = Some (True, kv2) \<and>
     (\<forall>k'. Get k' kv2 = Get k' kv) \<and> store_ok kv2"
proof -
  from tab.push_law [OF assms, of k v] obtain kv1 where
    1: "Push k v kv = Some kv1" "store_ok kv1" "stack kv1 = (stack kv)(k := v # stack kv k)" by blast
  from tab.del_law [OF 1(2), of k] 1(3) obtain kv2 where
    2: "Delete k kv1 = Some (True, kv2)" "store_ok kv2" by auto
  from tab.push_del_cancel [OF assms 1(1) 2(1)] have "stack kv2 = stack kv" by simp
  with tab.get_law [OF 2(2)] tab.get_law [OF assms] tab.get_after_push [OF assms 1(1)] 1(1) 2
  show ?thesis by auto
qed

theorem push_then_delete_witness:
  "\<exists>kv1 kv2. Push ''k'' ''v'' (fresh_store ''6001'' (\<lambda>_. None)) = Some kv1 \<and> Get ''k'' kv1 = Some ''v'' \<and>
     Delete ''k'' kv1 = Some (True, kv2) \<and> store_ok kv2"
  using push_then_delete [OF fresh_store_ok(1)] by blast

end
