(* ===== verification/Http_Url.thy ===== *)
theory Http_Url
  imports KV_Store
begin

text \<open>
  The way of a key into the key-value server.  The Raft server and the apply loop compose the URL
  of a request as \<open>http://localhost<addr>/<key>\<close>, without escaping the key
  (\<^verbatim>\<open>src/raft/raft_node.go\<close>, \<^verbatim>\<open>src/raft/client.go\<close>); \<open>net/http\<close> parses the URL again, and the
  router of the server takes the path apart.  What the key is after that, if the request can be
  made at all, is computed here: \<open>url_path\<close> follows \<open>net/url\<close>, \<open>routed\<close> the cleaning of paths by
  the router and the route \<^verbatim>\<open>/{key}\<close>.  A key that comes out as it went in is \<open>url_ok\<close>.
\<close>

section \<open>The path of a URL\<close>

text \<open>\<open>url.Parse\<close> refuses control characters.\<close>

definition control_char :: "char \<Rightarrow> bool" where
  "control_char c \<longleftrightarrow> (of_char c :: nat) < 32 \<or> (of_char c :: nat) = 127"

definition hex_value :: "char \<Rightarrow> nat option" where
  "hex_value c =
     (let n = of_char c :: nat
      in if 48 \<le> n \<and> n \<le> 57 then Some (n - 48)
         else if 97 \<le> n \<and> n \<le> 102 then Some (n - 87)
         else if 65 \<le> n \<and> n \<le> 70 then Some (n - 55)
         else None)"

text \<open>The percent escapes; a percent sign without two hexadecimal digits is an error.\<close>

fun unescape :: "string \<Rightarrow> string option" where
  "unescape [] = Some []"
| "unescape (c # cs) =
     (if c \<noteq> CHR ''%'' then map_option ((#) c) (unescape cs)
      else case cs of
             h # l # rest \<Rightarrow>
               (case (hex_value h, hex_value l) of
                  (Some a, Some b) \<Rightarrow> map_option ((#) (char_of (16 * a + b))) (unescape rest)
                | _ \<Rightarrow> None)
           | _ \<Rightarrow> None)"

text \<open>
  The decoded path of the text behind the slash that follows the host: the fragment and the query
  are cut off; the fragment is unescaped too, with its errors.
\<close>

definition url_path :: "string \<Rightarrow> string option" where
  "url_path rest =
     (let u = takeWhile (\<lambda>c. c \<noteq> CHR ''#'') rest;
          fragment = drop 1 (dropWhile (\<lambda>c. c \<noteq> CHR ''#'') rest)
      in if (\<exists>c \<in> set u. control_char c) \<or> unescape fragment = None then None
         else unescape (takeWhile (\<lambda>c. c \<noteq> CHR ''?'') u))"

section \<open>The router\<close>

fun segments :: "string \<Rightarrow> string list" where
  "segments [] = [[]]"
| "segments (c # cs) =
     (if c = CHR ''/'' then [] # segments cs
      else case segments cs of s # ss \<Rightarrow> (c # s) # ss | [] \<Rightarrow> [[c]])"

text \<open>The cleaning of a rooted path, on its segments, the latest first in the accumulator.\<close>

fun clean :: "string list \<Rightarrow> string list \<Rightarrow> string list" where
  "clean acc [] = rev acc"
| "clean acc (s # ss) =
     (if s = [] \<or> s = ''.'' then clean acc ss
      else if s = ''..'' then clean (tl acc) ss
      else clean (s # acc) ss)"

text \<open>
  The key that \<^verbatim>\<open>/{key}\<close> matches after the router has redirected to the clean path, which keeps a
  slash at the end.
\<close>

definition routed :: "string \<Rightarrow> string option" where
  "routed p =
     (case clean [] (segments p) of
        [k] \<Rightarrow> if last p = CHR ''/'' then None else Some k
      | _ \<Rightarrow> None)"

section \<open>Requests with a key\<close>

definition kv_request :: "string \<Rightarrow> (string \<times> string) list \<Rightarrow> request" where
  "kv_request key flds = \<lparr>parse_error = None, form = map_of flds, url_key = key\<rparr>"

text \<open>
  A POST, PUT or DELETE that the server receives if the URL can be parsed.  A client follows a
  redirect of such a request with a GET, which changes nothing, and takes the reply 404 for a
  response as well.  The result is whether a response arrives, and the server.
\<close>

definition kv_deliver ::
    "kv_op \<Rightarrow> string \<Rightarrow> (string \<times> string) list \<Rightarrow> store \<times> filesystem \<Rightarrow> bool \<times> store \<times> filesystem" where
  "kv_deliver opr key flds s =
     (case url_path key of
        None \<Rightarrow> (False, s)
      | Some p \<Rightarrow>
          if routed p = Some p then
            (case kv_handle True opr (kv_request p flds) s of
               None \<Rightarrow> (False, s)
             | Some (resp, s') \<Rightarrow> (True, s'))
          else (True, s))"

section \<open>Keys that are delivered as they are\<close>

definition url_ok :: "string \<Rightarrow> bool" where
  "url_ok key \<longleftrightarrow> url_path key = Some key \<and> routed key = Some key"

lemma unescape_plain: "CHR ''%'' \<notin> set s \<Longrightarrow> unescape s = Some s"
  by (induction s) auto

lemma segments_plain: "CHR ''/'' \<notin> set s \<Longrightarrow> segments s = [s]"
  by (induction s) auto

text \<open>For instance the domain names, and all texts without the characters that URLs give a meaning to.\<close>

lemma url_okI:
  assumes "key \<noteq> []" and "key \<noteq> ''.''" and "key \<noteq> ''..''"
    and "\<forall>c \<in> set key. c \<notin> set ''%?#/'' \<and> \<not> control_char c"
  shows "url_ok key"
proof -
  have t: "takeWhile (\<lambda>c. c \<noteq> CHR ''#'') key = key" "takeWhile (\<lambda>c. c \<noteq> CHR ''?'') key = key"
    "dropWhile (\<lambda>c. c \<noteq> CHR ''#'') key = []"
    using assms(4) by (simp_all add: takeWhile_eq_all_conv)
  have "unescape key = Some key" using assms(4) by (intro unescape_plain) fastforce
  then have path: "url_path key = Some key" using assms(4) by (simp add: url_path_def Let_def t)
  have "segments key = [key]" using assms(4) by (intro segments_plain) fastforce
  moreover have "last key \<noteq> CHR ''/''" using assms(4) last_in_set [OF assms(1)] by fastforce
  ultimately have "routed key = Some key" using assms(1-3) by (simp add: routed_def)
  with path show ?thesis by (simp add: url_ok_def)
qed

lemma url_ok_literals [simp]: "url_ok ''k''" "url_ok ''a''" "url_ok ''b''"
  by (rule url_okI; simp add: control_char_def)+

lemma kv_deliver_ok:
  "url_ok key \<Longrightarrow> kv_deliver opr key flds s =
     (case kv_handle True opr (kv_request key flds) s of None \<Rightarrow> (False, s) | Some (resp, s') \<Rightarrow> (True, s'))"
  by (simp add: kv_deliver_def url_ok_def)

lemma kv_deliver_unparsable: "url_path key = None \<Longrightarrow> kv_deliver opr key flds s = (False, s)"
  by (simp add: kv_deliver_def)

text \<open>The percent sign alone cannot be parsed, and what follows a question mark is lost.\<close>

lemma url_path_examples:
  "url_path ''%'' = None" "url_path ''50%'' = None" "url_path ''a?b'' = Some ''a''" "url_path ''a#b'' = Some ''a''"
  by (simp_all add: url_path_def control_char_def hex_value_def)

end
