(* ===== verification/Raft_Apply.thy ===== *)
theory Raft_Apply
  imports Raft_Client Http_Url
begin

text \<open>
  The apply loop, \<open>ApplyToStateMachine\<close> of \<^verbatim>\<open>src/raft/raft_node.go\<close>: it takes the number of newly
  committed entries from a channel and replays them, in log order, as HTTP requests to the
  replica's key-value server.  HTTP is a parameter: \<open>send\<close> takes a request and the state of the
  server, and says whether a response came back.  The law that a working transport obeys, for
  every key, is the locale \<open>http_transport\<close>: the URL is parsed and routed as in \<open>Http_Url\<close>, and
  a request whose URL cannot be parsed is not made.  \<open>loopback\<close> is a transport that hands
  requests to the model of the server, and interprets it.
  The lemmas show that the loop keeps the server equal to the replay of the applied part of
  the log, so replicas that have applied the same entries give the same answers; and what
  happens to the entries behind a failed request.
\<close>

section \<open>Requests to the server\<close>

record http_request =
  http_method :: kv_op
  http_url :: string
  http_form :: "(string \<times> string) list"

definition kv_url :: "string \<Rightarrow> string \<Rightarrow> string" where
  "kv_url addr key = ''http://localhost'' @ addr @ ''/'' @ key"

type_synonym 's transport = "http_request \<Rightarrow> 's \<Rightarrow> bool \<times> 's"

text \<open>
  One entry: whether applying has to halt, and the server.  An error in building a request has
  the effect of a missing response.
\<close>

definition apply_entry :: "'s transport \<Rightarrow> string \<Rightarrow> LogEntry \<Rightarrow> 's \<Rightarrow> (bool \<times> 's) go" where
  "apply_entry send addr entry s =
     go_bind (go_index (Operation entry) 0) (\<lambda>op0.
       if op0 = ''POST'' then
         go_bind (go_index (Operation entry) 2) (\<lambda>value.
         go_bind (go_index (Operation entry) 1) (\<lambda>key.
           let (resp, s1) = send \<lparr>http_method = POST, http_url = kv_url addr key,
                                 http_form = [(''value'', value)]\<rparr> s
           in Inr (\<not> resp, s1)))
       else if op0 = ''PUT'' then
         go_bind (go_index (Operation entry) 2) (\<lambda>value.
         go_bind (go_index (Operation entry) 1) (\<lambda>key.
           let (resp, s1) = send \<lparr>http_method = PUT, http_url = kv_url addr key,
                                 http_form = [(''value'', value)]\<rparr> s
           in Inr (\<not> resp, s1)))
       else if op0 = ''DELETE'' then
         go_bind (go_index (Operation entry) 1) (\<lambda>key.
           let (resp, s1) = send \<lparr>http_method = DELETE, http_url = kv_url addr key, http_form = []\<rparr> s
           in Inr (\<not> resp, s1))
       else if op0 = ''NO-OP'' then Inr (False, s)
       else Inr (False, s))"

fun apply_loop :: "'s transport \<Rightarrow> string \<Rightarrow> LogEntry list \<Rightarrow> int \<Rightarrow> 's \<Rightarrow> (int \<times> 's) go" where
  "apply_loop send addr [] applied s = Inr (applied, s)"
| "apply_loop send addr (entry # entries) applied s =
     (case apply_entry send addr entry s of
        Inl e \<Rightarrow> Inl e
      | Inr (halt_applying, s1) \<Rightarrow>
          if halt_applying then Inr (applied, s1)
          else apply_loop send addr entries (i32 (applied + 1)) s1)"

text \<open>The end of the section: the counter, and the file.\<close>

definition apply_done :: "int \<Rightarrow> RaftNode \<Rightarrow> RaftNode" where
  "apply_done applied node = PersistToStorage (node\<lparr>lastApplied := i32 (lastApplied node + applied)\<rparr>)"

text \<open>The handling of one number taken from \<open>commits_ready\<close>.\<close>

definition ApplyToStateMachine ::
    "'s transport \<Rightarrow> int \<Rightarrow> RaftNode \<Rightarrow> 's \<Rightarrow> (RaftNode \<times> 's) go" where
  "ApplyToStateMachine send to_commit node s =
     go_bind (go_slice (log node) (i32 (lastApplied node + 1)) (i32 (lastApplied node + to_commit + 1)))
       (\<lambda>entries.
         go_bind (apply_loop send (kvstore_addr (Meta node)) entries 0 s) (\<lambda>(applied, s1).
           Inr (apply_done applied node, s1)))"

text \<open>Several numbers in a row, with no other change of the node in between.\<close>

fun apply_batches :: "'s transport \<Rightarrow> int list \<Rightarrow> RaftNode \<Rightarrow> 's \<Rightarrow> (RaftNode \<times> 's) go" where
  "apply_batches send [] node s = Inr (node, s)"
| "apply_batches send (to_commit # batches) node s =
     go_bind (ApplyToStateMachine send to_commit node s) (\<lambda>(n1, s1). apply_batches send batches n1 s1)"

section \<open>What applying a log means\<close>

definition spec_op :: "string list \<Rightarrow> (string \<Rightarrow> string option) \<Rightarrow> (string \<Rightarrow> string option)" where
  "spec_op opr m =
     (case opr of
        [a, k, v] \<Rightarrow>
          if a = ''POST'' then (if m k = None then m(k := Some v) else m)
          else if a = ''PUT'' then (if m k = None then m else m(k := Some v))
          else m
      | [a, k] \<Rightarrow> if a = ''DELETE'' then m(k := None) else m
      | _ \<Rightarrow> m)"

definition replay :: "LogEntry list \<Rightarrow> (string \<Rightarrow> string option) \<Rightarrow> (string \<Rightarrow> string option)" where
  "replay l m = fold (\<lambda>e. spec_op (Operation e)) l m"

text \<open>
  The operations that the handlers of the Raft server put into the log, with a key that the URL of
  the request to the key-value server keeps, and a value other than the text for absence.
\<close>

definition op_ok :: "string list \<Rightarrow> bool" where
  "op_ok opr \<longleftrightarrow> opr = [''NO-OP''] \<or> (\<exists>k. url_ok k \<and> opr = [''DELETE'', k]) \<or>
     (\<exists>k v. url_ok k \<and> v \<noteq> ''Invalid'' \<and> (opr = [''POST'', k, v] \<or> opr = [''PUT'', k, v]))"

lemma replay_simps [simp]:
  "replay [] m = m" "replay (e # l) m = replay l (spec_op (Operation e) m)"
  "replay (l @ l') m = replay l' (replay l m)"
  by (simp_all add: replay_def)

lemma spec_op_simps [simp]:
  "spec_op [''NO-OP''] m = m" "spec_op [''DELETE'', k] m = m(k := None)"
  "spec_op [''POST'', k, v] m = (if m k = None then m(k := Some v) else m)"
  "spec_op [''PUT'', k, v] m = (if m k = None then m else m(k := Some v))"
  by (simp_all add: spec_op_def)

section \<open>A working transport\<close>

locale http_transport =
  fixes send :: "(store \<times> filesystem) transport" and addr :: string
  assumes deliver: "opr \<noteq> GET \<Longrightarrow>
    send \<lparr>http_method = opr, http_url = kv_url addr key, http_form = flds\<rparr> s = kv_deliver opr key flds s"
begin

lemma deliver_sim:
  assumes "kv_rel m s" and "plain (kv_request key flds)" and "url_ok key" and "opr \<noteq> GET"
  shows "\<exists>s'. send \<lparr>http_method = opr, http_url = kv_url addr key, http_form = flds\<rparr> s = (True, s') \<and>
           kv_rel (snd (kv_spec opr (kv_request key flds) m)) s'"
  using kv_handle_sim [OF assms(1,2), of opr] deliver [OF assms(4), of key flds s] kv_deliver_ok [OF assms(3), of opr flds s]
  by auto

lemma apply_entry_sim:
  assumes "kv_rel m s" and "op_ok (Operation e)"
  shows "\<exists>s'. apply_entry send addr e s = Inr (False, s') \<and> kv_rel (spec_op (Operation e) m) s'"
proof -
  from assms(2) consider "Operation e = [''NO-OP'']" | k where "url_ok k" "Operation e = [''DELETE'', k]"
    | k v where "url_ok k" "v \<noteq> ''Invalid''" "Operation e = [''POST'', k, v]"
    | k v where "url_ok k" "v \<noteq> ''Invalid''" "Operation e = [''PUT'', k, v]"
    by (auto simp: op_ok_def)
  then show ?thesis
  proof cases
    case 1
    with assms(1) show ?thesis by (simp add: apply_entry_def)
  next
    case (2 k)
    have "plain (kv_request k [])" by (simp add: plain_def kv_request_def FormValue_def)
    from deliver_sim [OF assms(1) this 2(1), of DELETE] 2 show ?thesis
      by (auto simp: apply_entry_def kv_spec_def kv_request_def fun_upd_idem split: option.splits)
  next
    case (3 k v)
    then have "plain (kv_request k [(''value'', v)])" by (simp add: plain_def kv_request_def FormValue_def)
    from deliver_sim [OF assms(1) this 3(1), of POST] 3 show ?thesis
      by (auto simp: apply_entry_def kv_spec_def kv_request_def FormValue_def split: option.splits)
  next
    case (4 k v)
    then have "plain (kv_request k [(''value'', v)])" by (simp add: plain_def kv_request_def FormValue_def)
    from deliver_sim [OF assms(1) this 4(1), of PUT] 4 show ?thesis
      by (auto simp: apply_entry_def kv_spec_def kv_request_def FormValue_def split: option.splits)
  qed
qed

lemma apply_loop_sim:
  assumes "kv_rel m s" and "\<forall>e \<in> set es. op_ok (Operation e)" and "0 \<le> a" and "a + int (length es) < 2147483648"
  shows "\<exists>s'. apply_loop send addr es a s = Inr (a + int (length es), s') \<and> kv_rel (replay es m) s'"
  using assms
proof (induction es arbitrary: m s a)
  case (Cons e es)
  then obtain s1 where s1: "apply_entry send addr e s = Inr (False, s1)" "kv_rel (spec_op (Operation e) m) s1"
    using apply_entry_sim [of m s e] by auto
  have "i32 (a + 1) = a + 1" using Cons.prems by (intro i32_id) auto
  with Cons.IH [OF s1(2), of "a + 1"] Cons.prems s1(1) show ?case by (auto simp: algebra_simps)
qed simp

lemma apply_sim:
  assumes "kv_rel m s" and "kvstore_addr (Meta n) = addr" and "small (log n)" and "-1 \<le> lastApplied n"
    and "0 \<le> c" and "lastApplied n + c < int (length (log n))"
    and "\<forall>e \<in> set (take (nat c) (drop (nat (lastApplied n + 1)) (log n))). op_ok (Operation e)"
  shows "\<exists>n' s'. ApplyToStateMachine send c n s = Inr (n', s') \<and> lastApplied n' = lastApplied n + c \<and>
    log n' = log n \<and> commitIndex n' = commitIndex n \<and> Meta n' = Meta n \<and>
    kv_rel (replay (take (nat c) (drop (nat (lastApplied n + 1)) (log n))) m) s'"
proof -
  let ?es = "take (nat c) (drop (nat (lastApplied n + 1)) (log n))"
  have r: "i32 (lastApplied n + 1) = lastApplied n + 1" "i32 (lastApplied n + c + 1) = lastApplied n + c + 1"
    "i32 (lastApplied n + c) = lastApplied n + c"
    using assms(3-6) by (auto simp: small_def intro!: i32_id)
  have "int (length ?es) = c" using assms(4-6) by (simp add: min_def) linarith
  with apply_loop_sim [OF assms(1,7), of 0] assms(3,6) obtain s' where
    "apply_loop send addr ?es 0 s = Inr (c, s')" "kv_rel (replay ?es m) s'"
    using assms(4) by (auto simp: small_def)
  moreover have "go_slice (log n) (lastApplied n + 1) (lastApplied n + c + 1) = Inr ?es"
    using assms(4-6) by (simp add: go_slice_def)
  ultimately show ?thesis using assms(2) r by (simp add: ApplyToStateMachine_def apply_done_def)
qed

end

text \<open>A transport that hands each request for the address of the server to its model.\<close>

definition loopback :: "string \<Rightarrow> (store \<times> filesystem) transport" where
  "loopback addr r s =
     (let prefix = kv_url addr []
      in if take (length prefix) (http_url r) = prefix
         then kv_deliver (http_method r) (drop (length prefix) (http_url r)) (http_form r) s
         else (False, s))"

lemma split_kv_url: "take (length (kv_url addr [])) (kv_url addr key) = kv_url addr []"
    "drop (length (kv_url addr [])) (kv_url addr key) = key"
  by (simp_all add: kv_url_def)

interpretation lo: http_transport "loopback addr" addr for addr
  by unfold_locales (simp add: loopback_def split_kv_url Let_def)

section \<open>Several batches\<close>

lemma take_add_drop: "take (a + b) xs = take a xs @ take b (drop a xs)"
  by (simp add: take_add)

lemma apply_batches_sim:
  assumes "http_transport send addr" and "kvstore_addr (Meta n) = addr" and "small (log n)"
    and "-1 \<le> lastApplied n" and "\<forall>b \<in> set bs. 0 \<le> b" and "lastApplied n + sum_list bs < int (length (log n))"
    and "\<forall>e \<in> set (log n). op_ok (Operation e)"
    and "kv_rel (replay (take (nat (lastApplied n + 1)) (log n)) m) s"
  shows "\<exists>n' s'. apply_batches send bs n s = Inr (n', s') \<and> lastApplied n' = lastApplied n + sum_list bs \<and>
    log n' = log n \<and> commitIndex n' = commitIndex n \<and> Meta n' = Meta n \<and>
    kv_rel (replay (take (nat (lastApplied n' + 1)) (log n)) m) s'"
  using assms
proof (induction bs arbitrary: n s)
  case (Cons b bs)
  let ?la = "nat (lastApplied n + 1)"
  have sum: "0 \<le> sum_list bs" using Cons.prems(5) by (intro sum_list_nonneg) simp
  have ok: "\<forall>e \<in> set (take (nat b) (drop ?la (log n))). op_ok (Operation e)"
    using Cons.prems(7) by (meson in_set_dropD in_set_takeD)
  have b: "0 \<le> b" "lastApplied n + b < int (length (log n))" using Cons.prems(5,6) sum by simp_all
  from http_transport.apply_sim [OF Cons.prems(1,8,2,3,4) b ok] obtain n1 s1 where
    1: "ApplyToStateMachine send b n s = Inr (n1, s1)" "lastApplied n1 = lastApplied n + b" "log n1 = log n"
      "commitIndex n1 = commitIndex n" "Meta n1 = Meta n"
      "kv_rel (replay (take (nat b) (drop ?la (log n))) (replay (take ?la (log n)) m)) s1"
    by blast
  have "nat (lastApplied n1 + 1) = ?la + nat b" using 1(2) b(1) Cons.prems(4) by simp
  then have "kv_rel (replay (take (nat (lastApplied n1 + 1)) (log n1)) m) s1"
    using 1(3,6) by (simp add: take_add_drop)
  moreover have "kvstore_addr (Meta n1) = addr" "small (log n1)" "-1 \<le> lastApplied n1" "\<forall>b \<in> set bs. 0 \<le> b"
    "lastApplied n1 + sum_list bs < int (length (log n1))" "\<forall>e \<in> set (log n1). op_ok (Operation e)"
    using 1(2,3,5) Cons.prems(2-7) b by simp_all
  ultimately obtain n' s' where
    2: "apply_batches send bs n1 s1 = Inr (n', s')" "lastApplied n' = lastApplied n1 + sum_list bs"
    "log n' = log n1" "commitIndex n' = commitIndex n1" "Meta n' = Meta n1"
    "kv_rel (replay (take (nat (lastApplied n' + 1)) (log n1)) m) s'"
    using Cons.IH [OF Cons.prems(1), of n1 s1] by blast
  have "apply_batches send (b # bs) n s = Inr (n', s')" using 1(1) 2(1) by simp
  moreover have "lastApplied n' = lastApplied n + sum_list (b # bs)" using 1(2) 2(2) by simp
  moreover have "kv_rel (replay (take (nat (lastApplied n' + 1)) (log n)) m) s'" using 1(3) 2(6) by simp
  ultimately show ?case using 1(3-5) 2(3-5) by auto
qed simp

text \<open>The loop counts at most as many entries as the slice has.\<close>

lemma apply_loop_bound:
  "apply_loop send addr es a s = Inr (b, s') \<Longrightarrow> 0 \<le> a \<Longrightarrow> a + int (length es) < 2147483648 \<Longrightarrow>
     a \<le> b \<and> b \<le> a + int (length es)"
proof (induction es arbitrary: a s)
  case (Cons e es)
  from Cons.prems have i: "i32 (a + 1) = a + 1" by (intro i32_id) auto
  from Cons.prems(1) obtain halt s1 where "apply_entry send addr e s = Inr (halt, s1)"
    by (auto split: sum.splits)
  with Cons i show ?case by (cases halt) fastforce+
qed simp

lemma ApplyToStateMachine_bound:
  assumes "ApplyToStateMachine send c n s = Inr (n', s')" and "small (log n)" and "-1 \<le> lastApplied n"
    and "0 \<le> c" and "lastApplied n + c < int (length (log n))"
  shows "lastApplied n \<le> lastApplied n' \<and> lastApplied n' \<le> lastApplied n + c \<and> commitIndex n' = commitIndex n"
proof -
  let ?es = "take (nat c) (drop (nat (lastApplied n + 1)) (log n))"
  have r: "i32 (lastApplied n + 1) = lastApplied n + 1" "i32 (lastApplied n + c + 1) = lastApplied n + c + 1"
    using assms(2-5) by (auto simp: small_def intro!: i32_id)
  have sl: "go_slice (log n) (lastApplied n + 1) (lastApplied n + c + 1) = Inr ?es"
    using assms(3-5) by (simp add: go_slice_def)
  have len: "int (length ?es) = c" using assms(3-5) by (simp add: min_def) linarith
  from assms(1) sl r obtain b where b: "apply_loop send (kvstore_addr (Meta n)) ?es 0 s = Inr (b, s')"
    and n': "n' = PersistToStorage (n\<lparr>lastApplied := i32 (lastApplied n + b)\<rparr>)"
    by (auto simp: ApplyToStateMachine_def apply_done_def go_bind_eq_Inr)
  have "0 \<le> b \<and> b \<le> c" using apply_loop_bound [OF b] len assms(2-5) by (simp add: small_def)
  moreover from this have "i32 (lastApplied n + b) = lastApplied n + b"
    using assms(2-5) by (intro i32_id) (auto simp: small_def)
  ultimately show ?thesis by (simp add: n')
qed

section \<open>Properties\<close>

text \<open>
  C15: applying committed entries replays them on the key-value server. The transport behaves as
  \<open>http_transport\<close> says, and the operations of the entries are NO-OPs or those of
  the HTTP handlers, with keys that URL parsing and routing keep and values other than
  \<open>Invalid\<close> (\<open>unparsable_key_blocks_writes\<close> shows what another key
  does). Then the loop never panics, moves \<open>lastApplied\<close> on by the number of
  entries, leaves the log and the commit index alone, and the server holds the map that the
  entries in log order make of the map it held before.
\<close>

theorem apply_replays_log:
  assumes "http_transport send (kvstore_addr (Meta n))" and "kv_rel m s"
    and "small (log n)" and "-1 \<le> lastApplied n" and "0 \<le> c" and "lastApplied n + c < int (length (log n))"
    and "\<forall>e \<in> set (take (nat c) (drop (nat (lastApplied n + 1)) (log n))). op_ok (Operation e)"
  shows "\<exists>n' s'. ApplyToStateMachine send c n s = Inr (n', s') \<and> lastApplied n' = lastApplied n + c \<and>
    log n' = log n \<and> commitIndex n' = commitIndex n \<and>
    kv_rel (replay (take (nat c) (drop (nat (lastApplied n + 1)) (log n))) m) s'"
  using http_transport.apply_sim [OF assms(1,2) refl assms(3-7)] by blast

definition demo_log :: "LogEntry list" where
  "demo_log = [demo_entry 1, \<lparr>Term = 1, Operation = [''POST'', ''k'', ''v''], Clientid = ''c''\<rparr>,
               \<lparr>Term = 2, Operation = [''PUT'', ''k'', ''w''], Clientid = ''c''\<rparr>]"

definition demo_replica :: "int \<Rightarrow> RaftNode" where
  "demo_replica i = (initial_node 3 i '':3000'' ''3000'' [] NoFile)\<lparr>currentTerm := 2, log := demo_log, commitIndex := 2\<rparr>"

definition demo_kv :: "store \<times> filesystem" where
  "demo_kv = (fresh_store ''6000'' (\<lambda>_. None), \<lambda>_. None)"

lemma demo_replica_simps [simp]:
  "log (demo_replica i) = demo_log" "lastApplied (demo_replica i) = -1" "commitIndex (demo_replica i) = 2"
  "kvstore_addr (Meta (demo_replica i)) = '':3000''" "small demo_log"
  "\<forall>e \<in> set demo_log. op_ok (Operation e)" "length demo_log = 3"
  by (simp_all add: demo_replica_def initial_node_def Let_def demo_log_def small_def op_ok_def demo_entry_def)

lemma demo_kv_rel [simp]: "kv_rel (\<lambda>_. None) demo_kv"
  by (auto simp: kv_rel_def demo_kv_def fresh_store_ok shadows_def on_disk_def)

lemma replay_demo_log: "replay demo_log (\<lambda>_. None) = [''k'' \<mapsto> ''w'']"
  by (simp add: demo_log_def demo_entry_def)

theorem apply_replays_log_witness:
  "\<exists>n' s'. ApplyToStateMachine (loopback '':3000'') 3 (demo_replica 0) demo_kv = Inr (n', s') \<and>
     lastApplied n' = 2 \<and> kv_rel [''k'' \<mapsto> ''w''] s'"
  using apply_replays_log [of "loopback '':3000''" "demo_replica 0" "\<lambda>_. None" demo_kv 3]
    lo.http_transport_axioms [of "'':3000''"]
  by (force simp: replay_demo_log)

text \<open>
  C16: replicas agree. Two replicas start with empty key-value stores, over transports that
  behave as \<open>http_transport\<close> says, and apply the same number of entries of logs
  that agree up to there, in whatever batches the commits arrive; the operations in their logs
  are NO-OPs or those of the HTTP handlers, with keys that URL parsing and routing keep and
  values other than \<open>Invalid\<close>. Then neither panics, and they answer every GET
  alike.
\<close>

theorem replicas_agree:
  assumes "http_transport send1 (kvstore_addr (Meta n1))" and "http_transport send2 (kvstore_addr (Meta n2))"
    and "kv_rel (\<lambda>_. None) s1" and "kv_rel (\<lambda>_. None) s2"
    and "small (log n1)" and "small (log n2)" and "lastApplied n1 = -1" and "lastApplied n2 = -1"
    and "\<forall>b \<in> set bs1. 0 \<le> b" and "\<forall>b \<in> set bs2. 0 \<le> b"
    and "sum_list bs1 = int c" and "sum_list bs2 = int c" and "c \<le> length (log n1)" and "c \<le> length (log n2)"
    and "take c (log n1) = take c (log n2)"
    and "\<forall>e \<in> set (log n1). op_ok (Operation e)" and "\<forall>e \<in> set (log n2). op_ok (Operation e)"
  shows "\<exists>n1' s1' n2' s2'. apply_batches send1 bs1 n1 s1 = Inr (n1', s1') \<and>
    apply_batches send2 bs2 n2 s2 = Inr (n2', s2') \<and> lastApplied n1' = lastApplied n2' \<and>
    (\<forall>r. map_option fst (kv_handle True GET r s1') = map_option fst (kv_handle True GET r s2'))"
proof -
  have "kv_rel (replay (take (nat (lastApplied n1 + 1)) (log n1)) (\<lambda>_. None)) s1" using assms(3,7) by simp
  from apply_batches_sim [OF assms(1) refl assms(5) _ assms(9) _ assms(16) this] assms(7,11,13)
  obtain n1' s1' where 1: "apply_batches send1 bs1 n1 s1 = Inr (n1', s1')" "lastApplied n1' = int c - 1"
    "kv_rel (replay (take c (log n1)) (\<lambda>_. None)) s1'" by auto
  have "kv_rel (replay (take (nat (lastApplied n2 + 1)) (log n2)) (\<lambda>_. None)) s2" using assms(4,8) by simp
  from apply_batches_sim [OF assms(2) refl assms(6) _ assms(10) _ assms(17) this] assms(8,12,14)
  obtain n2' s2' where 2: "apply_batches send2 bs2 n2 s2 = Inr (n2', s2')" "lastApplied n2' = int c - 1"
    "kv_rel (replay (take c (log n2)) (\<lambda>_. None)) s2'" by auto
  have "map_option fst (kv_handle True GET r s1') = map_option fst (kv_handle True GET r s2')" for r
    using GetHandler_sim [OF 1(3), of True r] GetHandler_sim [OF 2(3), of True r] assms(15) by simp
  with 1 2 show ?thesis by auto
qed

theorem replicas_agree_witness:
  "\<exists>n1' s1' n2' s2'. apply_batches (loopback '':3000'') [1, 2] (demo_replica 0) demo_kv = Inr (n1', s1') \<and>
    apply_batches (loopback '':3000'') [3] (demo_replica 1) demo_kv = Inr (n2', s2') \<and>
    (\<forall>r. map_option fst (kv_handle True GET r s1') = map_option fst (kv_handle True GET r s2'))"
  using replicas_agree [of "loopback '':3000''" "demo_replica 0" "loopback '':3000''" "demo_replica 1"
      demo_kv demo_kv "[1, 2]" "[3]" 3] lo.http_transport_axioms [of "'':3000''"]
  by auto

text \<open>
  A request to the key-value server that fails stops the batch, and nobody takes up the
  rest of it: \<open>lastApplied\<close> stays behind, and after later commits, applied from the wrong
  position, it is still behind the commit index, so that reads and writes at this replica keep
  waiting.
\<close>

theorem failed_request_blocks_writes:
  assumes "small (log n)" and "-1 \<le> lastApplied n" and "0 < c" and "commitIndex n = lastApplied n + c"
    and "0 \<le> later" and "commitIndex n + later < int (length (log n))"
    and "apply_entry send1 (kvstore_addr (Meta n)) (log n ! nat (lastApplied n + 1)) s = Inr (True, s1)"
    and "ApplyToStateMachine send1 c n s = Inr (n1, s2)"
    and "ApplyToStateMachine send2 later (n1\<lparr>commitIndex := commitIndex n1 + later\<rparr>) s3 = Inr (n2, s4)"
  shows "lastApplied n1 = lastApplied n \<and> WriteCommand_waits n1 \<and> WriteCommand_waits n2"
proof -
  have r: "i32 (lastApplied n + 1) = lastApplied n + 1" "i32 (lastApplied n + c + 1) = lastApplied n + c + 1"
    "i32 (lastApplied n) = lastApplied n"
    using assms(1-6) by (auto simp: small_def intro!: i32_id)
  have "nat c = Suc (nat (c - 1))" "nat (lastApplied n + 1) < length (log n)" using assms(2-6) by simp_all
  then have "take (nat c) (drop (nat (lastApplied n + 1)) (log n))
      = log n ! nat (lastApplied n + 1) # take (nat (c - 1)) (drop (Suc (nat (lastApplied n + 1))) (log n))"
    by (simp add: Cons_nth_drop_Suc [symmetric])
  moreover have "go_slice (log n) (lastApplied n + 1) (lastApplied n + c + 1)
      = Inr (take (nat c) (drop (nat (lastApplied n + 1)) (log n)))"
    using assms(2-6) by (simp add: go_slice_def)
  ultimately have n1: "n1 = PersistToStorage (n\<lparr>lastApplied := lastApplied n\<rparr>)"
    using assms(7,8) r by (simp add: ApplyToStateMachine_def apply_done_def)
  have "lastApplied n2 \<le> lastApplied n + later \<and> commitIndex n2 = commitIndex n + later"
    using ApplyToStateMachine_bound [OF assms(9)] n1 assms(1-6) by simp
  with n1 assms(3,4) show ?thesis by (simp add: WriteCommand_waits_def)
qed

theorem failed_request_blocks_writes_witness:
  "\<exists>n1 s2 n2 s4. ApplyToStateMachine (\<lambda>r s. (False, s)) 1 ((demo_replica 0)\<lparr>lastApplied := 0, commitIndex := 1\<rparr>) demo_kv
       = Inr (n1, s2) \<and>
     ApplyToStateMachine (loopback '':3000'') 1 (n1\<lparr>commitIndex := commitIndex n1 + 1\<rparr>) demo_kv = Inr (n2, s4) \<and>
     WriteCommand_waits n2"
proof -
  let ?n = "(demo_replica 0)\<lparr>lastApplied := 0, commitIndex := 1\<rparr>" and ?no = "\<lambda>r s. (False, s)"
  have e: "apply_entry ?no (kvstore_addr (Meta ?n)) (log ?n ! nat (lastApplied ?n + 1)) demo_kv = Inr (True, demo_kv)"
    by (simp add: apply_entry_def demo_log_def)
  have sl: "go_slice demo_log (i32 1) (i32 2) = Inr [demo_log ! 1]"
    by (simp add: go_slice_def demo_log_def i32_id)
  have "apply_loop ?no '':3000'' [demo_log ! 1] 0 demo_kv = Inr (0, demo_kv)"
    by (simp add: apply_entry_def demo_log_def)
  with sl obtain n1 where n1: "ApplyToStateMachine ?no 1 ?n demo_kv = Inr (n1, demo_kv)"
    and f: "log n1 = demo_log" "lastApplied n1 = 0" "commitIndex n1 = 1" "kvstore_addr (Meta n1) = '':3000''"
    by (simp add: ApplyToStateMachine_def apply_done_def i32_id)
  have "kv_rel (\<lambda>_. None) demo_kv" by simp
  from lo.apply_sim [OF this, of "n1\<lparr>commitIndex := commitIndex n1 + 1\<rparr>" "'':3000''" 1] f
  obtain n2 s4 where n2: "ApplyToStateMachine (loopback '':3000'') 1 (n1\<lparr>commitIndex := commitIndex n1 + 1\<rparr>) demo_kv
      = Inr (n2, s4)" by (auto simp: demo_log_def op_ok_def small_def)
  from failed_request_blocks_writes [OF _ _ _ _ _ _ e n1 n2] n1 n2 show ?thesis by auto
qed

text \<open>An entry whose request cannot be made, since the URL with its key cannot be parsed.\<close>

definition unparsable :: "LogEntry \<Rightarrow> bool" where
  "unparsable e \<longleftrightarrow> (\<exists>key v. url_path key = None \<and>
     (Operation e = [''POST'', key, v] \<or> Operation e = [''PUT'', key, v] \<or> Operation e = [''DELETE'', key]))"

text \<open>The loop over several numbers, with what the other goroutines do to the node before each.\<close>

fun apply_among ::
    "'s transport \<Rightarrow> (int \<times> (RaftNode \<Rightarrow> RaftNode)) list \<Rightarrow> RaftNode \<Rightarrow> 's \<Rightarrow> (RaftNode \<times> 's) go" where
  "apply_among send [] node s = Inr (node, s)"
| "apply_among send ((to_commit, others) # batches) node s =
     go_bind (ApplyToStateMachine send to_commit (others node) s) (\<lambda>(n1, s1). apply_among send batches n1 s1)"

text \<open>They leave the applied entries and the next one in the log, and the counter to this loop.\<close>

definition leaves_applied :: "RaftNode \<Rightarrow> RaftNode \<Rightarrow> bool" where
  "leaves_applied n n' \<longleftrightarrow> lastApplied n' = lastApplied n \<and> kvstore_addr (Meta n') = kvstore_addr (Meta n) \<and>
     take (nat (lastApplied n + 2)) (log n') = take (nat (lastApplied n + 2)) (log n)"

lemma apply_entry_unparsable:
  assumes "http_transport send addr" and "unparsable e"
  shows "apply_entry send addr e s = Inr (True, s)"
proof -
  have "send \<lparr>http_method = opr, http_url = kv_url addr key, http_form = flds\<rparr> s = (False, s)"
    if "opr \<noteq> GET" "url_path key = None" for opr key flds
    using that http_transport.deliver [OF assms(1) that(1), of key flds s] kv_deliver_unparsable by simp
  then show ?thesis using assms(2) by (auto simp: unparsable_def apply_entry_def)
qed

lemma leaves_applied_next:
  assumes "leaves_applied n n'" and "-1 \<le> lastApplied n" and "lastApplied n + 1 < int (length (log n))"
  shows "lastApplied n + 1 < int (length (log n'))" "log n' ! nat (lastApplied n + 1) = log n ! nat (lastApplied n + 1)"
proof -
  let ?k = "nat (lastApplied n + 1)"
  have k: "nat (lastApplied n + 2) = Suc ?k" "?k < length (log n)" using assms(2,3) by simp_all
  have t: "take (Suc ?k) (log n') = take (Suc ?k) (log n)" using assms(1) k(1) by (simp add: leaves_applied_def)
  from arg_cong [OF t, of length] k(2) have "?k < length (log n')" by simp
  then show "lastApplied n + 1 < int (length (log n'))" using assms(2) by linarith
  show "log n' ! ?k = log n ! ?k" using arg_cong [OF t, of "\<lambda>l. l ! ?k"] by simp
qed

lemma apply_stuck:
  assumes "http_transport send (kvstore_addr (Meta n))" and "-1 \<le> lastApplied n" and "lastApplied n + 1 < int (length (log n))"
    and "lastApplied n + 1 < 2147483648" and "unparsable (log n ! nat (lastApplied n + 1))"
    and "ApplyToStateMachine send c n s = Inr (n', s')"
  shows "s' = s" and "n' = PersistToStorage n"
proof -
  let ?k = "nat (lastApplied n + 1)"
  have r: "i32 (lastApplied n + 1) = lastApplied n + 1" "i32 (lastApplied n) = lastApplied n"
    using assms(2,4) by (auto intro!: i32_id)
  obtain es a where es: "go_slice (log n) (lastApplied n + 1) (i32 (lastApplied n + c + 1)) = Inr es"
    and a: "apply_loop send (kvstore_addr (Meta n)) es 0 s = Inr (a, s')" "n' = apply_done a n"
    using assms(6) by (auto simp: ApplyToStateMachine_def go_bind_eq_Inr r(1))
  have "es = take (nat (i32 (lastApplied n + c + 1)) - ?k) (drop ?k (log n))"
    using es by (auto simp: go_slice_def nat_diff_distrib split: if_splits)
  then have "es = [] \<or> (\<exists>rest. es = log n ! ?k # rest)"
    using assms(2,3) by (cases "nat (i32 (lastApplied n + c + 1)) - ?k") (auto simp: Cons_nth_drop_Suc [symmetric])
  then have "a = 0 \<and> s' = s" using a(1) apply_entry_unparsable [OF assms(1,5), of s] by auto
  with a(2) r(2) show "s' = s" and "n' = PersistToStorage n" by (simp_all add: apply_done_def)
qed

text \<open>
  C34: an entry whose key cannot be parsed as part of a URL, such as a key with a lone percent
  sign (which a client produces with a POST of \<open>/%25\<close>), stops the process that
  applies it for as long as it runs. When it is the next entry to apply, and whatever batches
  the apply loop takes from then on, with whatever else happens to the node between them that
  leaves that entry and \<open>lastApplied\<close> in place, the loop applies nothing any more:
  the store and \<open>lastApplied\<close> stay as they are, and commands wait whenever the
  commit index differs from that \<open>lastApplied\<close>.
\<close>

theorem unparsable_key_blocks_writes:
  assumes "http_transport send (kvstore_addr (Meta n))" and "-1 \<le> lastApplied n" and "lastApplied n + 1 < int (length (log n))"
    and "lastApplied n + 1 < 2147483648" and "unparsable (log n ! nat (lastApplied n + 1))"
    and "\<forall>(c, others) \<in> set bs. \<forall>x. lastApplied x + 1 < int (length (log x)) \<longrightarrow> leaves_applied x (others x)"
    and "apply_among send bs n s = Inr (n', s')"
  shows "s' = s \<and> lastApplied n' = lastApplied n \<and> log n' ! nat (lastApplied n + 1) = log n ! nat (lastApplied n + 1) \<and>
     (WriteCommand_waits n' \<longleftrightarrow> commitIndex n' \<noteq> lastApplied n)"
  using assms
proof (induction bs arbitrary: n)
  case (Cons b bs)
  obtain c others where b: "b = (c, others)" by (cases b)
  let ?m = "others n"
  have l: "leaves_applied n ?m" using Cons.prems(3,6) b by auto
  note nx = leaves_applied_next [OF l Cons.prems(2,3)]
  have m: "lastApplied ?m = lastApplied n" "kvstore_addr (Meta ?m) = kvstore_addr (Meta n)"
    using l by (simp_all add: leaves_applied_def)
  obtain n1 s1 where 1: "ApplyToStateMachine send c ?m s = Inr (n1, s1)" "apply_among send bs n1 s1 = Inr (n', s')"
    using Cons.prems(7) b by (auto simp: go_bind_eq_Inr)
  have h: "http_transport send (kvstore_addr (Meta ?m))" "-1 \<le> lastApplied ?m" "lastApplied ?m + 1 < int (length (log ?m))"
    "lastApplied ?m + 1 < 2147483648" "unparsable (log ?m ! nat (lastApplied ?m + 1))"
    using Cons.prems(1-5) nx m by simp_all
  have s1: "s1 = s" and n1: "n1 = PersistToStorage ?m" by (rule apply_stuck [OF h 1(1)])+
  have "\<forall>(c, others) \<in> set bs. \<forall>x. lastApplied x + 1 < int (length (log x)) \<longrightarrow> leaves_applied x (others x)" using Cons.prems(6) by simp
  with Cons.IH [of n1] 1(2) h show ?case by (simp add: s1 n1 m nx)
qed (simp add: WriteCommand_waits_def)

definition poison_log :: "LogEntry list" where
  "poison_log = [demo_entry 1, \<lparr>Term = 1, Operation = [''POST'', ''%'', ''v''], Clientid = ''c''\<rparr>]"

definition more_commits :: "RaftNode \<Rightarrow> RaftNode" where
  "more_commits n = n\<lparr>log := log n @ [demo_entry 2], commitIndex := commitIndex n + 1\<rparr>"

theorem unparsable_key_blocks_writes_witness:
  "\<exists>n'. apply_among (loopback '':3000'') [(1, id), (1, more_commits), (2, more_commits)]
       ((demo_replica 0)\<lparr>lastApplied := 0, commitIndex := 1, log := poison_log\<rparr>) demo_kv = Inr (n', demo_kv) \<and>
     lastApplied n' = 0 \<and> commitIndex n' = 3 \<and> WriteCommand_waits n'"
proof -
  let ?n = "(demo_replica 0)\<lparr>lastApplied := 0, commitIndex := 1, log := poison_log\<rparr>"
  let ?bs = "[(1, id), (1, more_commits), (2, more_commits)]"
  have tr: "http_transport (loopback '':3000'') (kvstore_addr (Meta ?n))" by (simp add: lo.http_transport_axioms)
  have un: "unparsable (poison_log ! 1)" by (simp add: unparsable_def poison_log_def url_path_examples)
  have stop: "apply_entry (loopback '':3000'') '':3000'' (poison_log ! 1) demo_kv = Inr (True, demo_kv)"
    using apply_entry_unparsable [OF tr] un by simp
  have sl: "go_slice poison_log 1 2 = Inr [poison_log ! 1]" "go_slice (poison_log @ l) 1 2 = Inr [poison_log ! 1]"
    "go_slice (poison_log @ [x, y]) 1 3 = Inr [poison_log ! 1, x]" for l x y
    by (simp_all add: go_slice_def poison_log_def)
  have others: "\<forall>(c, others) \<in> set ?bs. \<forall>x. lastApplied x + 1 < int (length (log x)) \<longrightarrow> leaves_applied x (others x)"
    by (auto simp: leaves_applied_def more_commits_def)
  obtain n' where n': "apply_among (loopback '':3000'') ?bs ?n demo_kv = Inr (n', demo_kv)" "commitIndex n' = 3"
    using stop sl by (auto simp: ApplyToStateMachine_def apply_done_def more_commits_def i32_id)
  from unparsable_key_blocks_writes [OF tr _ _ _ _ others n'(1)] un n' show ?thesis by (auto simp: poison_log_def)
qed

end
