(* ===== verification/Raft_Setup.thy ===== *)
theory Raft_Setup
  imports Raft_Apply Raft_Election
begin

text \<open>
  How a replica is put together, \<^verbatim>\<open>src/raft/initial_setup.go\<close> and \<^verbatim>\<open>src/main.go\<close>: the addresses
  and file names derived from the replica's id, the routes of the two HTTP servers, and the
  order of construction (node, key-value store, stubs, servers).  The listeners are
  taken to start; the polling for them and the shutdown are in \<open>Raft_Lifecycle\<close>.
  The properties: distinct replicas never share an address or a file, a restarted replica has
  its persisted term, vote, log and indices and hands the unapplied commits to the apply loop,
  and the fixed routes hide keys of the same name.
\<close>

section \<open>Addresses\<close>

text \<open>\<open>strconv.Itoa\<close>.\<close>

fun digits :: "nat \<Rightarrow> string" where
  "digits n = (if n < 10 then [char_of (48 + n)] else digits (n div 10) @ [char_of (48 + n mod 10)])"

declare digits.simps [simp del]

definition itoa :: "int \<Rightarrow> string" where
  "itoa i = (if i < 0 then CHR ''-'' # digits (nat (- i)) else digits (nat i))"

definition kv_addr :: "int \<Rightarrow> string" where
  "kv_addr rid = '':300'' @ itoa rid"

definition kv_filename :: "int \<Rightarrow> string" where
  "kv_filename num = ''600'' @ itoa num"

definition grpc_address :: "int \<Rightarrow> string" where
  "grpc_address rid = '':500'' @ itoa rid"

definition server_address :: "int \<Rightarrow> string" where
  "server_address rid = '':400'' @ itoa rid"

text \<open>The addresses of the other replicas in \<open>main\<close>.\<close>

definition rep_addrs :: "int \<Rightarrow> int \<Rightarrow> string list go" where
  "rep_addrs n_replica rid =
     go_bind (go_make n_replica []) (\<lambda>addrs.
       Inr (map (\<lambda>i. if int i = rid then addrs ! i else '':500'' @ itoa (int i)) [0..<nat n_replica]))"

section \<open>Routes\<close>

text \<open>
  The router matches in the order of registration: the fixed path for GET comes before the
  pattern with the key.
\<close>

datatype route = Fixed | Keyed kv_op

definition kv_route :: "kv_op \<Rightarrow> string \<Rightarrow> route" where
  "kv_route method path = (if method = GET \<and> path = ''kvstore'' then Fixed else Keyed method)"

definition raft_route :: "kv_op \<Rightarrow> string \<Rightarrow> route" where
  "raft_route method path = (if method = GET \<and> path = ''test'' then Fixed else Keyed method)"

text \<open>The key-value server: the route, then the handler.\<close>

definition kv_serve :: "bool \<Rightarrow> kv_op \<Rightarrow> request \<Rightarrow> store \<times> filesystem \<Rightarrow> kv_result" where
  "kv_serve io method r s =
     (case kv_route method (url_key r) of
        Fixed \<Rightarrow> Some (KvstoreHandler, s)
      | Keyed m \<Rightarrow> kv_handle io m r s)"

section \<open>Construction\<close>

text \<open>\<open>Setup_raft_node\<close>: the node from the Raft file, then the store from its own file.\<close>

definition Setup_raft_node ::
    "bool \<Rightarrow> string list \<Rightarrow> int \<Rightarrow> int \<Rightarrow> raft_file \<Rightarrow> filesystem \<Rightarrow> (RaftNode \<times> store) go" where
  "Setup_raft_node io order rid n f fs =
     go_bind (InitializeNode (i32 n) rid (kv_addr rid) f) (\<lambda>node.
       case InitializeStore io order (kv_filename rid) fs of
         None \<Rightarrow> Inl ProcessExit
       | Some kv \<Rightarrow> Inr (node, kv))"

text \<open>\<open>Connect_raft_node\<close>: the stubs, and the address that \<open>StartRaftServer\<close> records.\<close>

definition Connect_raft_node :: "int \<Rightarrow> RaftNode \<Rightarrow> RaftNode" where
  "Connect_raft_node rid node =
     (let n1 = ConnectToPeerReplicas node
      in n1\<lparr>Meta := (Meta n1)\<lparr>nodeAddress := server_address rid\<rparr>\<rparr>)"

text \<open>The Raft side of starting replica \<open>i\<close> of \<open>N\<close> on its file.\<close>

definition boot :: "nat \<Rightarrow> nat \<Rightarrow> raft_file \<Rightarrow> RaftNode go" where
  "boot N i f =
     go_bind (InitializeNode (i32 (int N)) (int i) (kv_addr (int i)) f) (\<lambda>node.
       Inr (Connect_raft_node (int i) node))"

section \<open>Lemmas\<close>

definition undigit :: "string \<Rightarrow> nat" where
  "undigit cs = fold (\<lambda>c acc. 10 * acc + (of_char c - 48)) cs 0"

lemma undigit_digits: "undigit (digits n) = n"
proof (induction n rule: digits.induct)
  case (1 n)
  have m: "n mod 10 < 10" by simp
  then have d: "of_char (char_of (48 + n mod 10) :: char) - (48::nat) = n mod 10"
    by (subst of_char_of) simp
  show ?case
  proof (cases "n < 10")
    case True
    then show ?thesis using d by (simp add: undigit_def digits.simps [of n])
  next
    case False
    then have "fold (\<lambda>c acc. 10 * acc + (of_char c - 48)) (digits (n div 10)) 0 = n div 10"
      using 1 by (simp add: undigit_def)
    with False d show ?thesis by (simp add: undigit_def digits.simps [of n])
  qed
qed

lemma digits_inj: "digits m = digits n \<longleftrightarrow> m = n"
  using undigit_digits by metis

lemma digits_hd: "hd (digits n) \<noteq> CHR ''-'' \<and> digits n \<noteq> []"
proof (induction n rule: digits.induct)
  case (1 n)
  show ?case
  proof (cases "n < 10")
    case True
    have "of_char (char_of (48 + n) :: char) = (48 + n) mod 256" by (rule of_char_of)
    with True have "of_char (char_of (48 + n) :: char) \<noteq> (of_char (CHR ''-'') :: nat)" by simp
    then have "char_of (48 + n) \<noteq> CHR ''-''" by metis
    with True show ?thesis by (simp add: digits.simps [of n])
  next
    case False
    with 1 show ?thesis by (simp add: digits.simps [of n])
  qed
qed

lemma itoa_inj: "itoa i = itoa j \<longleftrightarrow> i = j"
proof
  assume a: "itoa i = itoa j"
  have h: "digits k \<noteq> CHR ''-'' # cs" for k cs using digits_hd [of k] by auto
  from a show "i = j"
    by (auto simp: itoa_def digits_inj h h [symmetric] split: if_splits)
qed simp

lemma boot_node:
  assumes "file_ok f" and "N < 2147483648" and "i < N"
  shows "\<exists>n. boot N i f = Inr n \<and> node_state n = disk_state f \<and> state n = Follower \<and> disk n = f \<and>
     connected N i n \<and> nodeAddress (Meta n) = server_address (int i) \<and>
     effects n = (if commitIndex n > lastApplied n then [Send_commits_ready (i32 (commitIndex n - lastApplied n))]
                  else []) @ [Go_RunElectionTimer]"
proof -
  have r: "i32 (int N) = int N" "i32 (int i) = int i" using assms(2,3) by (simp_all add: i32_id)
  have "kv_addr (int i) \<noteq> []" by (simp add: kv_addr_def)
  from InitializeNode_disk [OF assms(1) this, of "int N" "int i"] r obtain n where
    n: "InitializeNode (int N) (int i) (kv_addr (int i)) f = Inr n" "node_state n = disk_state f" "state n = Follower"
      "disk n = f" "effects n = []" "n_replicas (Meta n) = int N" "replica_id (Meta n) = int i" by auto
  have "effects (Connect_raft_node (int i) n) =
      (if commitIndex n > lastApplied n then [Send_commits_ready (i32 (commitIndex n - lastApplied n))] else [])
        @ [Go_RunElectionTimer]"
    using n(3,5) by (simp add: Connect_raft_node_def ConnectToPeerReplicas_def Let_def)
  moreover have "node_state (Connect_raft_node (int i) n) = disk_state f"
    using n(2) by (simp add: Connect_raft_node_def node_state_def Let_def)
  ultimately show ?thesis using n r
    by (simp add: boot_def Connect_raft_node_def connected_def Let_def)
qed

section \<open>Properties\<close>

text \<open>
  Replicas do not get in each other's way: the three addresses and the two files of a
  replica are different from those of every other replica and from each other.
\<close>

theorem addresses_distinct:
  "(kv_addr i = kv_addr j \<longleftrightarrow> i = j) \<and> (grpc_address i = grpc_address j \<longleftrightarrow> i = j) \<and>
   (server_address i = server_address j \<longleftrightarrow> i = j) \<and> (kv_filename i = kv_filename j \<longleftrightarrow> i = j) \<and>
   kv_addr i \<noteq> grpc_address j \<and> kv_addr i \<noteq> server_address j \<and> grpc_address i \<noteq> server_address j \<and>
   go_slice (kv_addr i) 1 (int (length (kv_addr i))) \<noteq> Inr (kv_filename j)"
  by (simp add: kv_addr_def grpc_address_def server_address_def kv_filename_def itoa_inj go_slice_def)

text \<open>
  C29: a restart restores the replica: started on the file that any persisting step of a node
  has written, it has that node's term, vote, log, commit and applied index, is a follower,
  has stubs for all peers, hands exactly the committed but unapplied entries to the apply loop
  and starts the election timer.
\<close>

theorem restart_restores_node:
  assumes "N < 2147483648" and "i < N"
  shows "\<exists>n'. boot N i (disk (PersistToStorage n)) = Inr n' \<and>
     currentTerm n' = currentTerm n \<and> votedFor n' = votedFor n \<and> log n' = log n \<and>
     commitIndex n' = commitIndex n \<and> lastApplied n' = lastApplied n \<and> state n' = Follower \<and>
     replica_id (Meta n') = int i \<and> (\<forall>j < N. peer_replica_clients (Meta n') ! j = (if j = i then None else Some j)) \<and>
     effects n' = (if commitIndex n > lastApplied n then [Send_commits_ready (i32 (commitIndex n - lastApplied n))]
                   else []) @ [Go_RunElectionTimer]"
proof -
  from boot_node [OF PersistToStorage_disk(2) assms] obtain n' where
    b: "boot N i (disk (PersistToStorage n)) = Inr n'" "node_state n' = node_state n" "state n' = Follower"
      "connected N i n'"
      "effects n' = (if commitIndex n' > lastApplied n' then [Send_commits_ready (i32 (commitIndex n' - lastApplied n'))]
                     else []) @ [Go_RunElectionTimer]"
    by auto
  then show ?thesis by (auto simp: node_state_def connected_def)
qed

theorem restart_restores_node_witness:
  "\<exists>n'. boot 3 1 (disk (PersistToStorage (demo_replica 1))) = Inr n' \<and> log n' = demo_log \<and>
     effects n' = [Send_commits_ready (i32 3), Go_RunElectionTimer]"
  using restart_restores_node [of 3 1 "demo_replica 1"] by auto

text \<open>
  The fixed path of the key-value server hides the key of that name: a POST of the key
  \<open>kvstore\<close> is stored like any other, but a GET of it returns the banner of the server and
  not the value.
\<close>

theorem fixed_route_hides_key:
  assumes "kv_rel m s" and "m ''kvstore'' = None" and "v \<noteq> ''Invalid''"
  shows "\<exists>resp s1. kv_serve True POST (sample ''kvstore'' v) s = Some (resp, s1) \<and>
     kv_rel (m(''kvstore'' := Some v)) s1 \<and>
     kv_serve True GET (sample ''kvstore'' []) s1 = Some (\<lparr>status = 200, header = [], body = ''KEY VALUE STORE !!!''\<rparr>, s1)"
proof -
  have "plain (sample ''kvstore'' v)" using assms(3) by (simp add: plain_def sample_def FormValue_def)
  from PostHandler_sim [OF assms(1) this] assms(2) obtain s1 where
    "kv_handle True POST (sample ''kvstore'' v) s = Some (fst (kv_spec POST (sample ''kvstore'' v) m), s1)"
    "kv_rel (m(''kvstore'' := Some v)) s1"
    by (auto simp: kv_spec_def sample_def FormValue_def)
  then show ?thesis by (simp add: kv_serve_def kv_route_def sample_def KvstoreHandler_def)
qed

theorem fixed_route_hides_key_witness:
  "\<exists>resp s1. kv_serve True POST (sample ''kvstore'' ''v'') demo_kv = Some (resp, s1) \<and>
     kv_serve True GET (sample ''kvstore'' []) s1 = Some (\<lparr>status = 200, header = [], body = ''KEY VALUE STORE !!!''\<rparr>, s1)"
  using fixed_route_hides_key [OF demo_kv_rel, of "''v''"] by auto

text \<open>
  The write of the Raft file is not atomic: a replica that crashes between the creation
  of the file and its encoding comes back in term 0 without log and without vote, and grants
  its vote in a term in which it may have voted for another candidate.
\<close>

theorem crash_in_persist_forgets_vote:
  assumes "N < 2147483648" and "i < N" and "0 < rv_Term m" and "0 \<le> LastLogTerm m"
  shows "\<exists>n. boot N i CreateFile = Inr n \<and> currentTerm n = 0 \<and> votedFor n = -1 \<and> log n = [] \<and>
     VoteGranted (fst (RequestVote m n))"
proof -
  have r: "i32 (int N) = int N" using assms(1) by (simp add: i32_id)
  have "1 \<le> int (length (kv_addr (int i)))" by (simp add: kv_addr_def)
  then obtain n where n: "boot N i CreateFile = Inr n" "currentTerm n = 0" "votedFor n = -1" "log n = []"
    by (simp add: boot_def InitializeNode_def r go_make_def go_slice_def storage_HasData_def CreateFile_def
        initial_node_def Let_def Connect_raft_node_def)
  moreover have "VoteGranted (fst (RequestVote m n))"
    using n(2,4) assms(3,4) by (simp add: RequestVote_granted up_to_date_def latest_def i32_id Let_def)
  ultimately show ?thesis by blast
qed

theorem crash_in_persist_forgets_vote_witness:
  "\<exists>n. boot 3 1 CreateFile = Inr n \<and>
     VoteGranted (fst (RequestVote \<lparr>rv_Term = 5, CandidateId = 2, LastLogIndex = 0, LastLogTerm = 1\<rparr> n))"
  using crash_in_persist_forgets_vote [of 3 1 "\<lparr>rv_Term = 5, CandidateId = 2, LastLogIndex = 0, LastLogTerm = 1\<rparr>"]
  by auto

end
