(* ===== verification/Raft_Server.thy ===== *)
theory Raft_Server
  imports Raft_Setup
begin

text \<open>
  The HTTP handlers for clients, \<^verbatim>\<open>src/raft/raft_server.go\<close>: the check for leadership under the
  read lock, the command of \<^verbatim>\<open>src/raft/client.go\<close>, and the text of the reply.  As in
  \<open>Raft_Client\<close> the effect of the other goroutines while a command waits is a parameter.
  The properties: a replica that is not the leader refuses and changes nothing, the reply
  tells whether the write was reported committed, a read at the leader returns what the
  key-value server holds, and a percent sign in a value is taken for a formatting verb.
\<close>

section \<open>Formatting without arguments\<close>

text \<open>
  \<open>fmt.Fprintf\<close> with a format and no arguments: \<open>%%\<close> is a percent sign; flags, width and
  precision are skipped; a verb without an argument is reported in the text.  Directives with
  \<open>*\<close> or \<open>[\<close> are outside the model (\<open>None\<close>).
\<close>

definition is_digit :: "char \<Rightarrow> bool" where
  "is_digit c = (c \<in> set ''0123456789'')"

definition skip_precision :: "string \<Rightarrow> string" where
  "skip_precision cs =
     (case cs of [] \<Rightarrow> [] | c # rest \<Rightarrow> if c = CHR ''.'' then dropWhile is_digit rest else cs)"

definition skip_directive :: "string \<Rightarrow> string" where
  "skip_directive cs = skip_precision (dropWhile is_digit (dropWhile (\<lambda>c. c \<in> set '' +-#0'') cs))"

lemma length_skip_precision: "length (skip_precision cs) \<le> length cs"
proof (cases cs)
  case (Cons c rest)
  have "length (dropWhile is_digit rest) \<le> length rest" by (rule length_dropWhile_le)
  with Cons show ?thesis by (simp add: skip_precision_def)
qed (simp add: skip_precision_def)

lemma length_skip_directive: "length (skip_directive cs) \<le> length cs"
  unfolding skip_directive_def
  by (rule order_trans [OF length_skip_precision order_trans [OF length_dropWhile_le length_dropWhile_le]])

lemma skip_directive_shorter: "skip_directive cs = v # rest \<Longrightarrow> length rest < length cs"
  using length_skip_directive [of cs] by simp

function Fprintf0 :: "string \<Rightarrow> string option" where
  "Fprintf0 [] = Some []"
| "Fprintf0 (c # cs) =
     (if c \<noteq> CHR ''%'' then map_option ((#) c) (Fprintf0 cs)
      else case skip_directive cs of
             [] \<Rightarrow> Some ''%!(NOVERB)''
           | v # rest \<Rightarrow>
               if v = CHR ''%'' then map_option ((#) CHR ''%'') (Fprintf0 rest)
               else if v = CHR ''*'' \<or> v = CHR 0x5B then None
               else map_option ((@) (''%!'' @ [v] @ ''(MISSING)'')) (Fprintf0 rest))"
  by pat_completeness auto
termination
  by (relation "measure length") (auto dest: skip_directive_shorter)

lemma Fprintf0_plain: "CHR ''%'' \<notin> set s \<Longrightarrow> Fprintf0 s = Some s"
  by (induction s) auto

section \<open>Handlers\<close>

definition TestHandler :: response where
  "TestHandler = \<lparr>status = 200, header = [], body = nl @ ''Server is up'' @ nl @ nl\<rparr>"

definition not_leader_body :: "RaftNode \<Rightarrow> string" where
  "not_leader_body node =
     nl @ ''Error: Not a leader.'' @ nl @
     nl @ ''Last known leader's address: '' @ leaderAddress (Meta node) @ nl"

text \<open>The reply of the three writing handlers to the result of the command.\<close>

definition write_body :: "string \<Rightarrow> string \<Rightarrow> bool \<times> string option \<Rightarrow> string" where
  "write_body name noun res =
     (case res of
        (True, _) \<Rightarrow> nl @ name @ '' '' @ noun @ '' completed successfully and committed.'' @ nl
      | (False, Some err) \<Rightarrow> nl @ ''Error occured in '' @ name @ '' request: '' @ err @ nl
      | (False, None) \<Rightarrow> [])"

definition RaftPostHandler ::
    "(RaftNode \<Rightarrow> RaftNode) \<Rightarrow> (string \<Rightarrow> string + string) \<Rightarrow> (RaftNode \<Rightarrow> RaftNode) \<Rightarrow> bool \<Rightarrow>
     request \<Rightarrow> RaftNode \<Rightarrow> (response \<times> RaftNode) go" where
  "RaftPostHandler env_read read env_round verdict r node =
     (case parse_error r of
        Some err \<Rightarrow> Inr (reply 201 (''ParseForm() err: '' @ err), node)
      | None \<Rightarrow>
          if state node \<noteq> Leader then Inr (reply 201 (not_leader_body node), node)
          else
            go_bind (WriteCommand env_read read env_round verdict
                       [''POST'', url_key r, FormValue r ''value''] (FormValue r ''client'') node)
              (\<lambda>(res, n1). Inr (reply 201 (write_body ''POST'' ''request'' res), n1)))"

definition RaftPutHandler ::
    "(RaftNode \<Rightarrow> RaftNode) \<Rightarrow> (string \<Rightarrow> string + string) \<Rightarrow> (RaftNode \<Rightarrow> RaftNode) \<Rightarrow> bool \<Rightarrow>
     request \<Rightarrow> RaftNode \<Rightarrow> (response \<times> RaftNode) go" where
  "RaftPutHandler env_read read env_round verdict r node =
     (case parse_error r of
        Some err \<Rightarrow> Inr (reply 202 (''ParseForm() err: '' @ err), node)
      | None \<Rightarrow>
          if state node \<noteq> Leader then Inr (reply 202 (not_leader_body node), node)
          else
            go_bind (WriteCommand env_read read env_round verdict
                       [''PUT'', url_key r, FormValue r ''value''] (FormValue r ''client'') node)
              (\<lambda>(res, n1). Inr (reply 202 (write_body ''PUT'' ''request'' res), n1)))"

text \<open>DELETE parses the form before it sets the headers, and writes with an empty client.\<close>

definition RaftDeleteHandler ::
    "(RaftNode \<Rightarrow> RaftNode) \<Rightarrow> (string \<Rightarrow> string + string) \<Rightarrow> (RaftNode \<Rightarrow> RaftNode) \<Rightarrow> bool \<Rightarrow>
     request \<Rightarrow> RaftNode \<Rightarrow> (response \<times> RaftNode) go" where
  "RaftDeleteHandler env_read read env_round verdict r node =
     (case parse_error r of
        Some err \<Rightarrow> Inr (\<lparr>status = 200, header = [], body = ''ParseForm() err: '' @ err\<rparr>, node)
      | None \<Rightarrow>
          if state node \<noteq> Leader then Inr (reply 200 (not_leader_body node), node)
          else
            go_bind (WriteCommand env_read read env_round verdict [''DELETE'', url_key r] [] node)
              (\<lambda>(res, n1). Inr (reply 200 (write_body ''DELETE'' ''requested'' res), n1)))"

text \<open>
  GET: \<open>env\<close> is what the other goroutines do during the heartbeat round whose verdict is
  \<open>status\<close>.  The reply is composed first and then passed to \<open>fmt.Fprintf\<close> as the format.
\<close>

definition RaftGetHandler ::
    "(RaftNode \<Rightarrow> RaftNode) \<Rightarrow> bool \<Rightarrow> (string \<Rightarrow> (string + string) option) \<Rightarrow>
     request \<Rightarrow> RaftNode \<Rightarrow> (response \<times> RaftNode) option" where
  "RaftGetHandler env verdict http_get r node =
     (if state node \<noteq> Leader then Some (reply 200 (not_leader_body node), node)
      else
        let n1 = env node
        in case ReadCommand_finish verdict http_get (url_key r) n1 of
             Inr contents \<Rightarrow>
               map_option (\<lambda>b. (reply 200 b, n1))
                 (Fprintf0 (nl @ ''Read operation completed. Result: '' @ contents @ nl))
           | Inl err \<Rightarrow> Some (reply 200 (nl @ ''Read failed with error: '' @ err @ nl), n1))"

text \<open>
  A GET request to the key-value server, as \<open>ReadCommand\<close> makes it: the URL with the key as it is,
  parsed again (\<open>None\<close> is the error of \<open>http.Get\<close>), redirected by the router, and the body of the
  reply.
\<close>

definition kv_http_get :: "store \<times> filesystem \<Rightarrow> string \<Rightarrow> (string + string) option" where
  "kv_http_get s key =
     (case url_path key of
        None \<Rightarrow> None
      | Some p \<Rightarrow>
          (case routed p of
             None \<Rightarrow> Some (Inr (''404 page not found'' @ nl))
           | Some k \<Rightarrow> map_option (\<lambda>(resp, s'). Inr (body resp)) (kv_serve True GET (kv_request k []) s)))"

text \<open>A key under which a GET finds what was written: kept by the URL, and not the fixed route.\<close>

definition readable :: "string \<Rightarrow> bool" where
  "readable key \<longleftrightarrow> url_ok key \<and> key \<noteq> ''kvstore''"

lemma readable_literals [simp]: "readable ''k''" "readable ''a''" "readable ''b''" "readable ''m''" "readable ''test''"
  by (simp_all add: readable_def control_char_def url_okI)

lemma readable_url_ok [simp]: "readable key \<Longrightarrow> url_ok key"
  by (simp add: readable_def)

text \<open>What a GET at the key-value server returns.\<close>

definition contents :: "string option \<Rightarrow> string" where
  "contents v = (case v of Some x \<Rightarrow> ''Value = '' @ x @ nl | None \<Rightarrow> ''Invalid key value pair'' @ nl)"

lemma kv_http_get_value:
  assumes "kv_rel m s" and "readable key"
  shows "kv_http_get s key = Some (Inr (case m key of Some x \<Rightarrow> ''Value = '' @ x @ nl | None \<Rightarrow> ''Invalid key value pair'' @ nl))"
  using GetHandler_sim [OF assms(1), of True "kv_request key []"] assms(2)
  by (simp add: kv_http_get_def readable_def url_ok_def kv_serve_def kv_route_def kv_request_def kv_spec_def reply_def split: option.splits)

lemmas kv_http_get_contents = kv_http_get_value [folded contents_def]

section \<open>Properties\<close>

text \<open>
  A replica that is not the leader changes nothing: each of the four handlers answers
  with the refusal and the address of the last known leader and leaves the node as it is.
\<close>

theorem not_leader_refuses:
  assumes "state n \<noteq> Leader" and "parse_error r = None"
  shows "RaftPostHandler e1 rd e2 v r n = Inr (reply 201 (not_leader_body n), n) \<and>
     RaftPutHandler e1 rd e2 v r n = Inr (reply 202 (not_leader_body n), n) \<and>
     RaftDeleteHandler e1 rd e2 v r n = Inr (reply 200 (not_leader_body n), n) \<and>
     RaftGetHandler e1 v hg r n = Some (reply 200 (not_leader_body n), n)"
  using assms
  by (simp add: RaftPostHandler_def RaftPutHandler_def RaftDeleteHandler_def RaftGetHandler_def)

theorem not_leader_refuses_witness:
  "RaftPostHandler id Inl id True (sample ''k'' ''v'') (demo_replica 1)
     = Inr (reply 201 (not_leader_body (demo_replica 1)), demo_replica 1)"
  using not_leader_refuses [of "demo_replica 1" "sample ''k'' ''v''" id Inl id True "\<lambda>_. None"]
  by (simp add: sample_def demo_replica_def initial_node_def Let_def)

text \<open>
  A POST that the round of AppendEntries confirms is acknowledged and committed: the
  reply says so, the entry with the key and value of the request is the last of the log, and
  the commit index has reached it; without the confirmation the reply reports the error and
  the commit index stays.
\<close>

theorem post_acknowledged_iff_committed:
  assumes "state n = Leader" and "commitIndex n + 1 = int (length (log n))" and "log n \<noteq> []" and "small (log n)"
    and "parse_error r = None"
    and "trackMessage n (FormValue r ''client'') \<noteq> Some [''POST'', url_key r, FormValue r ''value'']"
  shows "\<exists>resp n'. RaftPostHandler e1 rd id v r n = Inr (resp, n') \<and>
     Operation (last (log n')) = [''POST'', url_key r, FormValue r ''value''] \<and>
     (if v then body resp = nl @ ''POST request completed successfully and committed.'' @ nl \<and>
                commitIndex n' = int (length (log n')) - 1
      else body resp = nl @ ''Error occured in POST request: Write operation failed. Write could not be replicated on majority of nodes.'' @ nl \<and>
           commitIndex n' = commitIndex n)"
  using assms
  by (simp add: RaftPostHandler_def WriteCommand_post reply_def write_body_def WriteCommand_finish_def
      Let_def written_def)

theorem post_acknowledged_iff_committed_witness:
  "\<exists>resp n'. RaftPostHandler id Inl id True (sample ''k'' ''v'') (demo_leader [demo_entry 1] 0) = Inr (resp, n') \<and>
     Operation (last (log n')) = [''POST'', ''k'', ''v''] \<and> commitIndex n' = int (length (log n')) - 1"
  using post_acknowledged_iff_committed [of "demo_leader [demo_entry 1] 0" "sample ''k'' ''v''" id Inl True]
  by (auto simp: sample_def FormValue_def small_def)

text \<open>
  A read at a leader that the heartbeat round confirms returns the value that the
  replica's key-value server holds for the key, or the text for a missing key, whenever the
  value has no percent sign and the key is one that the URL keeps and not the fixed path of the
  key-value server.
\<close>

theorem read_returns_value:
  assumes "state n = Leader" and "state (env n) = Leader" and "kv_rel m s" and "readable (url_key r)"
    and "case m (url_key r) of Some x \<Rightarrow> CHR ''%'' \<notin> set x | None \<Rightarrow> True"
  shows "\<exists>resp. RaftGetHandler env True (kv_http_get s) r n = Some (resp, env n) \<and>
     body resp = nl @ ''Read operation completed. Result: '' @
       (case m (url_key r) of Some x \<Rightarrow> ''Value = '' @ x @ nl | None \<Rightarrow> ''Invalid key value pair'' @ nl) @ nl"
proof -
  let ?b = "case m (url_key r) of Some x \<Rightarrow> ''Value = '' @ x @ nl | None \<Rightarrow> ''Invalid key value pair'' @ nl"
  have "kv_http_get s (url_key r) = Some (Inr ?b)" by (rule kv_http_get_value [OF assms(3,4)])
  moreover have "CHR ''%'' \<notin> set (nl @ ''Read operation completed. Result: '' @ ?b @ nl)"
    using assms(5) by (cases "m (url_key r)") (simp_all add: nl_def)
  ultimately show ?thesis
    using assms(1,2) Fprintf0_plain [of "nl @ ''Read operation completed. Result: '' @ ?b @ nl"]
    by (simp add: RaftGetHandler_def ReadCommand_finish_def reply_def Let_def)
qed

theorem read_returns_value_witness:
  "\<exists>resp. RaftGetHandler id True (kv_http_get demo_kv) (kv_request ''k'' []) (demo_leader [demo_entry 1] 0)
       = Some (resp, demo_leader [demo_entry 1] 0) \<and>
     body resp = nl @ ''Read operation completed. Result: '' @ (''Invalid key value pair'' @ nl) @ nl"
  using read_returns_value [OF _ _ demo_kv_rel, of "demo_leader [demo_entry 1] 0" id "kv_request ''k'' []"]
  by (simp add: kv_request_def)

text \<open>
  The value read is used as a format: a percent sign followed by a letter in a stored
  value does not come back as it was written, but as a report of a missing argument.
\<close>

theorem percent_in_value_garbled:
  assumes "state n = Leader" and "state (env n) = Leader" and "kv_rel m s" and "readable (url_key r)"
    and "m (url_key r) = Some (''100%d'')"
  shows "\<exists>resp. RaftGetHandler env True (kv_http_get s) r n = Some (resp, env n) \<and>
     body resp = nl @ ''Read operation completed. Result: Value = 100%!d(MISSING)'' @ nl @ nl"
proof -
  have "kv_http_get s (url_key r) = Some (Inr (''Value = 100%d'' @ nl))"
    using kv_http_get_value [OF assms(3,4)] assms(5) by simp
  moreover have "Fprintf0 (nl @ ''Read operation completed. Result: '' @ (''Value = 100%d'' @ nl) @ nl)
      = Some (nl @ ''Read operation completed. Result: Value = 100%!d(MISSING)'' @ nl @ nl)"
    by code_simp
  ultimately show ?thesis
    using assms(1,2) by (simp add: RaftGetHandler_def ReadCommand_finish_def reply_def Let_def)
qed

theorem percent_in_value_garbled_witness:
  "\<exists>s resp. kv_rel [''k'' \<mapsto> ''100%d''] s \<and>
     RaftGetHandler id True (kv_http_get s) (kv_request ''k'' []) (demo_leader [demo_entry 1] 0)
       = Some (resp, demo_leader [demo_entry 1] 0) \<and>
     body resp = nl @ ''Read operation completed. Result: Value = 100%!d(MISSING)'' @ nl @ nl"
proof -
  let ?r = "kv_request ''k'' [(''value'', ''100%d'')]"
  have "plain ?r" by (simp add: plain_def kv_request_def FormValue_def)
  from PostHandler_sim [OF demo_kv_rel this] obtain s where s: "kv_rel [''k'' \<mapsto> ''100%d''] s"
    by (auto simp: kv_spec_def kv_request_def FormValue_def)
  have k: "readable (url_key (kv_request ''k'' []))" "[''k'' \<mapsto> ''100%d''] (url_key (kv_request ''k'' [])) = Some ''100%d''"
    by (simp_all add: kv_request_def)
  have l: "state (demo_leader [demo_entry 1] 0) = Leader" "state (id (demo_leader [demo_entry 1] 0)) = Leader" by simp_all
  from percent_in_value_garbled [where env = id, OF l s k] s show ?thesis unfolding id_apply by blast
qed

end
