(* ===== verification/Raft_Service.thy ===== *)
theory Raft_Service
  imports Raft_Round Raft_Server
begin

text \<open>
  The commands of \<^verbatim>\<open>src/raft/client.go\<close> in full, over rounds of AppendEntries instead of given
  verdicts: \<open>ReadCommand\<close> with its wait and its round of heartbeats, \<open>WriteCommand\<close> with its
  wait, its existence check and its round.  The node's other goroutines act during the waits
  (\<open>naps\<close>); otherwise the sections follow each other.  A command that waits forever, for the apply
  loop or for a verdict, is \<open>None\<close>.
  The theorems are about the service as a client sees it: an acknowledged write is on a majority
  of the replicas, it is what a later read returns, and the stores of all replicas that answer
  come to hold it.
\<close>

section \<open>Commands over rounds\<close>

text \<open>The wait at the start of a command: what other goroutines do in each of its naps.\<close>

fun wait_applied :: "(RaftNode \<Rightarrow> RaftNode) list \<Rightarrow> RaftNode \<Rightarrow> RaftNode option" where
  "wait_applied [] node = (if WriteCommand_waits node then None else Some node)"
| "wait_applied (nap # naps) node =
     (if WriteCommand_waits node then wait_applied naps (nap node) else Some node)"

type_synonym 'a command = "RaftNode \<times> (nat \<Rightarrow> RaftNode) \<Rightarrow> ('a \<times> RaftNode \<times> (nat \<Rightarrow> RaftNode)) option go"

definition ReadCommand ::
    "(RaftNode \<Rightarrow> RaftNode) list \<Rightarrow> circumstances \<Rightarrow> (string \<Rightarrow> (string + string) option) \<Rightarrow> string \<Rightarrow>
     (string + string) command" where
  "ReadCommand naps c http_get key s =
     (case wait_applied naps (fst s) of
        None \<Rightarrow> Inr None
      | Some n1 \<Rightarrow>
          (let (hbeat_msg, upper_index) = StaleReadCheck n1
           in go_bind (LeaderSendAEs (fst c) (snd c) hbeat_msg upper_index (n1, snd s)) (\<lambda>r.
                case verdicts r of
                  [] \<Rightarrow> Inr None
                | confirmed # _ \<Rightarrow>
                    Inr (Some (ReadCommand_finish confirmed http_get key (rd_leader r), rd_leader r, rd_peers r)))))"

text \<open>From the append to the reply.\<close>

definition WriteCommand_round :: "circumstances \<Rightarrow> string list \<Rightarrow> string \<Rightarrow> (bool \<times> string option) command" where
  "WriteCommand_round c operation client s =
     go_bind (WriteCommand_append operation client (fst s)) (\<lambda>(msg, upper_index, n1).
       go_bind (LeaderSendAEs (fst c) (snd c) msg upper_index (n1, snd s)) (\<lambda>r.
         case verdicts r of
           [] \<Rightarrow> Inr None
         | success # _ \<Rightarrow>
             (let (result, n2) = WriteCommand_finish success operation client (rd_leader r)
              in Inr (Some (result, n2, rd_peers r)))))"

text \<open>The whole command; \<open>rc\<close> and \<open>c\<close> are the circumstances of the round of the existence check
  and of the round of the write.\<close>

definition WriteCommand_full ::
    "(RaftNode \<Rightarrow> RaftNode) list \<Rightarrow> (RaftNode \<Rightarrow> RaftNode) list \<Rightarrow> circumstances \<Rightarrow>
     (string \<Rightarrow> (string + string) option) \<Rightarrow> circumstances \<Rightarrow> string list \<Rightarrow> string \<Rightarrow>
     (bool \<times> string option) command" where
  "WriteCommand_full naps read_naps rc http_get c operation client s =
     (case wait_applied naps (fst s) of
        None \<Rightarrow> Inr None
      | Some n1 \<Rightarrow>
          go_bind (WriteCommand_check operation client n1) (\<lambda>next.
            case next of
              Refuse err \<Rightarrow> Inr (Some ((False, Some err), n1, snd s))
            | Proceed \<Rightarrow> WriteCommand_round c operation client (n1, snd s)
            | CheckExists key \<Rightarrow>
                go_bind (ReadCommand read_naps rc http_get key (n1, snd s)) (\<lambda>res.
                  case res of
                    None \<Rightarrow> Inr None
                  | Some (response, s2) \<Rightarrow>
                      (case WriteCommand_exists (operation ! 0) response of
                         Refuse err \<Rightarrow> Inr (Some ((False, Some err), s2))
                       | _ \<Rightarrow> WriteCommand_round c operation client s2))))"

section \<open>Commands that end\<close>

lemma ReadCommand_inv:
  assumes "ReadCommand [] x http_get key (n, peers) = Inr (Some (response, s'))"
  obtains m u r where "LeaderSendAEs (fst x) (snd x) m u (n, peers) = Inr r" "s' = (rd_leader r, rd_peers r)"
proof -
  let ?round = "LeaderSendAEs (fst x) (snd x) (fst (StaleReadCheck n)) (snd (StaleReadCheck n)) (n, peers)"
  have w: "\<not> WriteCommand_waits n" using assms by (auto simp: ReadCommand_def split: if_splits)
  then have "go_bind ?round (\<lambda>r. case verdicts r of [] \<Rightarrow> Inr None | confirmed # _ \<Rightarrow>
      Inr (Some (ReadCommand_finish confirmed http_get key (rd_leader r), rd_leader r, rd_peers r)))
    = Inr (Some (response, s'))"
    using assms by (simp add: ReadCommand_def split_beta)
  moreover from this obtain r where r: "?round = Inr r" by (cases ?round) auto
  ultimately have "s' = (rd_leader r, rd_peers r)" by (cases "verdicts r") auto
  with r that show thesis by blast
qed

lemma WriteCommand_round_inv:
  assumes "WriteCommand_round x operation client (n, peers) = Inr (Some (result, s'))"
  obtains m u n1 r b where "WriteCommand_append operation client n = Inr (m, u, n1)"
    "LeaderSendAEs (fst x) (snd x) m u (n1, peers) = Inr r"
    "result = fst (WriteCommand_finish b operation client (rd_leader r))"
    "s' = (snd (WriteCommand_finish b operation client (rd_leader r)), rd_peers r)"
proof -
  from assms obtain m u n1 where a: "WriteCommand_append operation client n = Inr (m, u, n1)"
    by (auto simp: WriteCommand_round_def go_bind_eq_Inr)
  moreover from this assms obtain r where r: "LeaderSendAEs (fst x) (snd x) m u (n1, peers) = Inr r"
    by (cases "LeaderSendAEs (fst x) (snd x) m u (n1, peers)") (auto simp: WriteCommand_round_def)
  ultimately obtain b where "result = fst (WriteCommand_finish b operation client (rd_leader r))"
    "s' = (snd (WriteCommand_finish b operation client (rd_leader r)), rd_peers r)"
    using assms by (cases "verdicts r") (auto simp: WriteCommand_round_def split_beta)
  with a r that show thesis by blast
qed

text \<open>What a round leaves alone at its leader, whatever the network does and even if it steps down.\<close>

definition kept :: "RaftNode \<Rightarrow> RaftNode \<Rightarrow> bool" where
  "kept n n' \<longleftrightarrow> log n' = log n \<and> commitIndex n' = commitIndex n \<and> lastApplied n' = lastApplied n \<and>
     Meta n' = Meta n \<and> trackMessage n' = trackMessage n \<and> commits_of (effects n') = commits_of (effects n)"

lemma kept_refl [simp]: "kept n n"
  by (simp add: kept_def)

lemma kept_trans: "kept n n1 \<Longrightarrow> kept n1 n2 \<Longrightarrow> kept n n2"
  by (simp add: kept_def)

lemma kept_resp: "LeaderSendAE_resp rid u m resp n = Inr (next, n') \<Longrightarrow> kept n n'"
  by (auto simp: LeaderSendAE_resp_def Let_def go_bind_eq_Inr kept_def split: option.splits if_splits)

lemma kept_net: "LeaderSendAE_net fates rid u m n p = Inr (ok, n', p') \<Longrightarrow> kept n n'"
proof (induction fates arbitrary: m n p)
  case (Cons f fates)
  show ?case
  proof (cases f)
    case Delivered
    from Cons.prems [unfolded Delivered] show ?thesis
    proof (cases rule: delivered_inv)
      case (last resp b)
      from kept_resp [OF last(2)] show ?thesis .
    next
      case (more resp p1 m1 n1)
      from kept_trans [OF kept_resp [OF more(2)] Cons.IH [OF more(3)]] show ?thesis .
    qed
  qed (use Cons.prems in \<open>auto simp: go_bind_eq_Inr\<close>)
qed simp

lemma kept_goroutine: "goroutine net u g r = Inr r' \<Longrightarrow> kept (rd_leader r) (rd_leader r')"
  by (erule goroutine_inv) (simp add: kept_net)

lemma kept_goroutines: "goroutines net u gs r = Inr r' \<Longrightarrow> kept (rd_leader r) (rd_leader r')"
proof (induction gs arbitrary: r)
  case (Cons g gs)
  from Cons.prems obtain r1 where r1: "goroutine net u g r = Inr r1" "goroutines net u gs r1 = Inr r'"
    by (rule goroutines_inv)
  from kept_trans [OF kept_goroutine [OF r1(1)] Cons.IH [OF r1(2)]] show ?case .
qed simp

lemma kept_round: "LeaderSendAEs sched net m u (n, peers) = Inr r \<Longrightarrow> kept n (rd_leader r)"
  using kept_goroutines by (fastforce simp: LeaderSendAEs_def)

lemma kept_ReadCommand:
  assumes "ReadCommand [] x http_get key (n, peers) = Inr (Some (response, n', peers'))"
  shows "kept n n'"
  using assms by (rule ReadCommand_inv) (use kept_round in blast)

text \<open>A write ends in a refusal at once, in its round, or after the read of the existence check.\<close>

lemma WriteCommand_full_inv:
  assumes "WriteCommand_full [] [] rx http_get x operation client s = Inr (Some (result, s'))"
  obtains (refused) "s' = s" "\<not> fst result"
  | (round) "WriteCommand_round x operation client s = Inr (Some (result, s'))"
  | (missing) key response where "ReadCommand [] rx http_get key s = Inr (Some (response, s'))" "\<not> fst result"
  | (found) key response s2 where "ReadCommand [] rx http_get key s = Inr (Some (response, s2))"
      "WriteCommand_round x operation client s2 = Inr (Some (result, s'))"
proof -
  obtain n peers where s: "s = (n, peers)" by (cases s)
  have w: "\<not> WriteCommand_waits n" using assms by (auto simp: WriteCommand_full_def s split: if_splits)
  then obtain nxt where "WriteCommand_check operation client n = Inr nxt"
    using assms by (auto simp: WriteCommand_full_def s go_bind_eq_Inr)
  with assms w consider "s' = s" "\<not> fst result" | "WriteCommand_round x operation client s = Inr (Some (result, s'))"
    | key where "go_bind (ReadCommand [] rx http_get key s) (\<lambda>res.
                  case res of
                    None \<Rightarrow> Inr None
                  | Some (response, s2) \<Rightarrow>
                      (case WriteCommand_exists (operation ! 0) response of
                         Refuse err \<Rightarrow> Inr (Some ((False, Some err), s2))
                       | _ \<Rightarrow> WriteCommand_round x operation client s2)) = Inr (Some (result, s'))"
    by (cases nxt) (auto simp: WriteCommand_full_def s)
  then show thesis
  proof cases
    case (3 key)
    then obtain response s2 where r: "ReadCommand [] rx http_get key s = Inr (Some (response, s2))"
      by (auto simp: go_bind_eq_Inr split: option.splits)
    from 3 r consider "s' = s2" "\<not> fst result" | "WriteCommand_round x operation client s2 = Inr (Some (result, s'))"
      by (auto split: write_next.splits)
    then show thesis using r missing found by cases blast+
  qed (use refused round in blast)+
qed

section \<open>A settled leader\<close>

text \<open>The leader has applied what it has committed, so that commands do not wait.\<close>

definition settled :: "RaftNode \<Rightarrow> bool" where
  "settled n \<longleftrightarrow> lastApplied n = commitIndex n \<and> log n \<noteq> []"

lemma wait_settled [simp]: "settled n \<Longrightarrow> wait_applied naps n = Some n"
  by (cases naps) (simp_all add: settled_def WriteCommand_waits_def)

lemma leader_frame_settled: "leader_frame n n' \<Longrightarrow> settled n' = settled n"
  by (simp add: settled_def leader_frame_fields)

lemma ReadCommand_settled:
  assumes "leading N i n" and "i < N" and "2 \<le> N" and "N < 2147483647" and "settled n"
    and "permuting (fst c)" and "peers_follow N i n peers"
  shows "\<exists>v n1 peers'. ReadCommand naps c http_get key (n, peers)
       = Inr (Some (if v then ReadCommand_finish True http_get key n else Inl ''read_failed'', n1, peers')) \<and>
     leading N i n1 \<and> leader_frame n n1 \<and> peers_follow N i n peers' \<and>
     (\<forall>j < N. j \<noteq> i \<longrightarrow> moved n (peers j) (peers' j)) \<and>
     (\<forall>j \<in> responders N i n (snd c). j = i \<or> replicated n (peers' j)) \<and>
     (N < 2 * card (responders N i n (snd c)) \<longrightarrow> v)"
proof -
  have pf: "\<forall>j < N. j \<noteq> i \<longrightarrow> follows n (peers j)" using assms(7) by (simp add: peers_follow_def)
  from LeaderSendAEs_follow [OF assms(1-4) headed_header refl assms(6) pf, of "snd c"] obtain r v where
    r: "LeaderSendAEs (fst c) (snd c) (header_msg n) (int (length (log n)) - 1) (n, peers) = Inr r"
      "leading N i (rd_leader r)" "leader_frame n (rd_leader r)"
      "\<forall>j < N. j \<noteq> i \<longrightarrow> moved n (peers j) (rd_peers r j)" "verdicts r = [v]"
      "\<forall>j \<in> responders N i n (snd c). j = i \<or> replicated n (rd_peers r j)"
      "N < 2 * card (responders N i n (snd c)) \<longrightarrow> v" by blast
  have "state (rd_leader r) = state n" using leader_frame_fields [OF r(3)] by simp
  then have "ReadCommand naps c http_get key (n, peers)
      = Inr (Some (if v then ReadCommand_finish True http_get key n else Inl ''read_failed'', rd_leader r, rd_peers r))"
    using r(1,5) assms(5) leading_upper [OF assms(1)]
    by (simp add: ReadCommand_def StaleReadCheck_def ReadCommand_finish_def)
  moreover have "peers_follow N i n (rd_peers r)" using r(4) by (auto simp: peers_follow_def moved_follows)
  ultimately show ?thesis using r(2-4,6,7) by blast
qed

text \<open>The leader with the entry of a client's operation appended.\<close>

lemma appended_leading:
  assumes "leading N i n" and "int (length (log n)) + 1 < 2147483648"
  shows "leading N i (appended operation client n)"
  using assms by (auto simp: leading_def connected_def indices_ok_def small_def appended_def)

lemma appended_follow:
  assumes "peers_follow N i n peers" and "\<forall>j < N. j \<noteq> i \<longrightarrow> fresh_term n (peers j)"
  shows "peers_follow N i (appended operation client n) peers"
  unfolding peers_follow_def
proof (intro allI impI)
  fix j
  assume "j < N" "j \<noteq> i"
  with assms have "follows n (peers j)" "fresh_term n (peers j)" by (simp_all add: peers_follow_def)
  then show "follows (appended operation client n) (peers j)"
    by (rule follows_append [where e = "written operation client n"]) (simp_all add: written_def)
qed

lemma WriteCommand_round_leading:
  assumes "leading N i n" and "i < N" and "2 \<le> N" and "N < 2147483647" and "log n \<noteq> []"
    and "int (length (log n)) + 1 < 2147483648" and "permuting (fst c)"
    and "peers_follow N i n peers" and "\<forall>j < N. j \<noteq> i \<longrightarrow> fresh_term n (peers j)"
  shows "\<exists>v n1 peers'. WriteCommand_round c operation client (n, peers)
       = Inr (Some (fst (WriteCommand_finish v operation client n1), snd (WriteCommand_finish v operation client n1), peers')) \<and>
     leading N i n1 \<and> leader_frame (appended operation client n) n1 \<and>
     (\<forall>j < N. j \<noteq> i \<longrightarrow> moved (appended operation client n) (peers j) (peers' j)) \<and>
     (v \<longrightarrow> N < 2 * card (holders N i (appended operation client n) peers')) \<and>
     (N < 2 * card (responders N i (appended operation client n) (snd c)) \<longrightarrow> v)"
proof -
  let ?n = "appended operation client n"
  have lead: "leading N i ?n" by (rule appended_leading [OF assms(1,6)])
  have pf: "\<forall>j < N. j \<noteq> i \<longrightarrow> follows ?n (peers j)"
    using appended_follow [OF assms(8,9)] by (simp add: peers_follow_def)
  let ?m = "header_msg (n\<lparr>Meta := (Meta n)\<lparr>latestClient := client\<rparr>\<rparr>)"
  have m: "headed ?n ?m" by (simp add: headed_def header_msg_def)
  from LeaderSendAEs_follow [OF lead assms(2-4) m refl assms(7) pf, of "snd c"] obtain r v where
    r: "LeaderSendAEs (fst c) (snd c) ?m (int (length (log ?n)) - 1) (?n, peers) = Inr r"
      "leading N i (rd_leader r)" "leader_frame ?n (rd_leader r)"
      "\<forall>j < N. j \<noteq> i \<longrightarrow> moved ?n (peers j) (rd_peers r j)" "verdicts r = [v]"
      "v \<longrightarrow> N < 2 * card (holders N i ?n (rd_peers r))"
      "N < 2 * card (responders N i ?n (snd c)) \<longrightarrow> v" by blast
  have app: "WriteCommand_append operation client n = Inr (?m, int (length (log ?n)) - 1, ?n)"
    using WriteCommand_append_eq [OF assms(5), of operation client] assms(6)
    by (simp add: appended_def written_def i32_id)
  have "WriteCommand_round c operation client (n, peers)
      = Inr (Some (fst (WriteCommand_finish v operation client (rd_leader r)),
                   snd (WriteCommand_finish v operation client (rd_leader r)), rd_peers r))"
    using r(1,5) app by (simp add: WriteCommand_round_def split_beta)
  with r(2-4,6,7) show ?thesis by blast
qed

text \<open>A write that the leader takes: not a repetition, and for PUT and DELETE the key exists.\<close>

definition admitted :: "(string \<Rightarrow> (string + string) option) \<Rightarrow> string list \<Rightarrow> string \<Rightarrow> RaftNode \<Rightarrow> bool" where
  "admitted http_get operation client n \<longleftrightarrow> \<not> repeated operation client n \<and>
     ((\<exists>args. operation = ''POST'' # args) \<or>
      (\<exists>key args. (operation = ''PUT'' # key # args \<or> operation = ''DELETE'' # key # args) \<and>
                  http_get key \<noteq> Some (Inr (''Invalid key value pair'' @ newline))))"

lemma ReadCommand_finish_exists:
  assumes "http_get key \<noteq> Some (Inr (''Invalid key value pair'' @ newline))"
  shows "ReadCommand_finish v http_get key n \<noteq> Inr (''Invalid key value pair'' @ newline)"
  using assms by (auto simp: ReadCommand_finish_def split: option.splits sum.splits)

lemma WriteCommand_full_settled:
  assumes "leading N i n" and "i < N" and "2 \<le> N" and "N < 2147483647" and "settled n"
    and "permuting (fst rc)" and "peers_follow N i n peers" and "admitted http_get operation client n"
  shows "\<exists>n0 peers0. WriteCommand_full naps read_naps rc http_get c operation client (n, peers)
       = WriteCommand_round c operation client (n0, peers0) \<and> leading N i n0 \<and> leader_frame n n0 \<and>
     peers_follow N i n0 peers0 \<and> (\<forall>j < N. j \<noteq> i \<longrightarrow> moved n (peers j) (peers0 j))"
proof -
  have st: "state n = Leader" using assms(1) by (simp add: leading_def)
  have refl: "\<forall>j < N. j \<noteq> i \<longrightarrow> moved n (peers j) (peers j)" using assms(7) by (simp add: peers_follow_def moved_refl)
  from assms(8) consider args where "operation = ''POST'' # args" "\<not> repeated operation client n"
    | key args m where "operation = m # key # args" "m = ''PUT'' \<or> m = ''DELETE''"
        "\<not> repeated operation client n" "http_get key \<noteq> Some (Inr (''Invalid key value pair'' @ newline))"
    by (auto simp: admitted_def)
  then show ?thesis
  proof cases
    case (1 args)
    then have "WriteCommand_full naps read_naps rc http_get c operation client (n, peers)
        = WriteCommand_round c operation client (n, peers)"
      using st assms(5) WriteCommand_check_eq [OF st 1(1), of client] by (simp add: WriteCommand_full_def)
    with assms(1,7) refl show ?thesis by (intro exI [of _ n] exI [of _ peers]) simp
  next
    case (2 key args m)
    from ReadCommand_settled [OF assms(1-7), of read_naps http_get key] obtain v n1 peers' where
      r: "ReadCommand read_naps rc http_get key (n, peers)
          = Inr (Some (if v then ReadCommand_finish True http_get key n else Inl ''read_failed'', n1, peers'))"
        "leading N i n1" "leader_frame n n1" "peers_follow N i n peers'"
        "\<forall>j < N. j \<noteq> i \<longrightarrow> moved n (peers j) (peers' j)" by blast
    have ck: "WriteCommand_check operation client n = Inr (CheckExists key)"
      using WriteCommand_check_eq [OF st 2(1), of client] 2 by auto
    have "WriteCommand_exists (operation ! 0)
        (if v then ReadCommand_finish True http_get key n else Inl ''read_failed'') = Proceed"
      using ReadCommand_finish_exists [of http_get key True n] 2(4) by (simp add: WriteCommand_exists_def)
    then have "WriteCommand_full naps read_naps rc http_get c operation client (n, peers)
        = WriteCommand_round c operation client (n1, peers')"
      using assms(5) ck r(1) by (simp add: WriteCommand_full_def)
    moreover have "peers_follow N i n1 peers'" using r(4) by (simp add: leader_frame_sets [OF r(3)])
    ultimately show ?thesis using r(2,3,5) by blast
  qed
qed

lemma appended_frame:
  assumes "leader_frame n n0"
  shows "log (appended operation client n0) = log (appended operation client n)"
    "responders N i (appended operation client n0) = responders N i (appended operation client n)"
  using leader_frame_fields [OF assms]
  by (simp_all add: fun_eq_iff responders_def responsive_def written_def)

text \<open>A write that is taken, from the request to the reply.\<close>

lemma WriteCommand_full_leading:
  assumes "leading N i n" and "i < N" and "2 \<le> N" and "N < 2147483647" and "settled n"
    and "permuting (fst rc)" and "permuting (fst c)" and "int (length (log n)) + 1 < 2147483648"
    and "peers_follow N i n peers" and "\<forall>j < N. j \<noteq> i \<longrightarrow> fresh_term n (peers j)"
    and "admitted http_get operation client n"
  shows "\<exists>v n1 peers'. WriteCommand_full naps read_naps rc http_get c operation client (n, peers)
       = Inr (Some (fst (WriteCommand_finish v operation client n1), snd (WriteCommand_finish v operation client n1), peers')) \<and>
     leading N i n1 \<and> log n1 = log n @ [written operation client n] \<and> commitIndex n1 = commitIndex n \<and>
     lastApplied n1 = lastApplied n \<and> currentTerm n1 = currentTerm n \<and> kvstore_addr (Meta n1) = kvstore_addr (Meta n) \<and>
     trackMessage n1 = trackMessage n \<and> latestClient (Meta n1) = client \<and>
     (\<forall>j < N. j \<noteq> i \<longrightarrow> (\<exists>p. moved n (peers j) p \<and> moved n1 p (peers' j))) \<and>
     (v \<longrightarrow> N < 2 * card (holders N i n1 peers')) \<and>
     (N < 2 * card (responders N i (appended operation client n) (snd c)) \<longrightarrow> v)"
proof -
  from WriteCommand_full_settled [OF assms(1-6,9,11)] obtain n0 peers0 where
    0: "WriteCommand_full naps read_naps rc http_get c operation client (n, peers)
        = WriteCommand_round c operation client (n0, peers0)" "leading N i n0" "leader_frame n n0"
      "peers_follow N i n0 peers0" "\<forall>j < N. j \<noteq> i \<longrightarrow> moved n (peers j) (peers0 j)" by blast
  note fr0 = leader_frame_fields [OF 0(3)]
  have nonempty: "log n0 \<noteq> []" "int (length (log n0)) + 1 < 2147483648"
    using assms(5,8) by (simp_all add: settled_def fr0)
  have "fresh_term n0 (peers0 j)" if "j < N" "j \<noteq> i" for j
    using fresh_moved [of n "peers j" "peers0 j"] 0(5) assms(10) that by (simp add: fresh_term_def fr0)
  then have "\<forall>j < N. j \<noteq> i \<longrightarrow> fresh_term n0 (peers0 j)" by blast
  from WriteCommand_round_leading [OF 0(2) assms(2-4) nonempty assms(7) 0(4) this, of operation client]
  obtain v n1 peers' where
    1: "WriteCommand_round c operation client (n0, peers0)
        = Inr (Some (fst (WriteCommand_finish v operation client n1), snd (WriteCommand_finish v operation client n1), peers'))"
      "leading N i n1" "leader_frame (appended operation client n0) n1"
      "\<forall>j < N. j \<noteq> i \<longrightarrow> moved (appended operation client n0) (peers0 j) (peers' j)"
      "v \<longrightarrow> N < 2 * card (holders N i (appended operation client n0) peers')"
      "N < 2 * card (responders N i (appended operation client n0) (snd c)) \<longrightarrow> v" by blast
  note fr1 = leader_frame_fields [OF 1(3)]
  have "kvstore_addr (Meta n1) = kvstore_addr (Meta n)" by (simp add: fr1 fr0 appended_def)
  moreover have "log n1 = log n @ [written operation client n]"
    by (simp add: fr1 fr0 written_def)
  moreover have "\<forall>j < N. j \<noteq> i \<longrightarrow> (\<exists>p. moved n (peers j) p \<and> moved n1 p (peers' j))"
    using 0(5) 1(4) by (auto simp: leader_frame_views [OF 1(3)])
  moreover have "v \<longrightarrow> N < 2 * card (holders N i n1 peers')"
    using 1(5) by (simp add: leader_frame_sets [OF 1(3)])
  moreover have "N < 2 * card (responders N i (appended operation client n) (snd c)) \<longrightarrow> v"
    using 1(6) by (simp add: appended_frame(2) [OF 0(3)])
  moreover have "commitIndex n1 = commitIndex n" "lastApplied n1 = lastApplied n" "currentTerm n1 = currentTerm n"
    "trackMessage n1 = trackMessage n" "latestClient (Meta n1) = client"
    by (simp_all add: fr1 fr0 appended_def)
  ultimately show ?thesis using 0(1) 1(1,2) by (intro exI [of _ v] exI [of _ n1] exI [of _ peers']) simp
qed

section \<open>Followers catch up\<close>

text \<open>
  A follower that has applied all it has committed, which is what the leader has at these
  places.
\<close>

definition quiet :: "RaftNode \<Rightarrow> RaftNode \<Rightarrow> bool" where
  "quiet n p \<longleftrightarrow> lastApplied p = commitIndex p \<and> commitIndex p \<le> commitIndex n \<and>
     take (nat (commitIndex p + 1)) (log p) = take (nat (commitIndex p + 1)) (log n) \<and>
     (\<forall>e \<in> set (log p). op_ok (Operation e))"

text \<open>The numbers that have been handed to the apply loop since then.\<close>

definition handed :: "RaftNode \<Rightarrow> RaftNode \<Rightarrow> int list" where
  "handed p p' = drop (length (commits_of (effects p))) (commits_of (effects p'))"

definition progress :: "RaftNode \<Rightarrow> RaftNode \<Rightarrow> bool" where
  "progress p p' \<longleftrightarrow> lastApplied p' = lastApplied p \<and> kvstore_addr (Meta p') = kvstore_addr (Meta p) \<and>
     commits_of (effects p') = commits_of (effects p) @ handed p p' \<and>
     sum_list (handed p p') = commitIndex p' - commitIndex p \<and> (\<forall>b \<in> set (handed p p'). 0 \<le> b)"

lemma moved_progress: "moved n p p' \<Longrightarrow> progress p p'"
  by (auto simp: moved_def progress_def handed_def)

lemma progress_trans: "progress p p' \<Longrightarrow> progress p' p'' \<Longrightarrow> progress p p''"
proof -
  assume a: "progress p p'" "progress p' p''"
  then have c: "commits_of (effects p'') = commits_of (effects p) @ handed p p' @ handed p' p''"
    by (simp add: progress_def)
  then have "handed p p'' = handed p p' @ handed p' p''" by (simp add: handed_def [of p p''])
  with a c show ?thesis by (auto simp: progress_def)
qed

lemma moved_log_set: "moved n p p' \<Longrightarrow> set (log p') \<subseteq> set (log n) \<union> set (log p)"
  using set_drop_subset [of "length (log n)" "log p"] by (auto simp: moved_def)

lemma moved_commit: "moved n p p' \<Longrightarrow> commitIndex p \<le> c \<Longrightarrow> commitIndex n \<le> c \<Longrightarrow> commitIndex p' \<le> c"
  by (auto simp: moved_def)

lemma follower_catches_up:
  assumes "http_transport send (kvstore_addr (Meta p))" and "progress p p'"
    and "node_ok p" and "node_ok p'" and "lastApplied p = commitIndex p" and "commitIndex p < int (length l)"
    and "take (nat (commitIndex p + 1)) (log p) = take (nat (commitIndex p + 1)) l"
    and "take (length l) (log p') = l" and "commitIndex p' + 1 = int (length l)" and "\<forall>e \<in> set (log p'). op_ok (Operation e)"
    and "kv_rel (replay (take (nat (lastApplied p + 1)) (log p)) (\<lambda>_. None)) s"
  shows "\<exists>p'' s'. apply_batches send (handed p p') p' s = Inr (p'', s') \<and> lastApplied p'' = commitIndex p' \<and>
     kv_rel (replay l (\<lambda>_. None)) s'"
proof -
  have pr: "lastApplied p' = lastApplied p" "kvstore_addr (Meta p') = kvstore_addr (Meta p)"
    "sum_list (handed p p') = commitIndex p' - commitIndex p" "\<forall>b \<in> set (handed p p'). 0 \<le> b"
    using assms(2) by (simp_all add: progress_def)
  have k: "nat (commitIndex p + 1) \<le> length l" using assms(6) by simp
  have "take (nat (lastApplied p' + 1)) (log p') = take (nat (commitIndex p + 1)) (take (length l) (log p'))"
    using k pr(1) assms(5) by (simp add: min_def)
  then have "take (nat (lastApplied p' + 1)) (log p') = take (nat (lastApplied p + 1)) (log p)"
    using assms(5,7,8) by simp
  then have kv: "kv_rel (replay (take (nat (lastApplied p' + 1)) (log p')) (\<lambda>_. None)) s" using assms(11) by simp
  have sm: "small (log p')" "-1 \<le> lastApplied p'" "lastApplied p' + sum_list (handed p p') < int (length (log p'))"
    using assms(4,5) pr(1,3) by (simp_all add: node_ok_def)
  from apply_batches_sim [OF assms(1) pr(2) sm(1,2) pr(4) sm(3) assms(10) kv] obtain p'' s' where
    a: "apply_batches send (handed p p') p' s = Inr (p'', s')" "lastApplied p'' = lastApplied p' + sum_list (handed p p')"
      "kv_rel (replay (take (nat (lastApplied p'' + 1)) (log p')) (\<lambda>_. None)) s'" by blast
  have la: "lastApplied p'' = commitIndex p'" using a(2) pr(1,3) assms(5) by simp
  moreover have "nat (commitIndex p' + 1) = length l" using assms(9) by simp
  ultimately show ?thesis using a(1,3) assms(8) by simp
qed

section \<open>The leader after its apply loop\<close>

lemma ApplyToStateMachine_frame:
  assumes "ApplyToStateMachine send k n s = Inr (n', s')"
  shows "state n' = state n" "nextIndex n' = nextIndex n" "matchIndex n' = matchIndex n"
    "currentTerm n' = currentTerm n" "Meta n' = Meta n" "log n' = log n" "commitIndex n' = commitIndex n"
    "trackMessage n' = trackMessage n"
  using assms by (auto simp: ApplyToStateMachine_def apply_done_def go_bind_eq_Inr split: prod.splits)

lemma leading_transfer:
  assumes "leading N i n" and "state n' = state n" and "nextIndex n' = nextIndex n" and "matchIndex n' = matchIndex n"
    and "Meta n' = Meta n" and "log n' = log n" and "-1 \<le> commitIndex n'" and "commitIndex n' < int (length (log n))"
  shows "leading N i n'"
  using assms connected_Meta [of n' n] by (simp add: leading_def indices_ok_def)

lemma WriteCommand_finish_frame [simp]:
  "nextIndex (snd (WriteCommand_finish v operation client n)) = nextIndex n"
  "matchIndex (snd (WriteCommand_finish v operation client n)) = matchIndex n"
  by (simp_all add: WriteCommand_finish_def Let_def)

text \<open>The next committed entry goes through the apply loop of the leader into its key-value server.\<close>

lemma leader_applies_next:
  assumes "http_transport send (kvstore_addr (Meta n))" and "leading N i n"
    and "commitIndex n = lastApplied n + 1" and "-1 \<le> lastApplied n"
    and "op_ok (Operation (log n ! nat (commitIndex n)))"
    and "kv_rel (replay (take (nat (commitIndex n)) (log n)) (\<lambda>_. None)) s"
  shows "\<exists>n2 s2. ApplyToStateMachine send 1 n s = Inr (n2, s2) \<and> leading N i n2 \<and> settled n2 \<and> log n2 = log n \<and>
     commitIndex n2 = commitIndex n \<and> currentTerm n2 = currentTerm n \<and> Meta n2 = Meta n \<and>
     trackMessage n2 = trackMessage n \<and>
     kv_rel (replay (take (nat (commitIndex n + 1)) (log n)) (\<lambda>_. None)) s2"
proof -
  let ?c = "nat (commitIndex n)"
  have b: "small (log n)" "?c < length (log n)" using assms(2-4) by (simp_all add: leading_def nat_less_iff)
  have la: "nat (lastApplied n + 1) = ?c" "lastApplied n + 1 < int (length (log n))" using assms(3) b(2) by auto
  have es: "take (nat 1) (drop (nat (lastApplied n + 1)) (log n)) = [log n ! ?c]"
    using b(2) by (simp add: la(1) take_Suc_conv_app_nth hd_drop_conv_nth take_Suc)
  have ops: "\<forall>e \<in> set (take (nat 1) (drop (nat (lastApplied n + 1)) (log n))). op_ok (Operation e)"
    unfolding es using assms(5) by simp
  from http_transport.apply_sim [OF assms(1,6) refl b(1) assms(4) _ la(2) ops] obtain n2 s2 where
    a: "ApplyToStateMachine send 1 n s = Inr (n2, s2)" "lastApplied n2 = lastApplied n + 1"
      "kv_rel (replay [log n ! ?c] (replay (take ?c (log n)) (\<lambda>_. None))) s2"
    unfolding es by auto
  note fr = ApplyToStateMachine_frame [OF a(1)]
  have "nat (commitIndex n + 1) = Suc ?c" using assms(3,4) by simp
  then have kv: "kv_rel (replay (take (nat (commitIndex n + 1)) (log n)) (\<lambda>_. None)) s2"
    using a(3) b(2) by (simp add: take_Suc_conv_app_nth)
  have "leading N i n2"
    by (rule leading_transfer [OF assms(2)]) (use assms(2) in \<open>simp_all add: fr leading_def\<close>)
  moreover have "settled n2" using a(2) assms(3) b(2) by (auto simp: settled_def fr)
  ultimately show ?thesis using a(1) kv by (simp add: fr)
qed

text \<open>A successful write, as far as its entry or an older one is applied.\<close>

lemma finish_leading:
  assumes "leading N i n1" and "commitIndex n1 + 1 < int (length (log n1))"
  shows "leading N i (snd (WriteCommand_finish True operation client n1))"
    "commitIndex (snd (WriteCommand_finish True operation client n1)) = commitIndex n1 + 1"
proof -
  have "-1 \<le> commitIndex n1" "small (log n1)" using assms(1) by (simp_all add: leading_def)
  with assms(2) show c: "commitIndex (snd (WriteCommand_finish True operation client n1)) = commitIndex n1 + 1"
    by (simp add: small_def i32_id)
  show "leading N i (snd (WriteCommand_finish True operation client n1))"
    by (rule leading_transfer [OF assms(1)]) (use c assms in \<open>simp_all add: leading_def\<close>)
qed

lemma leader_applies_write:
  assumes "http_transport send (kvstore_addr (Meta n))" and "leading N i n" and "settled n"
    and "commitIndex n + 1 = int (length (log n))" and "int (length (log n)) + 1 < 2147483648"
    and "op_ok operation" and "kv_rel (replay (log n) (\<lambda>_. None)) s"
    and "leading N i n1" and "log n1 = log n @ [written operation client n]" and "commitIndex n1 = commitIndex n"
    and "lastApplied n1 = lastApplied n" and "currentTerm n1 = currentTerm n"
    and "kvstore_addr (Meta n1) = kvstore_addr (Meta n)"
  shows "\<exists>n2 s2. ApplyToStateMachine send 1 (snd (WriteCommand_finish True operation client n1)) s = Inr (n2, s2) \<and>
     leading N i n2 \<and> settled n2 \<and> log n2 = log n1 \<and> commitIndex n2 = int (length (log n)) \<and>
     currentTerm n2 = currentTerm n \<and> Meta n2 = Meta n1 \<and> trackMessage n2 = (trackMessage n1)(client := Some operation) \<and>
     kv_rel (spec_op operation (replay (log n) (\<lambda>_. None))) s2"
proof -
  let ?n = "snd (WriteCommand_finish True operation client n1)"
  have "commitIndex n1 + 1 < int (length (log n1))" using assms(4) by (simp add: assms(9,10))
  note fl = finish_leading [OF assms(8) this, of operation client]
  have c: "nat (commitIndex ?n) = length (log n)" "nat (commitIndex ?n + 1) = length (log n) + 1"
    unfolding fl(2) assms(10) using assms(4) by simp_all
  have "http_transport send (kvstore_addr (Meta ?n))" using assms(1) by (simp add: assms(13))
  moreover have "commitIndex ?n = lastApplied ?n + 1" "-1 \<le> lastApplied ?n"
    using assms(3,4) unfolding fl(2) by (simp_all add: settled_def assms(10,11))
  moreover have "op_ok (Operation (log ?n ! nat (commitIndex ?n)))"
    "kv_rel (replay (take (nat (commitIndex ?n)) (log ?n)) (\<lambda>_. None)) s"
    unfolding c using assms(6,7) by (simp_all add: assms(9) written_def)
  ultimately obtain n2 s2 where a: "ApplyToStateMachine send 1 ?n s = Inr (n2, s2)" "leading N i n2" "settled n2"
    "log n2 = log ?n" "commitIndex n2 = commitIndex ?n" "currentTerm n2 = currentTerm ?n" "Meta n2 = Meta ?n"
    "trackMessage n2 = trackMessage ?n" "kv_rel (replay (take (length (log n) + 1) (log ?n)) (\<lambda>_. None)) s2"
    using leader_applies_next [OF _ fl(1)] unfolding c by blast
  have "commitIndex n2 = int (length (log n))" unfolding a(5) fl(2) assms(10) by (rule assms(4))
  moreover have "trackMessage ?n = (trackMessage n1)(client := Some operation)" by (simp add: WriteCommand_finish_def Let_def)
  ultimately show ?thesis using a(1-4,6-9) by (auto simp: assms(9,12) written_def)
qed

section \<open>Properties\<close>

text \<open>
  C13: an acknowledged write is on a majority when it is acknowledged. The leader has committed
  and applied its whole log; no peer is in a newer term, every peer's log matches the leader's
  and has no entry of the leader's term beyond it; the request is no repetition, and if it is a
  PUT or DELETE the existence check does not find the key missing; the goroutines of its rounds
  run one after another, in any order, over any network
  (\<open>race_replaces_acknowledged_entry\<close> shows what a race of theirs can do). Then the
  command always gets a reply and appends its entry; success means that the entry, with the
  whole log before it, is on a majority of the replicas, and that the commit index is the
  entry's; failure leaves the entry in the leader's log without moving the commit index; and it
  is success whenever a majority answer in the round.
\<close>

theorem acknowledged_write_on_majority:
  assumes "leading N i n" and "i < N" and "2 \<le> N" and "N < 2147483647" and "settled n"
    and "commitIndex n + 1 = int (length (log n))" and "int (length (log n)) + 1 < 2147483648"
    and "permuting (fst rc)" and "permuting (fst c)"
    and "peers_follow N i n peers" and "\<forall>j < N. j \<noteq> i \<longrightarrow> fresh_term n (peers j)"
    and "admitted http_get operation client n"
  shows "\<exists>ok err n' peers'. WriteCommand_full naps read_naps rc http_get c operation client (n, peers)
       = Inr (Some ((ok, err), n', peers')) \<and> log n' = log n @ [written operation client n] \<and>
     (if ok then err = None \<and> commitIndex n' = int (length (log n)) \<and>
             N < 2 * card {j. j < N \<and> (j = i \<or> take (length (log n')) (log (peers' j)) = log n')}
      else err \<noteq> None \<and> commitIndex n' = commitIndex n) \<and>
     (N < 2 * card (responders N i (appended operation client n) (snd c)) \<longrightarrow> ok)"
proof -
  from WriteCommand_full_leading [OF assms(1-5,8,9,7,10-12), of naps read_naps] obtain v n1 peers' where
    w: "WriteCommand_full naps read_naps rc http_get c operation client (n, peers)
        = Inr (Some (fst (WriteCommand_finish v operation client n1), snd (WriteCommand_finish v operation client n1), peers'))"
      "log n1 = log n @ [written operation client n]" "commitIndex n1 = commitIndex n"
      "v \<longrightarrow> N < 2 * card (holders N i n1 peers')"
      "N < 2 * card (responders N i (appended operation client n) (snd c)) \<longrightarrow> v" by blast
  let ?H = "{j. j < N \<and> (j = i \<or> take (length (log n1)) (log (peers' j)) = log n1)}"
  have "holders N i n1 peers' \<subseteq> ?H" by (auto simp: holders_def replicated_def)
  then have "card (holders N i n1 peers') \<le> card ?H" by (intro card_mono) auto
  then have "v \<longrightarrow> N < 2 * card ?H" using w(4) by (meson less_le_trans mult_le_mono2)
  moreover have "i32 (commitIndex n + 1) = int (length (log n))" using assms(6,7) by (simp add: i32_id)
  ultimately show ?thesis using w(1,2,3,5)
    by (intro exI [of _ "fst (fst (WriteCommand_finish v operation client n1))"]
          exI [of _ "snd (fst (WriteCommand_finish v operation client n1))"]
          exI [of _ "snd (WriteCommand_finish v operation client n1)"] exI [of _ peers'])
       (simp add: WriteCommand_finish_def Let_def)
qed

definition demo_settled :: RaftNode where
  "demo_settled = (demo_node 3 0 2 Leader [demo_entry 1, demo_entry 2])\<lparr>commitIndex := 1, lastApplied := 1\<rparr>"

lemma demo_settled_simps [simp]:
  "log demo_settled = [demo_entry 1, demo_entry 2]" "commitIndex demo_settled = 1" "lastApplied demo_settled = 1"
  "settled demo_settled" "currentTerm demo_settled = 2" "trackMessage demo_settled = (\<lambda>_. None)"
  "kvstore_addr (Meta demo_settled) = '':3000''"
  by (simp_all add: demo_settled_def settled_def)
     (simp_all add: demo_node_def initial_node_def Let_def ConnectToPeerReplicas_def)

lemma demo_settled_leading: "leading 3 0 demo_settled"
proof -
  have "connected 3 0 demo_settled"
    by (simp add: connected_def demo_settled_def demo_node_def initial_node_def i32_id Let_def)
  then show ?thesis by (simp add: leading_def indices_ok_def small_def demo_settled_def)
qed

lemma demo_settled_peers:
  "peers_follow 3 0 demo_settled demo_peers" "\<forall>j < 3. j \<noteq> 0 \<longrightarrow> fresh_term demo_settled (demo_peers j)"
  by (simp_all add: peers_follow_def follows_def demo_peers_def small_def log_match_def fresh_term_def)

definition demo_net4 :: "nat \<Rightarrow> fate list" where
  "demo_net4 j = (if j = 1 then replicate 4 Delivered else [])"

lemma demo_responders4:
  assumes "length (log n) = 3"
  shows "responders 3 0 n demo_net4 = {0, 1}"
proof -
  have "demo_net4 1 = replicate (length (log n) + 1) Delivered @ []"
    using assms by (simp add: demo_net4_def eval_nat_numeral)
  then have "responsive n (demo_net4 1)" unfolding responsive_def by blast
  moreover have "\<not> responsive n (demo_net4 2)" by (simp add: responsive_def demo_net4_def)
  moreover have "j < 3 \<longleftrightarrow> j = 0 \<or> j = 1 \<or> j = 2" for j :: nat by linarith
  ultimately show ?thesis by (auto simp: responders_def)
qed

theorem acknowledged_write_on_majority_witness:
  "\<exists>n' peers'. WriteCommand_full [] [] (rev, demo_net4) (kv_http_get demo_kv) (rev, demo_net4) [''POST'', ''k'', ''v''] ''c''
       (demo_settled, demo_peers) = Inr (Some ((True, None), n', peers')) \<and> commitIndex n' = 2 \<and>
     3 < 2 * card {j. j < 3 \<and> (j = 0 \<or> take (length (log n')) (log (peers' j)) = log n')}"
proof -
  let ?op = "[''POST'', ''k'', ''v'']"
  have "admitted (kv_http_get demo_kv) ?op ''c'' demo_settled" by (simp add: admitted_def repeated_def)
  moreover have "3 < 2 * card (responders 3 0 (appended ?op ''c'' demo_settled) demo_net4)"
    by (simp add: demo_responders4)
  ultimately show ?thesis
    using acknowledged_write_on_majority [OF demo_settled_leading _ _ _ _ _ _ _ _ demo_settled_peers,
        of "(rev, demo_net4)" "(rev, demo_net4)" "kv_http_get demo_kv" ?op "''c''" "[]" "[]"]
    by auto
qed

text \<open>A follower that the round after the write has reached catches up with the leader.\<close>

lemma reached_follower_agrees:
  assumes "quiet n p" and "node_ok p" and "commitIndex n < int (length (log n))" and "moved n p p0" and "moved n1 p0 p1"
    and "moved n2 p1 p2" and "replicated n2 p2"
    and "log n1 = log n @ [e]" and "log n2 = log n @ [e]" and "commitIndex n1 = commitIndex n"
    and "commitIndex n2 = int (length (log n))" and "\<forall>x \<in> set (log n @ [e]). op_ok (Operation x)"
    and "http_transport send (kvstore_addr (Meta p))"
    and "kv_rel (replay (take (nat (commitIndex p + 1)) (log p)) (\<lambda>_. None)) s"
  shows "\<exists>p' s'. apply_batches send (handed p p2) p2 s = Inr (p', s') \<and> lastApplied p' = commitIndex n2 \<and>
     kv_rel (replay (log n2) (\<lambda>_. None)) s'"
proof -
  have q: "lastApplied p = commitIndex p" "commitIndex p \<le> commitIndex n"
    "take (nat (commitIndex p + 1)) (log p) = take (nat (commitIndex p + 1)) (log n)" "\<forall>x \<in> set (log p). op_ok (Operation x)"
    using assms(1) by (simp_all add: quiet_def)
  have pr: "progress p p2"
    using assms(4-6) by (meson moved_progress progress_trans)
  have "commitIndex p1 \<le> commitIndex n"
    using moved_commit [OF assms(5), of "commitIndex n"] moved_commit [OF assms(4) q(2)] assms(10) by simp
  then have "commitIndex p2 \<le> commitIndex n2"
    using moved_commit [OF assms(6), of "commitIndex n2"] assms(3,11) by simp
  then have cm: "commitIndex p2 + 1 = int (length (log n2))" using assms(7,9,11) by (simp add: replicated_def)
  have ops: "\<forall>x \<in> set (log p2). op_ok (Operation x)"
    using moved_log_set [OF assms(4)] moved_log_set [OF assms(5)] moved_log_set [OF assms(6)] q(4) assms(8,9,12)
    by fastforce
  have k: "nat (commitIndex p + 1) \<le> length (log n)" using q(2) assms(3) by simp
  have "follows n2 p2" using assms(6) by (simp add: moved_def)
  then have ok: "node_ok p2" by (simp add: follows_def)
  have "take (nat (commitIndex p + 1)) (log p) = take (nat (commitIndex p + 1)) (log n2)"
    using q(3) k by (simp add: assms(9))
  moreover have "take (length (log n2)) (log p2) = log n2" using assms(7) by (simp add: replicated_def)
  moreover have "commitIndex p < int (length (log n2))" using q(2) assms(3) by (simp add: assms(9))
  moreover have "kv_rel (replay (take (nat (lastApplied p + 1)) (log p)) (\<lambda>_. None)) s" using assms(14) q(1) by simp
  ultimately show ?thesis
    using follower_catches_up [OF assms(13) pr assms(2) ok q(1) _ _ _ cm ops, of s] cm assms(9,11) by auto
qed

text \<open>
  The service is a replicated map: at a leader that has committed and applied its log, among
  followers, a write that a majority answer to is acknowledged; once
  the leader's apply loop has taken it, a read at the leader returns what the map of all
  operations so far, the new one last, holds for the key; and every replica that the read's
  round reaches has, after its own apply loop, the same map in its key-value server.
\<close>

theorem write_then_read:
  assumes "leading N i n" and "i < N" and "2 \<le> N" and "N < 2147483647" and "settled n"
    and "commitIndex n + 1 = int (length (log n))" and "int (length (log n)) + 1 < 2147483648"
    and "permuting (fst rc)" and "permuting (fst c)" and "permuting (fst c2)"
    and "peers_follow N i n peers" and "\<forall>j < N. j \<noteq> i \<longrightarrow> fresh_term n (peers j)"
    and "admitted (kv_http_get s) operation client n" and "op_ok operation" and "readable key"
    and "\<forall>e \<in> set (log n). op_ok (Operation e)"
    and "N < 2 * card (responders N i (appended operation client n) (snd c))"
    and "N < 2 * card (responders N i (appended operation client n) (snd c2))"
    and "http_transport send (kvstore_addr (Meta n))" and "kv_rel (replay (log n) (\<lambda>_. None)) s"
    and "\<forall>j < N. j \<noteq> i \<longrightarrow> quiet n (peers j) \<and> http_transport (sends j) (kvstore_addr (Meta (peers j))) \<and>
           kv_rel (replay (take (nat (commitIndex (peers j) + 1)) (log (peers j))) (\<lambda>_. None)) (ss j)"
    and "m = spec_op operation (replay (log n) (\<lambda>_. None))"
  shows "\<exists>n1 peers1 n2 s2 n3 peers3.
     WriteCommand_full naps read_naps rc (kv_http_get s) c operation client (n, peers)
       = Inr (Some ((True, None), n1, peers1)) \<and>
     ApplyToStateMachine send 1 n1 s = Inr (n2, s2) \<and>
     ReadCommand naps2 c2 (kv_http_get s2) key (n2, peers1) = Inr (Some (Inr (contents (m key)), n3, peers3)) \<and>
     (\<forall>j \<in> responders N i (appended operation client n) (snd c2). j = i \<or>
        (\<exists>p s'. apply_batches (sends j) (handed (peers j) (peers3 j)) (peers3 j) (ss j) = Inr (p, s') \<and> kv_rel m s'))"
proof -
  from WriteCommand_full_leading [OF assms(1-5,8,9,7,11-13), of naps read_naps] obtain v n1 peers1 where
    w: "WriteCommand_full naps read_naps rc (kv_http_get s) c operation client (n, peers)
        = Inr (Some (fst (WriteCommand_finish v operation client n1), snd (WriteCommand_finish v operation client n1), peers1))"
      "leading N i n1" "log n1 = log n @ [written operation client n]" "commitIndex n1 = commitIndex n"
      "lastApplied n1 = lastApplied n" "currentTerm n1 = currentTerm n" "kvstore_addr (Meta n1) = kvstore_addr (Meta n)"
      "\<forall>j < N. j \<noteq> i \<longrightarrow> (\<exists>p. moved n (peers j) p \<and> moved n1 p (peers1 j))"
      "N < 2 * card (responders N i (appended operation client n) (snd c)) \<longrightarrow> v"
    by blast
  have v: "v = True" using w(9) assms(17) by blast
  have fin: "fst (WriteCommand_finish True operation client n1) = (True, None)"
    by (simp add: WriteCommand_finish_def Let_def)
  from leader_applies_write [OF assms(19,1,5-7,14,20) w(2-7)] obtain n2 s2 where
    a: "ApplyToStateMachine send 1 (snd (WriteCommand_finish True operation client n1)) s = Inr (n2, s2)"
      "leading N i n2" "settled n2" "log n2 = log n1" "commitIndex n2 = int (length (log n))"
      "currentTerm n2 = currentTerm n" "kv_rel m s2"
    unfolding assms(22) by blast
  have pf: "peers_follow N i n2 peers1"
    unfolding peers_follow_def
  proof (intro allI impI)
    fix j
    assume "j < N" "j \<noteq> i"
    with w(8) have "follows n1 (peers1 j)" by (auto simp: moved_def)
    then show "follows n2 (peers1 j)" using a(4,6) w(6) by (simp add: follows_def)
  qed
  have rs: "responders N i n2 = responders N i (appended operation client n)"
    by (simp add: fun_eq_iff responders_def responsive_def a(4) w(3))
  from ReadCommand_settled [OF a(2) assms(2-4) a(3) assms(10) pf, of naps2 "kv_http_get s2" key] assms(18)
  obtain n3 peers3 where
    r: "ReadCommand naps2 c2 (kv_http_get s2) key (n2, peers1)
        = Inr (Some (ReadCommand_finish True (kv_http_get s2) key n2, n3, peers3))"
      "\<forall>j < N. j \<noteq> i \<longrightarrow> moved n2 (peers1 j) (peers3 j)"
      "\<forall>j \<in> responders N i n2 (snd c2). j = i \<or> replicated n2 (peers3 j)"
    unfolding rs by auto
  have rd: "ReadCommand_finish True (kv_http_get s2) key n2 = Inr (contents (m key))"
    using a(2) kv_http_get_contents [OF a(7) assms(15)] by (simp add: ReadCommand_finish_def leading_def)
  have "\<exists>p s'. apply_batches (sends j) (handed (peers j) (peers3 j)) (peers3 j) (ss j) = Inr (p, s') \<and> kv_rel m s'"
    if j: "j \<in> responders N i (appended operation client n) (snd c2)" "j \<noteq> i" for j
  proof -
    have jN: "j < N" using j(1) by (simp add: responders_def)
    from w(8) jN j(2) obtain p0 where p0: "moved n (peers j) p0" "moved n1 p0 (peers1 j)" by blast
    have p2: "moved n2 (peers1 j) (peers3 j)" "replicated n2 (peers3 j)" using r(2,3) jN j by (auto simp: rs)
    have q: "quiet n (peers j)" "http_transport (sends j) (kvstore_addr (Meta (peers j)))"
      "kv_rel (replay (take (nat (commitIndex (peers j) + 1)) (log (peers j))) (\<lambda>_. None)) (ss j)"
      using assms(21) jN j(2) by blast+
    have ok: "node_ok (peers j)" using assms(11) jN j(2) by (simp add: peers_follow_def follows_def)
    have lt: "commitIndex n < int (length (log n))" using assms(6) by simp
    have l2: "log n2 = log n @ [written operation client n]" using a(4) w(3) by simp
    have ops: "\<forall>x \<in> set (log n @ [written operation client n]). op_ok (Operation x)"
      using assms(14,16) by (simp add: written_def)
    from reached_follower_agrees [OF q(1) ok lt p0 p2 w(3) l2 w(4) a(5) ops q(2,3)] obtain p' s' where
      "apply_batches (sends j) (handed (peers j) (peers3 j)) (peers3 j) (ss j) = Inr (p', s')"
      "kv_rel (replay (log n2) (\<lambda>_. None)) s'" by blast
    moreover have "replay (log n2) (\<lambda>_. None) = m" by (simp add: l2 assms(22) written_def)
    ultimately show ?thesis by auto
  qed
  with w(1) a(1) r(1) rd fin show ?thesis unfolding v by (metis (no_types, lifting))
qed

lemma demo_peers_quiet:
  "quiet demo_settled (demo_peers j)" "kvstore_addr (Meta (demo_peers j)) = '':3000''" "commitIndex (demo_peers j) = -1"
  by (simp_all add: quiet_def demo_peers_def demo_entry_def op_ok_def)
     (simp add: demo_node_def initial_node_def Let_def ConnectToPeerReplicas_def)

theorem write_then_read_witness:
  "\<exists>n1 peers1 n2 s2 n3 peers3.
     WriteCommand_full [] [] (rev, demo_net4) (kv_http_get demo_kv) (rev, demo_net4) [''POST'', ''k'', ''v''] ''c''
       (demo_settled, demo_peers) = Inr (Some ((True, None), n1, peers1)) \<and>
     ApplyToStateMachine (loopback '':3000'') 1 n1 demo_kv = Inr (n2, s2) \<and>
     ReadCommand [] (rev, demo_net4) (kv_http_get s2) ''k'' (n2, peers1) = Inr (Some (Inr (''Value = v'' @ nl), n3, peers3)) \<and>
     (\<exists>p s'. apply_batches (loopback '':3000'') (handed (demo_peers 1) (peers3 1)) (peers3 1) demo_kv = Inr (p, s') \<and>
             kv_rel [''k'' \<mapsto> ''v''] s')"
proof -
  let ?op = "[''POST'', ''k'', ''v'']" and ?c = "(rev, demo_net4)" and ?n = demo_settled
  have ad: "admitted (kv_http_get demo_kv) ?op ''c'' ?n" by (simp add: admitted_def repeated_def)
  have q: "3 < 2 * card (responders 3 0 (appended ?op ''c'' ?n) (snd ?c))" by (simp add: demo_responders4)
  have kv: "kv_rel (replay (log ?n) (\<lambda>_. None)) demo_kv" by (simp add: demo_entry_def)
  have ps: "\<forall>j < 3. j \<noteq> 0 \<longrightarrow> quiet ?n (demo_peers j) \<and>
      http_transport (loopback '':3000'') (kvstore_addr (Meta (demo_peers j))) \<and>
      kv_rel (replay (take (nat (commitIndex (demo_peers j) + 1)) (log (demo_peers j))) (\<lambda>_. None)) demo_kv"
    by (simp add: demo_peers_quiet lo.http_transport_axioms)
  have side: "(0::nat) < 3" "(2::nat) \<le> 3" "(3::nat) < 2147483647" "settled ?n"
    "commitIndex ?n + 1 = int (length (log ?n))" "int (length (log ?n)) + 1 < 2147483648"
    "permuting (fst ?c)" by simp_all
  have ops: "op_ok ?op" "readable ''k''" "\<forall>e \<in> set (log ?n). op_ok (Operation e)"
    by (simp_all add: op_ok_def demo_entry_def)
  have tr: "http_transport (loopback '':3000'') (kvstore_addr (Meta ?n))" by (simp add: lo.http_transport_axioms)
  have m: "[''k'' \<mapsto> ''v''] = spec_op ?op (replay (log ?n) (\<lambda>_. None))" by (simp add: demo_entry_def)
  from write_then_read [OF demo_settled_leading side side(7,7) demo_settled_peers ad ops q q tr kv ps m, of "[]" "[]" "[]"]
  show ?thesis
  proof (elim exE conjE, goal_cases)
    case w: (1 n1 peers1 n2 s2 n3 peers3)
    have "1 \<in> responders 3 0 (appended ?op ''c'' ?n) (snd ?c)" by (simp add: demo_responders4)
    from bspec [OF w(4) this] have "\<exists>p s'. apply_batches (loopback '':3000'') (handed (demo_peers 1) (peers3 1)) (peers3 1) demo_kv
        = Inr (p, s') \<and> kv_rel [''k'' \<mapsto> ''v''] s'" by simp
    moreover have "contents ([''k'' \<mapsto> ''v''] ''k'') = ''Value = v'' @ nl" by (simp add: contents_def)
    note w(3) [unfolded this]
    ultimately show ?case
      using w(1,2)
      by - (rule exI [of _ n1], rule exI [of _ peers1], rule exI [of _ n2], rule exI [of _ s2],
            rule exI [of _ n3], rule exI [of _ peers3], intro conjI, assumption+)
  qed
qed

text \<open>
  A new leader that has inherited uncommitted entries acknowledges writes that it has not
  committed: the round of the NO-OP entry and every later write move the commit index by one
  each, so that it stays behind by the number of inherited entries; the client is told that its
  write is committed while the commit index points to an older entry.
\<close>

theorem new_leader_lags_behind:
  assumes "connected N i n" and "i < N" and "2 \<le> N" and "N < 2147483647"
    and "int (length (log n)) + 2 < 2147483648" and "-1 \<le> commitIndex n" and "commitIndex n + 1 < int (length (log n))"
    and "lastApplied n = commitIndex n" and "\<forall>c \<in> set rounds. permuting (fst c)"
    and "\<forall>j < N. j \<noteq> i \<longrightarrow> follows n (peers j) \<and> fresh_term n (peers j)"
    and "\<exists>c \<in> set rounds. N < 2 * card (responders N i (snd (ToLeader_begin n)) (snd c))"
    and "permuting (fst rc)" and "permuting (fst c)"
    and "trackMessage n client \<noteq> Some (''POST'' # args)"
    and "N < 2 * card (responders N i (appended (''POST'' # args) client (snd (ToLeader_begin n))) (snd c))"
  shows "\<exists>n1 peers1 n3 peers3. ToLeader rounds (n, peers) = Inr (Synchronised, n1, peers1) \<and>
     WriteCommand_full naps read_naps rc http_get c (''POST'' # args) client (apply_done 1 n1, peers1)
       = Inr (Some ((True, None), n3, peers3)) \<and>
     last (log n3) = written (''POST'' # args) client n \<and> commitIndex n3 = commitIndex n + 2 \<and>
     commitIndex n3 < int (length (log n3)) - 1"
proof -
  let ?b = "snd (ToLeader_begin n)" and ?op = "''POST'' # args"
  have len: "int (length (log n)) + 1 < 2147483648" "commitIndex n < int (length (log n))" using assms(5,7) by simp_all
  from ToLeader_follow [OF assms(1-4) len(1) assms(6) len(2) assms(9-11)] obtain n0 peers1 where
    t: "ToLeader rounds (n, peers) = Inr (Synchronised, ToLeader_success n0, peers1)" "leading N i n0"
      "leader_frame ?b n0" "\<forall>j < N. j \<noteq> i \<longrightarrow> moved ?b (peers j) (peers1 j)" by blast
  note fr = leader_frame_fields [OF t(3)]
  define n2 where "n2 = apply_done 1 (ToLeader_success n0)"
  have c: "i32 (commitIndex n + 1) = commitIndex n + 1" "i32 (commitIndex n + 2) = commitIndex n + 2"
    using assms(5-7) by (simp_all add: i32_id)
  have ind: "nextIndex n2 = nextIndex n0" "matchIndex n2 = matchIndex n0"
    by (simp_all add: n2_def apply_done_def ToLeader_success_def Let_def)
  have n2: "log n2 = log n @ [noop_entry (currentTerm n)]" "commitIndex n2 = commitIndex n + 1"
    "lastApplied n2 = commitIndex n + 1" "currentTerm n2 = currentTerm n" "state n2 = state n0" "Meta n2 = Meta n0"
    "trackMessage n2 = trackMessage n"
    using c assms(8) by (simp_all add: n2_def apply_done_def fr ToLeader_success_def Let_def)
  have lead: "leading N i n2"
    by (rule leading_transfer [OF t(2)]) (use n2 ind assms(6,7) in \<open>simp_all add: fr\<close>)
  have se: "settled n2" using n2(1-3) by (simp add: settled_def)
  have sm: "int (length (log n2)) + 1 < 2147483648" using assms(5) by (simp add: n2(1))
  have f: "follows n2 (peers1 j)" "fresh_term n2 (peers1 j)" if "j < N" "j \<noteq> i" for j
  proof -
    have mv: "moved ?b (peers j) (peers1 j)" using t(4) that by blast
    then show "follows n2 (peers1 j)" by (simp add: moved_def follows_def n2)
    have "fresh_term n (peers j)" using assms(10) that by blast
    then have "fresh_term ?b (peers j)"
      using set_drop_subset_set_drop [of "length (log n)" "Suc (length (log n))" "log (peers j)"]
      by (auto simp: fresh_term_def)
    with mv have "fresh_term ?b (peers1 j)" by (rule fresh_moved)
    then show "fresh_term n2 (peers1 j)" by (simp add: fresh_term_def n2)
  qed
  then have pf: "peers_follow N i n2 peers1" "\<forall>j < N. j \<noteq> i \<longrightarrow> fresh_term n2 (peers1 j)"
    by (simp_all add: peers_follow_def)
  have ad: "admitted http_get ?op client n2" using assms(14) by (simp add: admitted_def repeated_def n2(7))
  have rs: "responders N i (appended ?op client n2) = responders N i (appended ?op client ?b)"
    by (simp add: fun_eq_iff responders_def responsive_def n2(1))
  from WriteCommand_full_leading [OF lead assms(2-4) se assms(12,13) sm pf ad, of naps read_naps] obtain v n3 peers3 where
    w: "WriteCommand_full naps read_naps rc http_get c ?op client (n2, peers1)
        = Inr (Some (fst (WriteCommand_finish v ?op client n3), snd (WriteCommand_finish v ?op client n3), peers3))"
      "log n3 = log n2 @ [written ?op client n2]" "commitIndex n3 = commitIndex n2"
      "N < 2 * card (responders N i (appended ?op client n2) (snd c)) \<longrightarrow> v" by blast
  have v: "v = True" using w(4) assms(15) by (simp add: rs)
  let ?n3 = "snd (WriteCommand_finish v ?op client n3)"
  have "fst (WriteCommand_finish v ?op client n3) = (True, None)" by (simp add: v WriteCommand_finish_def Let_def)
  with w(1) t(1) have
    "ToLeader rounds (n, peers) = Inr (Synchronised, ToLeader_success n0, peers1) \<and>
     WriteCommand_full naps read_naps rc http_get c ?op client (apply_done 1 (ToLeader_success n0), peers1)
       = Inr (Some ((True, None), ?n3, peers3))" by (simp add: n2_def)
  moreover have "last (log ?n3) = written ?op client n" "commitIndex ?n3 = commitIndex n + 2"
    using c(2) by (simp_all add: w(2,3) n2 v written_def algebra_simps)
  moreover have "commitIndex ?n3 < int (length (log ?n3)) - 1"
    using c(2) assms(7) by (simp add: w(2,3) n2 v algebra_simps)
  ultimately show ?thesis by blast
qed

definition demo_heir :: RaftNode where
  "demo_heir = demo_node 3 0 2 Candidate [demo_entry 1]"

theorem new_leader_lags_behind_witness:
  "\<exists>n1 peers1 n3 peers3. ToLeader [(rev, demo_net)] (demo_heir, demo_peers) = Inr (Synchronised, n1, peers1) \<and>
     WriteCommand_full [] [] (rev, demo_net4) Map.empty (rev, demo_net4) [''POST'', ''k'', ''v''] ''c'' (apply_done 1 n1, peers1)
       = Inr (Some ((True, None), n3, peers3)) \<and>
     commitIndex n3 = 1 \<and> last (log n3) = \<lparr>Term = 2, Operation = [''POST'', ''k'', ''v''], Clientid = ''c''\<rparr> \<and>
     commitIndex n3 < int (length (log n3)) - 1"
proof -
  let ?rounds = "[(rev, demo_net)]"
  have con: "connected 3 0 demo_heir" unfolding demo_heir_def by (rule demo_candidate_connected)
  have h: "log demo_heir = [demo_entry 1]" "commitIndex demo_heir = -1" "lastApplied demo_heir = -1"
    "currentTerm demo_heir = 2" "trackMessage demo_heir = (\<lambda>_. None)"
    by (simp_all add: demo_heir_def) (simp add: demo_node_def initial_node_def Let_def ConnectToPeerReplicas_def)
  have f: "\<forall>j < 3. j \<noteq> 0 \<longrightarrow> follows demo_heir (demo_peers j) \<and> fresh_term demo_heir (demo_peers j)"
    by (simp add: follows_def fresh_term_def demo_peers_def small_def log_match_def demo_heir_def)
  have "responders 3 0 (snd (ToLeader_begin demo_heir)) demo_net = {0, 1}"
    unfolding responders_def by (rule demo_responders) (simp add: h)
  then have r: "\<exists>c \<in> set ?rounds. 3 < 2 * card (responders 3 0 (snd (ToLeader_begin demo_heir)) (snd c))" by simp
  have r2: "3 < 2 * card (responders 3 0 (appended [''POST'', ''k'', ''v''] ''c'' (snd (ToLeader_begin demo_heir)))
      (snd (rev, demo_net4)))"
    by (simp add: demo_responders4 h)
  have side: "(0::nat) < 3" "(2::nat) \<le> 3" "(3::nat) < 2147483647" "int (length (log demo_heir)) + 2 < 2147483648"
    "-1 \<le> commitIndex demo_heir" "commitIndex demo_heir + 1 < int (length (log demo_heir))"
    "lastApplied demo_heir = commitIndex demo_heir" "\<forall>c \<in> set ?rounds. permuting (fst c)"
    "permuting (fst (rev, demo_net4))" "trackMessage demo_heir ''c'' \<noteq> Some [''POST'', ''k'', ''v'']"
    by (simp_all add: h)
  from new_leader_lags_behind [OF con side(1-8) f r side(9,9,10) r2, of "[]" "[]" Map.empty]
  show ?thesis by (elim exE conjE) (auto simp: h written_def)
qed

end
