(* ===== verification/Raft_Race.thy ===== *)
theory Raft_Race
  imports Raft_Interleaved Raft_Service
begin

text \<open>
  What the shared message of a round can do to the log of a follower (\<^verbatim>\<open>src/raft/send_AEs.go\<close>),
  from a command of a client (\<^verbatim>\<open>src/raft/client.go\<close>) to the commit at the follower
  (\<^verbatim>\<open>src/raft/rpcs.go\<close>): in a cluster of three in which one peer is behind, a single write can end
  acknowledged while the follower that made the majority has committed another entry in its place.
\<close>

section \<open>The turns\<close>

text \<open>
  The goroutine of \<open>b\<close>, which is up to date, stores its index after the one of \<open>a\<close>, and \<open>a\<close> its
  entries after \<open>b\<close>; then \<open>b\<close> calls.
\<close>

definition overtaking :: "nat \<Rightarrow> nat \<Rightarrow> turn list" where
  "overtaking a b =
     [ReadLog (int a, a), ReadLog (int b, b), StoreEntries (int b, b), StoreEntries (int a, a),
      Call (int b, b), Serve (int b, b), Resume (int b, b), Count (int b, b)]"

text \<open>The message that \<open>b\<close> sends.\<close>

definition mixed :: "RaftNode \<Rightarrow> nat \<Rightarrow> int \<Rightarrow> AppendEntriesMessage \<Rightarrow> AppendEntriesMessage" where
  "mixed n k next m =
     m\<lparr>PrevLogIndex := next - 1, PrevLogTerm := (if 0 < next then Term (log n ! nat (next - 1)) else -1),
       Entries := drop k (log n)\<rparr>"

lemma overtaking_run:
  assumes "leading 3 i n" and "i < 3" and "a < 3" and "b < 3" and "a \<noteq> i" and "b \<noteq> i" and "a \<noteq> b"
    and "nextIndex n ! a = int k" and "AppendEntries (mixed n k (nextIndex n ! b) m) (peers b) = Inr (r, p)" and "Success r"
    and "aer_Term r = currentTerm n" and "u = int (length (log n)) - 1"
  shows "\<exists>c. cr_run u (overtaking a b) (cr_start m (n, peers)) = Some (Inr c) \<and> cr_verdicts c = [True] \<and>
     cr_peers c b = p \<and> leader_frame n (cr_leader c) \<and> leading 3 i (cr_leader c) \<and>
     nextIndex (cr_leader c) ! b = int (length (log n))"
proof -
  let ?ga = "(int a, a)" and ?gb = "(int b, b)" and ?x = "nextIndex n ! b"
  let ?ra = "read_at n (int k)" and ?rb = "read_at n ?x"
  have N: "(3::nat) < 2147483648" by simp
  have con: "connected 3 i n" "small (log n)" "n_replicas (Meta n) = 3"
    using assms(1) by (simp_all add: leading_def connected_def)
  have "\<And>j. j < 3 \<Longrightarrow> j \<noteq> i \<Longrightarrow> cr_stage (cr_start m (n, peers)) (int j, j) = Ready"
    using spawned_connected [OF con(1) N] by (simp add: cr_start_def)
  with assms(3-6) have rdy: "cr_stage (cr_start m (n, peers)) ?ga = Ready" "cr_stage (cr_start m (n, peers)) ?gb = Ready" by simp_all
  have read: "LeaderSendAEs_read (int a) u n = Inr ?ra" "LeaderSendAEs_read (int b) u n = Inr ?rb"
    using LeaderSendAEs_read_eq [OF leading_slot [OF assms(1,3)] con(2)] leading_next [OF assms(1,3)]
      LeaderSendAEs_read_eq [OF leading_slot [OF assms(1,4)] con(2)] leading_next [OF assms(1,4)] assms(8)
    by (simp_all add: read_at_def assms(12))
  have msg: "set_entries ?ra (set_entries ?rb (set_prev ?rb (set_prev ?ra m))) = mixed n k ?x m"
    by (simp add: set_entries_def set_prev_def read_at_def mixed_def)
  from accepted_advances [OF assms(1,4,10,11,12), of "mixed n k ?x m"] obtain L where
    L: "LeaderSendAE_resp (int b) u (mixed n k ?x m) (Some r) n = Inr (Return True, L)" "leading 3 i L" "leader_frame n L"
      "nextIndex L = (nextIndex n)[b := u + 1]" by blast
  have nb: "nextIndex L ! b = int (length (log n))"
    using L(4) assms(1,4,12) by (simp add: leading_def indices_ok_def)
  have nr: "n_replicas (Meta L) = 3" using leader_frame_fields [OF L(3)] con(3) by simp
  have ab: "?ga \<noteq> ?gb" using assms(7) by simp
  let ?c0 = "cr_start m (n, peers)"
  have c0: "cr_leader ?c0 = n" "cr_peers ?c0 = peers" "cr_msg ?c0 = m" "cr_count ?c0 = (1, 0)" "cr_verdicts ?c0 = []"
    by (simp_all add: cr_start_def)
  have tl: "tally_step 3 True (1, 0) = ((2, 0), [True])" by code_simp
  define c where "c = \<lparr>cr_msg = mixed n k ?x m, cr_leader = L, cr_peers = peers(b := p), cr_count = (2, 0), cr_verdicts = [True],
      cr_stage = (cr_stage ?c0)(?ga := Calling None, ?gb := Counted)\<rparr>"
  have "cr_run u (overtaking a b) ?c0 = Some (Inr c)"
    using rdy ab assms(7)
    by (simp add: overtaking_def read c0 set_stage_def msg the_message_def assms(9) L(1) nr tl c_def
        del: half_full_simps)
  then show ?thesis using L(2,3) nb by (intro exI [of _ c]) (simp add: c_def)
qed

section \<open>The follower\<close>

text \<open>An up-to-date follower takes the mixed message for a continuation of its log.\<close>

lemma mixed_accepted:
  assumes "log n = l @ [e]" and "2 * int (length l) + 2 < 2147483648" and "k \<le> length l"
    and "headed n m" and "commitIndex n = int (length l) - 1"
    and "node_ok q" and "currentTerm q = currentTerm n" and "log q = l"
  shows "\<exists>r p. AppendEntries (mixed n k (int (length l)) m) q = Inr (r, p) \<and> Success r \<and>
     aer_Term r = currentTerm n \<and> node_ok p \<and> log p = l @ drop k l @ [e] \<and> currentTerm p = currentTerm n \<and>
     commitIndex p = int (length l) - 1"
proof -
  let ?m = "mixed n k (int (length l)) m"
  have hd: "ae_Term ?m = currentTerm n" "LeaderCommit ?m = int (length l) - 1"
    using assms(4,5) by (simp_all add: mixed_def headed_def)
  have es: "Entries ?m = drop k l @ [e]" "start_of ?m = length l" using assms(1,3) by (simp_all add: mixed_def start_of_def)
  have sane: "sane ?m" using assms(2) es(1) by (simp add: sane_def) (simp add: mixed_def)
  have "nat (int (length l) - 1) < length l" if "l \<noteq> []" using that by (simp add: nat_less_iff)
  then have ok: "prev_ok ?m l" using assms(1) by (cases "l = []") (simp_all add: prev_ok_def mixed_def nth_append)
  have nl: "new_log ?m l = l @ drop k l @ [e]" using ok by (simp add: new_log_def es merged_def Let_def)
  have ci: "commitIndex q < int (length l)" using assms(6,8) by (simp add: node_ok_def)
  from AppendEntries_eq [OF assms(6) sane] obtain r p where
    ae: "AppendEntries ?m q = Inr (r, p)" "aer_Term r = currentTerm n" "Success r" "currentTerm p = currentTerm n"
      "log p = l @ drop k l @ [e]" "commitIndex p = new_commit ?m (log p) (commitIndex q)"
    using ok by (auto simp: assms(7,8) hd(1) nl)
  have "commitIndex p = int (length l) - 1" unfolding ae(6) new_commit_def hd(2) using ci by (simp add: ae(5))
  with ae AppendEntries_ok [OF assms(6) sane ae(1)] show ?thesis by blast
qed

text \<open>The next message of the leader matches the wrong entry by its term and commits it.\<close>

lemma wrong_entry_committed:
  assumes "peer_slot n (int b)" and "small (log n)" and "log n = l @ [e]" and "nextIndex n ! b = int (length l) + 1"
    and "Term e = currentTerm n" and "commitIndex n = int (length l)"
    and "k < length l" and "Term (l ! k) = currentTerm n"
    and "node_ok p" and "currentTerm p = currentTerm n" and "log p = l @ drop k l @ [e]"
    and "commitIndex p = int (length l) - 1"
  shows "\<exists>hb r p'. LeaderSendAEs_msg (int b) (int (length l)) (header_msg n) n = Inr hb \<and>
     AppendEntries hb p = Inr (r, p') \<and> Success r \<and> log p' = l @ drop k l @ [e] \<and> commitIndex p' = int (length l)"
proof -
  let ?hb = "(header_msg n)\<lparr>PrevLogIndex := int (length l), PrevLogTerm := currentTerm n, Entries := []\<rparr>"
  have "LeaderSendAEs_read (int b) (int (length l)) n = Inr (int (length l), currentTerm n, [])"
    using LeaderSendAEs_read_eq [OF assms(1,2)] assms(3-5) by (simp add: nth_append nat_add_distrib)
  then have hb: "LeaderSendAEs_msg (int b) (int (length l)) (header_msg n) n = Inr ?hb"
    by (simp add: LeaderSendAEs_msg_def set_entries_def set_prev_def)
  have ht: "ae_Term (header_msg n) = currentTerm n" by (simp add: header_msg_def)
  have sane: "sane ?hb" using assms(2,3) by (simp add: sane_def small_def)
  have at: "log p ! length l = l ! k" unfolding assms(11) using assms(7) by (simp add: nth_append flip: Cons_nth_drop_Suc)
  have ok: "prev_ok ?hb (log p)" using at assms(7,8) by (simp add: prev_ok_def assms(11))
  have nl: "new_log ?hb (log p) = log p"
    using ok by (simp add: new_log_def merged_def start_of_def Let_def)
  from AppendEntries_eq [OF assms(9) sane] obtain r p' where
    ae: "AppendEntries ?hb p = Inr (r, p')" "Success r" "log p' = log p"
      "commitIndex p' = new_commit ?hb (log p) (commitIndex p)"
    using ok by (auto simp: assms(10) ht nl)
  have "commitIndex p' = int (length l)"
    unfolding ae(4) new_commit_def by (simp add: assms(6,11,12) header_msg_def)
  with ae hb assms(11) show ?thesis by metis
qed

section \<open>Properties\<close>

text \<open>
  C6: the race on the shared message replaces an acknowledged entry: among three replicas let a
  leader have committed its whole log, one peer hold the same log and the other be behind by an
  entry of the current term or more.  A client writes; in the round the goroutines of the two
  peers overtake each other in their stores; the up-to-date follower answers, the write is
  acknowledged on its word, and after the next message of the leader the follower has committed,
  at the index of the new entry, a copy of an entry that is already in its log.
\<close>

theorem race_replaces_acknowledged_entry:
  assumes "leading 3 i n" and "i < 3" and "a < 3" and "b < 3" and "a \<noteq> i" and "b \<noteq> i" and "a \<noteq> b"
    and "commitIndex n = int (length (log n)) - 1" and "2 * int (length (log n)) + 2 < 2147483648"
    and "nextIndex n ! a = int k" and "k < length (log n)" and "nextIndex n ! b = int (length (log n))"
    and "Term (log n ! k) = currentTerm n"
    and "node_ok (peers b)" and "currentTerm (peers b) = currentTerm n" and "log (peers b) = log n"
  shows "\<exists>m u n1 c n2 hb r p.
     WriteCommand_append operation client n = Inr (m, u, n1) \<and>
     cr_run u (overtaking a b) (cr_start m (n1, peers)) = Some (Inr c) \<and> cr_verdicts c = [True] \<and>
     WriteCommand_finish True operation client (cr_leader c) = ((True, None), n2) \<and>
     LeaderSendAEs_msg (int b) u (header_msg n2) n2 = Inr hb \<and> AppendEntries hb (cr_peers c b) = Inr (r, p) \<and> Success r \<and>
     commitIndex n2 = int (length (log n)) \<and> log n2 ! length (log n) = written operation client n \<and>
     commitIndex p = int (length (log n)) \<and> log p ! length (log n) = log n ! k"
proof -
  let ?l = "log n" and ?e = "written operation client n" and ?n1 = "appended operation client n"
  let ?m = "header_msg (n\<lparr>Meta := (Meta n)\<lparr>latestClient := client\<rparr>\<rparr>)" and ?u = "int (length (log n))"
  have len: "int (length ?l) + 1 < 2147483648" "?l \<noteq> []" using assms(9,11) by auto
  have wa: "WriteCommand_append operation client n = Inr (?m, ?u, ?n1)"
    using WriteCommand_append_eq [OF len(2)] len(1) by (simp add: appended_def written_def i32_id)
  have lead: "leading 3 i ?n1" by (rule appended_leading [OF assms(1) len(1)])
  have nx: "nextIndex ?n1 = nextIndex n" by (simp add: appended_def)
  have hd: "headed ?n1 ?m" by (simp add: headed_def header_msg_def)
  have "k \<le> length ?l" using assms(11) by simp
  moreover have "log ?n1 = ?l @ [?e]" "commitIndex ?n1 = ?u - 1" "currentTerm (peers b) = currentTerm ?n1"
    using assms(8,15) by simp_all
  ultimately obtain r p where
    ae: "AppendEntries (mixed ?n1 k ?u ?m) (peers b) = Inr (r, p)" "Success r" "aer_Term r = currentTerm n" "node_ok p"
      "log p = ?l @ drop k ?l @ [?e]" "currentTerm p = currentTerm n" "commitIndex p = ?u - 1"
    using mixed_accepted [of ?n1 ?l ?e k ?m "peers b"] assms(9,14,16) hd unfolding appended_simps by metis
  have "aer_Term r = currentTerm ?n1" "?u = int (length (log ?n1)) - 1" "nextIndex ?n1 ! a = int k"
    "AppendEntries (mixed ?n1 k (nextIndex ?n1 ! b) ?m) (peers b) = Inr (r, p)"
    using ae(1,3) assms(10,12) by (simp_all add: nx)
  from overtaking_run [where peers = peers, OF lead assms(2-7) this(3,4) ae(2) this(1,2)] obtain c where
    c: "cr_run ?u (overtaking a b) (cr_start ?m (?n1, peers)) = Some (Inr c)" "cr_verdicts c = [True]" "cr_peers c b = p"
      "leader_frame ?n1 (cr_leader c)" "leading 3 i (cr_leader c)" "nextIndex (cr_leader c) ! b = ?u + 1"
    by auto
  note fr = leader_frame_fields [OF c(4)]
  obtain n2 where n2: "WriteCommand_finish True operation client (cr_leader c) = ((True, None), n2)"
    by (auto simp: WriteCommand_finish_def Let_def)
  then have s2: "n2 = snd (WriteCommand_finish True operation client (cr_leader c))" by simp
  have f2: "log n2 = ?l @ [?e]" "currentTerm n2 = currentTerm n" "commitIndex n2 = ?u" "nextIndex n2 = nextIndex (cr_leader c)"
    "matchIndex n2 = matchIndex (cr_leader c)"
    using len(1) n2 by (auto simp: WriteCommand_finish_def Let_def fr assms(8) i32_id)
  have slot: "peer_slot n2 (int b)" using leading_slot [OF c(5) assms(4)] by (simp add: peer_slot_def f2)
  have "small (log n2)" using len(1) by (simp add: f2 small_def)
  from wrong_entry_committed [OF slot this f2(1) _ _ f2(3) assms(11) _ ae(4) _ ae(5,7)] c(6) ae(6) assms(13) obtain hb r' p' where
    hb: "LeaderSendAEs_msg (int b) ?u (header_msg n2) n2 = Inr hb" "AppendEntries hb p = Inr (r', p')" "Success r'"
      "log p' = ?l @ drop k ?l @ [?e]" "commitIndex p' = ?u"
    by (auto simp: f2 written_def)
  have "log p' ! length ?l = ?l ! k" unfolding hb(4) using assms(11) by (simp add: nth_append flip: Cons_nth_drop_Suc)
  moreover have "log n2 ! length ?l = ?e" by (simp add: f2)
  ultimately show ?thesis using wa c(1-3) n2 hb(1-3,5) f2(3) by blast
qed

text \<open>A leader with three committed entries, a peer with one of them and a peer with all.\<close>

definition racing_log :: "LogEntry list" where
  "racing_log = [demo_entry 1, demo_entry 2, (demo_entry 2)\<lparr>Clientid := ''c''\<rparr>]"

definition racing_leader :: RaftNode where
  "racing_leader = (demo_node 3 0 2 Leader racing_log)\<lparr>commitIndex := 2, nextIndex := [3, 1, 3]\<rparr>"

theorem race_replaces_acknowledged_entry_witness:
  "\<exists>m u n1 c n2 hb r p.
     WriteCommand_append [''POST'', ''k'', ''v''] ''d'' racing_leader = Inr (m, u, n1) \<and>
     cr_run u (overtaking 1 2) (cr_start m (n1, \<lambda>j. demo_node 3 (int j) 2 Follower racing_log)) = Some (Inr c) \<and>
     cr_verdicts c = [True] \<and>
     WriteCommand_finish True [''POST'', ''k'', ''v''] ''d'' (cr_leader c) = ((True, None), n2) \<and>
     LeaderSendAEs_msg 2 u (header_msg n2) n2 = Inr hb \<and> AppendEntries hb (cr_peers c 2) = Inr (r, p) \<and> Success r \<and>
     commitIndex n2 = 3 \<and> log n2 ! 3 = \<lparr>Term = 2, Operation = [''POST'', ''k'', ''v''], Clientid = ''d''\<rparr> \<and>
     commitIndex p = 3 \<and> log p ! 3 = demo_entry 2"
proof -
  have lead: "leading 3 0 racing_leader"
    by (simp add: leading_def racing_leader_def racing_log_def connected_def demo_node_def initial_node_def i32_id Let_def
        indices_ok_def small_def)
  have h: "length (log racing_leader) = 3" "log racing_leader ! 1 = demo_entry 2" "log racing_leader = racing_log"
    "written [''POST'', ''k'', ''v''] ''d'' racing_leader = \<lparr>Term = 2, Operation = [''POST'', ''k'', ''v''], Clientid = ''d''\<rparr>"
    by (simp_all add: racing_leader_def racing_log_def written_def)
  have side: "(0::nat) < 3" "(1::nat) < 3" "(2::nat) < 3" "(1::nat) \<noteq> 0" "(2::nat) \<noteq> 0" "(1::nat) \<noteq> 2"
    "commitIndex racing_leader = int (length (log racing_leader)) - 1" "2 * int (length (log racing_leader)) + 2 < 2147483648"
    "nextIndex racing_leader ! 1 = int 1" "1 < length (log racing_leader)"
    "nextIndex racing_leader ! 2 = int (length (log racing_leader))" "Term (log racing_leader ! 1) = currentTerm racing_leader"
    by (simp_all add: h(1,2)) (simp_all add: racing_leader_def racing_log_def demo_entry_def)
  let ?peers = "\<lambda>j. demo_node 3 (int j) 2 Follower racing_log"
  have peer: "node_ok (?peers 2)" "currentTerm (?peers 2) = currentTerm racing_leader" "log (?peers 2) = log racing_leader"
    unfolding h by (simp_all add: racing_leader_def racing_log_def small_def)
  from race_replaces_acknowledged_entry [where peers = ?peers, OF lead side peer, of "[''POST'', ''k'', ''v'']" "''d''"]
  show ?thesis unfolding h(1,2,4) by simp
qed

end
