(* ===== verification/Raft_Session.thy ===== *)
theory Raft_Session
  imports Raft_Service
begin

text \<open>
  The service over time: any sequence of writes and reads of clients at one leader, each a command
  of \<^verbatim>\<open>src/raft/client.go\<close> over its rounds, with the apply loop of \<^verbatim>\<open>src/raft/raft_node.go\<close> after an
  acknowledged write.  The abstract specification is a finite map with, for the check of
  repetitions, the last operation of each client and the client that wrote last.  The
  invariant \<open>serving\<close> ties the leader, its peers and its key-value server to the
  specification; every command keeps it and answers as the specification does, which gives the
  refinement for sequences.
\<close>

section \<open>Sequences of commands\<close>

datatype client_op = CWrite "string list" string | CRead string

datatype answer = Wrote bool "string option" | Got "string + string"

type_synonym session = "RaftNode \<times> (nat \<Rightarrow> RaftNode) \<times> store \<times> filesystem"

text \<open>
  One command with the circumstances of its two rounds, the existence check and the round of the
  write, or the round of the read.  \<open>None\<close>: the command waits forever.
\<close>

definition serve_op ::
    "(store \<times> filesystem) transport \<Rightarrow> client_op \<times> circumstances \<times> circumstances \<Rightarrow> session \<Rightarrow>
     (answer \<times> session) option go" where
  "serve_op send op s =
     (case (op, s) of ((request, rc, c), (n, peers, kv)) \<Rightarrow>
        case request of
          CWrite operation client \<Rightarrow>
            go_bind (WriteCommand_full [] [] rc (kv_http_get kv) c operation client (n, peers)) (\<lambda>res.
              case res of
                None \<Rightarrow> Inr None
              | Some ((success, err), n1, peers1) \<Rightarrow>
                  if success then
                    go_bind (ApplyToStateMachine send 1 n1 kv) (\<lambda>(n2, kv2).
                      Inr (Some (Wrote success err, n2, peers1, kv2)))
                  else Inr (Some (Wrote success err, n1, peers1, kv)))
        | CRead key \<Rightarrow>
            go_bind (ReadCommand [] c (kv_http_get kv) key (n, peers)) (\<lambda>res.
              case res of
                None \<Rightarrow> Inr None
              | Some (response, n1, peers1) \<Rightarrow> Inr (Some (Got response, n1, peers1, kv))))"

fun serve_all ::
    "(store \<times> filesystem) transport \<Rightarrow> (client_op \<times> circumstances \<times> circumstances) list \<Rightarrow> session \<Rightarrow>
     (answer list \<times> session) option go" where
  "serve_all send [] s = Inr (Some ([], s))"
| "serve_all send (op # ops) s =
     go_bind (serve_op send op s) (\<lambda>res.
       case res of
         None \<Rightarrow> Inr None
       | Some (a, s1) \<Rightarrow>
           go_bind (serve_all send ops s1) (\<lambda>res1.
             case res1 of None \<Rightarrow> Inr None | Some (as, s2) \<Rightarrow> Inr (Some (a # as, s2))))"

section \<open>The specification\<close>

record spec =
  sp_map :: "string \<Rightarrow> string option"
  sp_last :: "string \<Rightarrow> string list option"
  sp_latest :: string

definition no_key_text :: "string \<Rightarrow> string" where
  "no_key_text a = newline @ ''Unable to perform '' @ a @ '' request, no value exists for given key in the store.'' @ newline"

definition spec_serve :: "client_op \<Rightarrow> spec \<Rightarrow> answer \<times> spec" where
  "spec_serve request sp =
     (case request of
        CRead key \<Rightarrow> (Got (Inr (contents (sp_map sp key))), sp)
      | CWrite operation client \<Rightarrow>
          if sp_last sp client = Some operation \<and> operation ! 0 \<noteq> ''DELETE'' \<and> client = sp_latest sp then
            (Wrote False (Some ''Write operation failed. Already received identical write request from identical clientid.''), sp)
          else if operation ! 0 \<noteq> ''POST'' \<and> sp_map sp (operation ! 1) = None then
            (Wrote False (Some (no_key_text (operation ! 0))), sp)
          else
            (Wrote True None,
             \<lparr>sp_map = spec_op operation (sp_map sp), sp_last = (sp_last sp)(client := Some operation), sp_latest = client\<rparr>))"

fun spec_serve_all :: "client_op list \<Rightarrow> spec \<Rightarrow> answer list \<times> spec" where
  "spec_serve_all [] sp = ([], sp)"
| "spec_serve_all (r # rs) sp =
     (let (a, sp1) = spec_serve r sp; (as, sp2) = spec_serve_all rs sp1 in (a # as, sp2))"

text \<open>
  The specification of a leader that is behind: it has applied all but the last entries of its log,
  whose operations wait in a queue; an acknowledged write is appended to the queue, and the
  oldest operation of the queue takes effect.  With an empty queue it is the map.
\<close>

definition lag_serve :: "client_op \<Rightarrow> spec \<times> string list list \<Rightarrow> answer \<times> spec \<times> string list list" where
  "lag_serve request s =
     (case s of (sp, q) \<Rightarrow>
        case request of
          CRead key \<Rightarrow> (Got (Inr (contents (sp_map sp key))), sp, q)
        | CWrite operation client \<Rightarrow>
            if sp_last sp client = Some operation \<and> operation ! 0 \<noteq> ''DELETE'' \<and> client = sp_latest sp then
              (Wrote False (Some ''Write operation failed. Already received identical write request from identical clientid.''), sp, q)
            else if operation ! 0 \<noteq> ''POST'' \<and> sp_map sp (operation ! 1) = None then
              (Wrote False (Some (no_key_text (operation ! 0))), sp, q)
            else
              (Wrote True None,
               \<lparr>sp_map = spec_op (hd (q @ [operation])) (sp_map sp), sp_last = (sp_last sp)(client := Some operation),
                sp_latest = client\<rparr>, tl (q @ [operation])))"

fun lag_serve_all :: "client_op list \<Rightarrow> spec \<times> string list list \<Rightarrow> answer list \<times> spec \<times> string list list" where
  "lag_serve_all [] s = ([], s)"
| "lag_serve_all (r # rs) s =
     (let (a, s1) = lag_serve r s; (as, s2) = lag_serve_all rs s1 in (a # as, s2))"

lemma lag_serve_empty:
  "lag_serve r (sp, []) = (fst (spec_serve r sp), snd (spec_serve r sp), [])"
  by (cases r) (auto simp: lag_serve_def spec_serve_def)

lemma lag_serve_all_empty:
  "lag_serve_all rs (sp, []) = (fst (spec_serve_all rs sp), snd (spec_serve_all rs sp), [])"
  by (induction rs arbitrary: sp) (simp_all add: lag_serve_empty split_beta)

text \<open>
  Requests that the handlers build, for keys that the URL keeps and the fixed route does not hide,
  and values other than the text for absence.
\<close>

definition request_ok :: "client_op \<Rightarrow> bool" where
  "request_ok request \<longleftrightarrow>
     (case request of
        CRead key \<Rightarrow> readable key
      | CWrite operation client \<Rightarrow> \<exists>key. readable key \<and>
          (operation = [''DELETE'', key] \<or>
           (\<exists>v. v \<noteq> ''Invalid'' \<and> (operation = [''POST'', key, v] \<or> operation = [''PUT'', key, v]))))"

text \<open>Rounds that reach a majority, whatever their order: \<open>K\<close> calls to each of its members are delivered.\<close>

definition reaching :: "nat \<Rightarrow> nat \<Rightarrow> nat \<Rightarrow> circumstances \<Rightarrow> bool" where
  "reaching N i K c \<longleftrightarrow> permuting (fst c) \<and>
     N < 2 * card {j. j < N \<and> (j = i \<or> (\<exists>rest. snd c j = replicate K Delivered @ rest))}"

lemma reaching_responders:
  assumes "reaching N i K c" and "length (log n) + 1 \<le> K"
  shows "permuting (fst c)" and "N < 2 * card (responders N i n (snd c))"
proof -
  let ?R = "{j. j < N \<and> (j = i \<or> (\<exists>rest. snd c j = replicate K Delivered @ rest))}"
  have "K = length (log n) + 1 + (K - (length (log n) + 1))" using assms(2) by simp
  then have "replicate K Delivered = replicate (length (log n) + 1) Delivered @ replicate (K - (length (log n) + 1)) Delivered"
    by (metis replicate_add)
  then have "?R \<subseteq> responders N i n (snd c)" by (auto simp: responders_def responsive_def)
  then have "card ?R \<le> card (responders N i n (snd c))" by (intro card_mono) (auto simp: responders_def)
  then have "2 * card ?R \<le> 2 * card (responders N i n (snd c))" by simp
  moreover have "N < 2 * card ?R" using assms(1) by (simp add: reaching_def)
  ultimately show "N < 2 * card (responders N i n (snd c))" by linarith
  show "permuting (fst c)" using assms(1) by (simp add: reaching_def)
qed

section \<open>The invariant\<close>

definition serving :: "nat \<Rightarrow> nat \<Rightarrow> (store \<times> filesystem) transport \<Rightarrow> session \<Rightarrow> spec \<Rightarrow> bool" where
  "serving N i send s sp \<longleftrightarrow>
     (case s of (n, peers, kv) \<Rightarrow>
        leading N i n \<and> settled n \<and> commitIndex n + 1 = int (length (log n)) \<and>
        peers_follow N i n peers \<and> (\<forall>j < N. j \<noteq> i \<longrightarrow> fresh_term n (peers j)) \<and>
        http_transport send (kvstore_addr (Meta n)) \<and> kv_rel (sp_map sp) kv \<and> replay (log n) (\<lambda>_. None) = sp_map sp \<and>
        trackMessage n = sp_last sp \<and> latestClient (Meta n) = sp_latest sp)"

text \<open>The same with entries behind the commit index.\<close>

definition lagging ::
    "nat \<Rightarrow> nat \<Rightarrow> (store \<times> filesystem) transport \<Rightarrow> session \<Rightarrow> spec \<times> string list list \<Rightarrow> bool" where
  "lagging N i send s sq \<longleftrightarrow>
     (case (s, sq) of ((n, peers, kv), (sp, q)) \<Rightarrow>
        leading N i n \<and> settled n \<and> map Operation (drop (nat (commitIndex n + 1)) (log n)) = q \<and> (\<forall>x \<in> set q. op_ok x) \<and>
        peers_follow N i n peers \<and> (\<forall>j < N. j \<noteq> i \<longrightarrow> fresh_term n (peers j)) \<and>
        http_transport send (kvstore_addr (Meta n)) \<and> kv_rel (sp_map sp) kv \<and>
        replay (take (nat (commitIndex n + 1)) (log n)) (\<lambda>_. None) = sp_map sp \<and>
        trackMessage n = sp_last sp \<and> latestClient (Meta n) = sp_latest sp)"

lemma serving_lagging: "serving N i send s sp \<longleftrightarrow> lagging N i send s (sp, [])"
proof -
  obtain n peers kv where s: "s = (n, peers, kv)" by (cases s)
  have "commitIndex n + 1 = int (length (log n)) \<longleftrightarrow> drop (nat (commitIndex n + 1)) (log n) = []" if "leading N i n"
    using that by (auto simp: leading_def)
  moreover have "take (nat (commitIndex n + 1)) (log n) = log n" if "drop (nat (commitIndex n + 1)) (log n) = []"
    using that by simp
  ultimately show ?thesis unfolding s serving_def lagging_def prod.case by (auto simp del: drop_eq_Nil)
qed

lemma lagging_frame:
  assumes "lagging N i send (n, peers, kv) sq" and "leading N i n1" and "leader_frame n n1"
    and "peers_follow N i n peers'" and "\<forall>j < N. j \<noteq> i \<longrightarrow> moved n (peers j) (peers' j)"
  shows "lagging N i send (n1, peers', kv) sq"
proof -
  note fr = leader_frame_fields [OF assms(3)]
  obtain sp q where sq: "sq = (sp, q)" by (cases sq)
  have "fresh_term n1 (peers' j)" if "j < N" "j \<noteq> i" for j
    using fresh_moved [of n "peers j" "peers' j"] assms(1,5) that by (simp add: fresh_term_def fr lagging_def sq)
  moreover have "peers_follow N i n1 peers'" using assms(4) by (simp add: leader_frame_sets [OF assms(3)])
  ultimately show ?thesis using assms(1,2) by (simp add: lagging_def sq settled_def fr)
qed

lemma lagging_read:
  assumes "lagging N i send (n, peers, kv) (sp, q)" and "i < N" and "2 \<le> N" and "N < 2147483647"
    and "reaching N i K c" and "length (log n) + 1 \<le> K" and "readable key"
  shows "\<exists>n1 peers1. ReadCommand [] c (kv_http_get kv) key (n, peers) = Inr (Some (Inr (contents (sp_map sp key)), n1, peers1)) \<and>
     lagging N i send (n1, peers1, kv) (sp, q) \<and> leader_frame n n1"
proof -
  have inv: "leading N i n" "settled n" "peers_follow N i n peers" "kv_rel (sp_map sp) kv"
    using assms(1) by (simp_all add: lagging_def)
  note rr = reaching_responders [OF assms(5,6)]
  from ReadCommand_settled [OF inv(1) assms(2-4) inv(2) rr(1) inv(3), of "[]" "kv_http_get kv" key] rr(2)
  obtain n1 peers1 where
    r: "ReadCommand [] c (kv_http_get kv) key (n, peers) = Inr (Some (ReadCommand_finish True (kv_http_get kv) key n, n1, peers1))"
      "leading N i n1" "leader_frame n n1" "peers_follow N i n peers1"
      "\<forall>j < N. j \<noteq> i \<longrightarrow> moved n (peers j) (peers1 j)" by auto
  have "ReadCommand_finish True (kv_http_get kv) key n = Inr (contents (sp_map sp key))"
    using inv(1) kv_http_get_contents [OF inv(4) assms(7)] by (simp add: ReadCommand_finish_def leading_def)
  with r(1) lagging_frame [OF assms(1) r(2-5)] r(3) show ?thesis by auto
qed

text \<open>The three ends of a write.\<close>

lemma settled_no_wait [simp]: "settled n \<Longrightarrow> \<not> WriteCommand_waits n"
  by (simp add: settled_def WriteCommand_waits_def)

lemma lagging_repeated:
  assumes "lagging N i send (n, peers, kv) sq" and "operation = a # args" and "repeated operation client n"
  shows "WriteCommand_full [] [] rc (kv_http_get kv) c operation client (n, peers)
       = Inr (Some ((False, Some ''Write operation failed. Already received identical write request from identical clientid.''), n, peers))"
proof -
  have "settled n" "state n = Leader" using assms(1) by (simp_all add: lagging_def leading_def split: prod.splits)
  with WriteCommand_check_eq [OF this(2) assms(2), of client] assms(3) show ?thesis by (simp add: WriteCommand_full_def)
qed

lemma contents_missing: "contents v = ''Invalid key value pair'' @ newline \<longleftrightarrow> v = None"
  by (cases v) (simp_all add: contents_def newline_def nl_def)

lemma lagging_missing:
  assumes "lagging N i send (n, peers, kv) (sp, q)" and "i < N" and "2 \<le> N" and "N < 2147483647"
    and "reaching N i K rc" and "length (log n) + 1 \<le> K" and "readable key"
    and "operation = a # key # args" and "a = ''PUT'' \<or> a = ''DELETE''" and "\<not> repeated operation client n"
    and "sp_map sp key = None"
  shows "\<exists>n1 peers1. WriteCommand_full [] [] rc (kv_http_get kv) c operation client (n, peers)
       = Inr (Some ((False, Some (no_key_text a)), n1, peers1)) \<and> lagging N i send (n1, peers1, kv) (sp, q) \<and> leader_frame n n1"
proof -
  have "settled n" "state n = Leader" using assms(1) by (simp_all add: lagging_def leading_def)
  moreover from lagging_read [OF assms(1-7)] obtain n1 peers1 where
    "ReadCommand [] rc (kv_http_get kv) key (n, peers) = Inr (Some (Inr (contents (sp_map sp key)), n1, peers1))"
    "lagging N i send (n1, peers1, kv) (sp, q)" "leader_frame n n1" by blast
  moreover have "WriteCommand_check operation client n = Inr (CheckExists key)"
    using WriteCommand_check_eq [OF calculation(2) assms(8), of client] assms(8-10) by auto
  ultimately show ?thesis using assms(8,11)
    by (simp add: WriteCommand_full_def WriteCommand_exists_def no_key_text_def contents_def newline_def nl_def)
qed

text \<open>The oldest operation that has not been applied, and those behind it.\<close>

lemma queue_step:
  assumes "map Operation (drop k l) = q" and "k < length l"
  shows "Operation (l ! k) = hd q" and "map Operation (drop (Suc k) l) = tl q"
    and "replay (take (Suc k) l) m = spec_op (hd q) (replay (take k l) m)"
proof -
  have d: "drop k l = l ! k # drop (Suc k) l" using assms(2) by (simp add: Cons_nth_drop_Suc)
  then show h: "Operation (l ! k) = hd q" and "map Operation (drop (Suc k) l) = tl q" using assms(1) by auto
  show "replay (take (Suc k) l) m = spec_op (hd q) (replay (take k l) m)"
    using assms(2) by (simp add: take_Suc_conv_app_nth flip: h)
qed

lemma lagging_write:
  assumes "lagging N i send (n, peers, kv) (sp, q)" and "i < N" and "2 \<le> N" and "N < 2147483647"
    and "reaching N i K rc" and "reaching N i K c" and "length (log n) + 2 \<le> K" and "K < 2147483647"
    and "admitted (kv_http_get kv) operation client n" and "op_ok operation"
  shows "\<exists>n1 peers1 n2 kv2. WriteCommand_full [] [] rc (kv_http_get kv) c operation client (n, peers)
       = Inr (Some ((True, None), n1, peers1)) \<and> ApplyToStateMachine send 1 n1 kv = Inr (n2, kv2) \<and>
     length (log n2) = length (log n) + 1 \<and>
     lagging N i send (n2, peers1, kv2)
       (\<lparr>sp_map = spec_op (hd (q @ [operation])) (sp_map sp), sp_last = (sp_last sp)(client := Some operation),
         sp_latest = client\<rparr>, tl (q @ [operation]))"
proof -
  have inv: "leading N i n" "settled n" "map Operation (drop (nat (commitIndex n + 1)) (log n)) = q"
    "\<forall>x \<in> set q. op_ok x" "peers_follow N i n peers"
    "\<forall>j < N. j \<noteq> i \<longrightarrow> fresh_term n (peers j)" "http_transport send (kvstore_addr (Meta n))" "kv_rel (sp_map sp) kv"
    "trackMessage n = sp_last sp" "replay (take (nat (commitIndex n + 1)) (log n)) (\<lambda>_. None) = sp_map sp"
    using assms(1) by (simp_all add: lagging_def)
  have len: "int (length (log n)) + 1 < 2147483648" using assms(7,8) by linarith
  have k: "length (log n) + 1 \<le> K" "length (log (appended operation client n)) + 1 \<le> K" using assms(7) by simp_all
  note rr = reaching_responders [OF assms(6) k(2)] and p = reaching_responders(1) [OF assms(5) k(1)]
  from WriteCommand_full_leading [OF inv(1) assms(2-4) inv(2) p rr(1) len inv(5,6) assms(9), of "[]" "[]"] obtain v n1 peers1 where
    w: "WriteCommand_full [] [] rc (kv_http_get kv) c operation client (n, peers)
        = Inr (Some (fst (WriteCommand_finish v operation client n1), snd (WriteCommand_finish v operation client n1), peers1))"
      "leading N i n1" "log n1 = log n @ [written operation client n]" "commitIndex n1 = commitIndex n"
      "lastApplied n1 = lastApplied n" "currentTerm n1 = currentTerm n" "kvstore_addr (Meta n1) = kvstore_addr (Meta n)"
      "trackMessage n1 = trackMessage n" "latestClient (Meta n1) = client"
      "\<forall>j < N. j \<noteq> i \<longrightarrow> (\<exists>p. moved n (peers j) p \<and> moved n1 p (peers1 j))"
      "N < 2 * card (responders N i (appended operation client n) (snd c)) \<longrightarrow> v"
    by blast
  have v: "v = True" using w(11) rr(2) by blast
  let ?n = "snd (WriteCommand_finish True operation client n1)" and ?k = "nat (commitIndex n + 1)"
  have bd: "-1 \<le> commitIndex n" "commitIndex n < int (length (log n))" using inv(1) by (simp_all add: leading_def)
  have "commitIndex n1 + 1 < int (length (log n1))" using bd by (simp add: w(3,4))
  note fl = finish_leading [OF w(2) this, of operation client]
  have kk: "nat (commitIndex ?n) = ?k" "nat (commitIndex ?n + 1) = Suc ?k" unfolding fl(2) w(4) using bd(1) by simp_all
  have kl: "?k < length (log ?n)" "?k \<le> length (log n)" using bd by (simp_all add: w(3))
  have lq: "log ?n = log n @ [written operation client n]" by (simp add: w(3))
  have q: "map Operation (drop ?k (log ?n)) = q @ [operation]"
    unfolding lq using inv(3) kl(2) by (simp add: written_def)
  note qs = queue_step [OF q kl(1)]
  have tk: "replay (take ?k (log ?n)) (\<lambda>_. None) = sp_map sp" unfolding lq using inv(10) kl(2) by simp
  then have tk1: "replay (take ?k (log n1)) (\<lambda>_. None) = sp_map sp" by simp
  have ops: "\<forall>x \<in> set (q @ [operation]). op_ok x" using inv(4) assms(10) by auto
  then have "op_ok (Operation (log ?n ! ?k))" unfolding qs(1) by (simp add: hd_append)
  moreover have "commitIndex ?n = lastApplied ?n + 1" "-1 \<le> lastApplied ?n"
    using inv(2) bd(1) unfolding fl(2) by (simp_all add: settled_def w(4,5))
  moreover have "http_transport send (kvstore_addr (Meta ?n))" using inv(7) by (simp add: w(7))
  ultimately obtain n2 kv2 where
    a: "ApplyToStateMachine send 1 ?n kv = Inr (n2, kv2)"
      "leading N i n2" "settled n2" "log n2 = log ?n" "commitIndex n2 = commitIndex ?n"
      "currentTerm n2 = currentTerm ?n" "Meta n2 = Meta ?n" "trackMessage n2 = trackMessage ?n"
      "kv_rel (replay (take (Suc ?k) (log ?n)) (\<lambda>_. None)) kv2"
    using leader_applies_next [OF _ fl(1), of send kv] inv(8) unfolding kk tk by blast
  have c2: "nat (commitIndex n2 + 1) = Suc ?k" unfolding a(5) by (rule kk(2))
  have f: "follows n2 (peers1 j)" "fresh_term n2 (peers1 j)" if "j < N" "j \<noteq> i" for j
  proof -
    from w(10) that obtain x where x: "moved n (peers j) x" "moved n1 x (peers1 j)" by blast
    then have "follows n1 (peers1 j)" by (simp add: moved_def)
    then show "follows n2 (peers1 j)" by (simp add: follows_def a(4,6) w(6))
    have "fresh_term n x" using fresh_moved [OF x(1)] inv(6) that by blast
    then have "fresh_term n1 x"
      using set_drop_subset_set_drop [of "length (log n)" "Suc (length (log n))" "log x"]
      by (auto simp: fresh_term_def w(3,6))
    from fresh_moved [OF x(2) this] show "fresh_term n2 (peers1 j)" by (simp add: fresh_term_def a(4,6) w(6))
  qed
  have "\<forall>x \<in> set (tl (q @ [operation])). op_ok x" using ops by (meson list.set_sel(2) snoc_eq_iff_butlast)
  moreover have "trackMessage ?n = (trackMessage n1)(client := Some operation)" by (simp add: WriteCommand_finish_def Let_def)
  ultimately have "lagging N i send (n2, peers1, kv2)
       (\<lparr>sp_map = spec_op (hd (q @ [operation])) (sp_map sp), sp_last = (sp_last sp)(client := Some operation),
         sp_latest = client\<rparr>, tl (q @ [operation]))"
    using f a(2,3,9) inv(7,9) qs(2,3) unfolding lagging_def prod.case c2 a(4) tk
    by (simp add: peers_follow_def a(7,8) w(7-9) tk1)
  moreover have "fst (WriteCommand_finish True operation client n1) = (True, None)"
    by (simp add: WriteCommand_finish_def Let_def)
  moreover have "length (log n2) = length (log n) + 1" by (simp add: a(4) w(3))
  ultimately show ?thesis using w(1) a(1) unfolding v by (metis (no_types, lifting))
qed

section \<open>Every command answers as the specification\<close>

lemma serve_op_sim:
  assumes "lagging N i send (n, peers, kv) (sp, q)" and "i < N" and "2 \<le> N" and "N < 2147483647"
    and "reaching N i K rc" and "reaching N i K c" and "length (log n) + 2 \<le> K" and "K < 2147483647" and "request_ok request"
  shows "\<exists>n1 peers1 kv1. serve_op send (request, rc, c) (n, peers, kv) = Inr (Some (fst (lag_serve request (sp, q)), n1, peers1, kv1)) \<and>
     lagging N i send (n1, peers1, kv1) (snd (lag_serve request (sp, q))) \<and> length (log n1) \<le> length (log n) + 1"
proof (cases request)
  case (CRead key)
  then have key: "readable key" using assms(9) by (simp add: request_ok_def)
  have k: "length (log n) + 1 \<le> K" using assms(7) by simp
  from lagging_read [OF assms(1-4,6) k key] obtain n1 peers1 where
    "ReadCommand [] c (kv_http_get kv) key (n, peers) = Inr (Some (Inr (contents (sp_map sp key)), n1, peers1))"
    "lagging N i send (n1, peers1, kv) (sp, q)" "leader_frame n n1" by blast
  then show ?thesis by (simp add: serve_op_def lag_serve_def CRead leader_frame_fields)
next
  case (CWrite operation client)
  with assms(9) obtain key a args where op: "operation = a # key # args" "readable key"
      "a = ''POST'' \<or> a = ''PUT'' \<or> a = ''DELETE''" and ok: "op_ok operation"
    unfolding request_ok_def op_ok_def by auto
  have k: "length (log n) + 1 \<le> K" using assms(7) by simp
  have rep: "repeated operation client n \<longleftrightarrow> sp_last sp client = Some operation \<and> operation ! 0 \<noteq> ''DELETE'' \<and> client = sp_latest sp"
    using assms(1) op(1,3) by (auto simp: lagging_def repeated_def)
  consider (repeated) "repeated operation client n"
    | (missing) "\<not> repeated operation client n" "a \<noteq> ''POST''" "sp_map sp key = None"
    | (written) "\<not> repeated operation client n" "a = ''POST'' \<or> sp_map sp key \<noteq> None" by blast
  then show ?thesis
  proof cases
    case repeated
    then have "lag_serve request (sp, q) =
        (Wrote False (Some ''Write operation failed. Already received identical write request from identical clientid.''), sp, q)"
      unfolding rep lag_serve_def CWrite by auto
    with lagging_repeated [OF assms(1) op(1) repeated, of rc c] assms(1) show ?thesis
      by (intro exI [of _ n] exI [of _ peers] exI [of _ kv]) (simp add: serve_op_def CWrite)
  next
    case missing
    then have "a = ''PUT'' \<or> a = ''DELETE''" using op(3) by blast
    from lagging_missing [OF assms(1-5) k op(2,1) this missing(1,3), of c] obtain n1 peers1 where
      "WriteCommand_full [] [] rc (kv_http_get kv) c operation client (n, peers)
         = Inr (Some ((False, Some (no_key_text a)), n1, peers1))"
      "lagging N i send (n1, peers1, kv) (sp, q)" "leader_frame n n1" by blast
    moreover have "lag_serve request (sp, q) = (Wrote False (Some (no_key_text a)), sp, q)"
      using missing rep op(1) by (auto simp: lag_serve_def CWrite)
    ultimately show ?thesis by (simp add: serve_op_def CWrite leader_frame_fields)
  next
    case written
    have get: "kv_http_get kv key = Some (Inr (contents (sp_map sp key)))"
      using assms(1) op(2) by (intro kv_http_get_contents) (simp_all add: lagging_def)
    have "a = ''POST'' \<or> kv_http_get kv key \<noteq> Some (Inr (''Invalid key value pair'' @ newline))"
      using written(2) unfolding get option.inject sum.inject contents_missing .
    then have "admitted (kv_http_get kv) operation client n"
      using written(1) op(1,3) unfolding admitted_def by blast
    from lagging_write [OF assms(1-8) this ok] obtain n1 peers1 n2 kv2 where
      "WriteCommand_full [] [] rc (kv_http_get kv) c operation client (n, peers) = Inr (Some ((True, None), n1, peers1))"
      "ApplyToStateMachine send 1 n1 kv = Inr (n2, kv2)" "length (log n2) = length (log n) + 1"
      "lagging N i send (n2, peers1, kv2)
         (\<lparr>sp_map = spec_op (hd (q @ [operation])) (sp_map sp), sp_last = (sp_last sp)(client := Some operation),
           sp_latest = client\<rparr>, tl (q @ [operation]))"
      by blast
    moreover have "lag_serve request (sp, q) = (Wrote True None,
        \<lparr>sp_map = spec_op (hd (q @ [operation])) (sp_map sp), sp_last = (sp_last sp)(client := Some operation),
          sp_latest = client\<rparr>, tl (q @ [operation]))"
      using written rep op(1) by (auto simp: lag_serve_def CWrite)
    ultimately show ?thesis by (simp add: serve_op_def CWrite)
  qed
qed

lemma serve_all_sim:
  assumes "lagging N i send (n, peers, kv) (sp, q)" and "i < N" and "2 \<le> N" and "N < 2147483647"
    and "\<forall>(request, rc, c) \<in> set ops. request_ok request \<and> reaching N i K rc \<and> reaching N i K c"
    and "length (log n) + length ops + 1 \<le> K" and "K < 2147483647"
  shows "\<exists>s'. serve_all send ops (n, peers, kv) = Inr (Some (fst (lag_serve_all (map fst ops) (sp, q)), s')) \<and>
     lagging N i send s' (snd (lag_serve_all (map fst ops) (sp, q)))"
  using assms(1,5,6)
proof (induction ops arbitrary: n peers kv sp q)
  case Nil
  then show ?case by auto
next
  case (Cons op ops)
  obtain request rc c where op: "op = (request, rc, c)" by (cases op) auto
  obtain a sp1 q1 where l: "lag_serve request (sp, q) = (a, sp1, q1)" by (metis prod_cases3)
  from Cons.prems op have r: "request_ok request" "reaching N i K rc" "reaching N i K c" "length (log n) + 2 \<le> K" by auto
  from serve_op_sim [OF Cons.prems(1) assms(2-4) r(2-4) assms(7) r(1)] obtain n1 peers1 kv1 where
    1: "serve_op send (request, rc, c) (n, peers, kv) = Inr (Some (a, n1, peers1, kv1))"
      "lagging N i send (n1, peers1, kv1) (sp1, q1)" "length (log n1) \<le> length (log n) + 1"
    unfolding l by auto
  from Cons.IH [OF 1(2)] Cons.prems(2,3) 1(3) obtain s' where
    "serve_all send ops (n1, peers1, kv1) = Inr (Some (fst (lag_serve_all (map fst ops) (sp1, q1)), s'))"
    "lagging N i send s' (snd (lag_serve_all (map fst ops) (sp1, q1)))" by auto
  with 1(1) l show ?case by (simp add: op split_beta)
qed

section \<open>Properties\<close>

text \<open>
  C2: the service refines its specification. The leader has committed and applied its whole log;
  no peer is in a newer term, every peer's log matches the leader's and has no entry of the
  leader's term beyond it; the transport behaves as \<open>http_transport\<close> says; every
  key of a request is \<open>readable\<close>, that is, URL parsing and routing keep it and it
  is not the fixed route \<open>kvstore\<close>; no value is the text \<open>Invalid\<close>;
  and in every round the goroutines run one after another, in any order, and all calls to some
  majority are delivered. Then every sequence of commands, one after another, is answered in
  full and as the finite map answers it: reads return the value of the key, POST, PUT and DELETE
  are acknowledged and change the map, a PUT or DELETE of a missing key and a repetition are
  refused; and at the end the leader, its log and its key-value server still hold the map.
\<close>

theorem service_refines_map:
  assumes "serving N i send (n, peers, kv) sp" and "i < N" and "2 \<le> N" and "N < 2147483647"
    and "\<forall>(request, rc, c) \<in> set ops. request_ok request \<and> reaching N i K rc \<and> reaching N i K c"
    and "length (log n) + length ops + 1 \<le> K" and "K < 2147483647"
  shows "\<exists>s'. serve_all send ops (n, peers, kv) = Inr (Some (fst (spec_serve_all (map fst ops) sp), s')) \<and>
     serving N i send s' (snd (spec_serve_all (map fst ops) sp))"
proof -
  have "lagging N i send (n, peers, kv) (sp, [])" using assms(1) by (simp add: serving_lagging)
  from serve_all_sim [OF this assms(2-7)] show ?thesis by (simp add: lag_serve_all_empty serving_lagging)
qed

text \<open>A leader of three whose third replica is down; the second answers the first eight calls of a round.\<close>

definition demo_reach :: circumstances where
  "demo_reach = (rev, \<lambda>j. if j = 1 then replicate 8 Delivered else [])"

definition demo_requests :: "client_op list" where
  "demo_requests = [CWrite [''POST'', ''k'', ''v''] ''c'', CWrite [''POST'', ''k'', ''v''] ''c'', CRead ''k'',
     CWrite [''DELETE'', ''k''] ''c'', CWrite [''PUT'', ''k'', ''w''] ''d'']"

lemma two_of_three_reach:
  assumes "permuting (fst c)" and "snd c j = replicate K Delivered @ rest" and "i < 3" and "j < 3" and "i \<noteq> j"
  shows "reaching 3 i K c"
proof -
  let ?R = "{x. x < 3 \<and> (x = i \<or> (\<exists>rest. snd c x = replicate K Delivered @ rest))}"
  have "card {i, j} \<le> card ?R" using assms(2-4) by (intro card_mono) auto
  then have "2 * 2 \<le> 2 * card ?R" using assms(5) by simp
  then show ?thesis using assms(1) by (simp add: reaching_def)
qed

lemma demo_reaching: "reaching 3 0 8 demo_reach"
  by (rule two_of_three_reach [where j = 1 and rest = "[]"]) (simp_all add: demo_reach_def)

definition demo_spec :: spec where
  "demo_spec = \<lparr>sp_map = (\<lambda>_. None), sp_last = (\<lambda>_. None), sp_latest = []\<rparr>"

lemma demo_serving: "serving 3 0 (loopback '':3000'') (demo_settled, demo_peers, demo_kv) demo_spec"
proof -
  have "latestClient (Meta demo_settled) = []"
    by (simp add: demo_settled_def demo_node_def initial_node_def Let_def ConnectToPeerReplicas_def)
  then show ?thesis
    using demo_settled_leading demo_settled_peers
    by (simp add: serving_def demo_spec_def lo.http_transport_axioms demo_entry_def)
qed

theorem service_refines_map_witness:
  "\<exists>s'. serve_all (loopback '':3000'') (map (\<lambda>r. (r, demo_reach, demo_reach)) demo_requests) (demo_settled, demo_peers, demo_kv) =
     Inr (Some ([Wrote True None,
       Wrote False (Some ''Write operation failed. Already received identical write request from identical clientid.''),
       Got (Inr (''Value = v'' @ nl)), Wrote True None, Wrote False (Some (no_key_text ''PUT''))], s'))"
proof -
  have ok: "\<forall>(request, rc, c) \<in> set (map (\<lambda>r. (r, demo_reach, demo_reach)) demo_requests).
      request_ok request \<and> reaching 3 0 8 rc \<and> reaching 3 0 8 c"
    by (auto simp: demo_requests_def request_ok_def demo_reaching)
  have m: "map fst (map (\<lambda>r. (r, demo_reach, demo_reach)) demo_requests) = demo_requests" by (simp add: o_def)
  have sp: "fst (spec_serve_all demo_requests demo_spec) = [Wrote True None,
       Wrote False (Some ''Write operation failed. Already received identical write request from identical clientid.''),
       Got (Inr (''Value = v'' @ nl)), Wrote True None, Wrote False (Some (no_key_text ''PUT''))]"
    by (simp add: demo_requests_def demo_spec_def spec_serve_def contents_def)
  have k: "length (log demo_settled) + length (map (\<lambda>r. (r, demo_reach, demo_reach)) demo_requests) + 1 \<le> 8"
    by (simp add: demo_requests_def)
  from service_refines_map [OF demo_serving _ _ _ ok k] sp m show ?thesis by auto
qed

end
