(* ===== verification/Raft_Writers.thy ===== *)
theory Raft_Writers
  imports Raft_Session
begin

text \<open>
  Commands of several clients at one leader, interleaved.  \<open>WriteCommand\<close> of
  \<^verbatim>\<open>src/raft/client.go\<close> takes the lock for its check, for its append and for its result, and
  anything may happen in between: other commands, the apply loop of \<^verbatim>\<open>src/raft/raft_node.go\<close>,
  reads.  A command is a sequence of turns, built from the sections of \<open>Raft_Client\<close>.
  The properties: whatever the order, the commit index counts the acknowledged writes while the
  log counts all appended ones, so that the commit index stays behind by the writes that are
  pending or have failed; and a read can miss a write that has been acknowledged before it.
\<close>

section \<open>Commands as sequences of turns\<close>

text \<open>Where a writing command is.\<close>

datatype wstage =
    Waiting
  | Passed
  | Looking string
  | Cleared
  | Sending AppendEntriesMessage int
  | Decided bool
  | Replied bool "string option"

text \<open>
  The node and its peers, the key-value server of the node, the number of the batches that the
  apply loop has taken, the commands, and the answers of the reads, latest first.
\<close>

record 's office =
  of_node :: RaftNode
  of_peers :: "nat \<Rightarrow> RaftNode"
  of_server :: 's
  of_taken :: nat
  of_stage :: "nat \<Rightarrow> wstage"
  of_reads :: "(string \<times> (string + string)) list"

text \<open>
  \<open>Pass\<close> leaves the loop that waits for the apply loop, \<open>Check\<close> is the first section under the
  lock, with the append unless the existence of the key is asked for in \<open>Look\<close>, after which
  \<open>Append\<close> has a section of its own; \<open>Round\<close> is the round of the appended entry and \<open>Finish\<close> the
  section that acts on its verdict, after which the number 1 waits for the apply loop, whose next
  number is taken by \<open>Take\<close>; \<open>Consult\<close> is a read by a client.
\<close>

datatype wturn =
    Pass nat
  | Check nat
  | Look nat circumstances
  | Append nat
  | Round nat circumstances
  | Finish nat
  | Take
  | Consult string circumstances

type_synonym write_cmd = "string list \<times> string"

text \<open>The append, in the section of the check or in one of its own.\<close>

definition append_turn :: "write_cmd \<Rightarrow> nat \<Rightarrow> 's office \<Rightarrow> 's office go" where
  "append_turn cmd w s =
     go_bind (WriteCommand_append (fst cmd) (snd cmd) (of_node s)) (\<lambda>(msg, upper_index, n1).
       Inr (s\<lparr>of_node := n1, of_stage := (of_stage s)(w := Sending msg upper_index)\<rparr>))"

text \<open>A turn; \<open>None\<close> when it cannot be taken now.\<close>

fun of_step ::
    "'s transport \<Rightarrow> ('s \<Rightarrow> string \<Rightarrow> (string + string) option) \<Rightarrow> (nat \<Rightarrow> write_cmd) \<Rightarrow> wturn \<Rightarrow> 's office \<Rightarrow>
     's office go option" where
  "of_step send get cmds (Pass w) s =
     (if of_stage s w = Waiting \<and> \<not> WriteCommand_waits (of_node s)
      then Some (Inr (s\<lparr>of_stage := (of_stage s)(w := Passed)\<rparr>)) else None)"
| "of_step send get cmds (Check w) s =
     (case of_stage s w of
        Passed \<Rightarrow>
          Some (go_bind (WriteCommand_check (fst (cmds w)) (snd (cmds w)) (of_node s)) (\<lambda>next.
            case next of
              Refuse err \<Rightarrow> Inr (s\<lparr>of_stage := (of_stage s)(w := Replied False (Some err))\<rparr>)
            | CheckExists key \<Rightarrow> Inr (s\<lparr>of_stage := (of_stage s)(w := Looking key)\<rparr>)
            | Proceed \<Rightarrow> append_turn (cmds w) w s))
      | _ \<Rightarrow> None)"
| "of_step send get cmds (Look w c) s =
     (case of_stage s w of
        Looking key \<Rightarrow>
          (case ReadCommand [] c (get (of_server s)) key (of_node s, of_peers s) of
             Inl e \<Rightarrow> Some (Inl e)
           | Inr None \<Rightarrow> None
           | Inr (Some (response, n1, peers1)) \<Rightarrow>
               Some (Inr (s\<lparr>of_node := n1, of_peers := peers1,
                            of_stage := (of_stage s)(w :=
                              (case WriteCommand_exists (fst (cmds w) ! 0) response of
                                 Refuse err \<Rightarrow> Replied False (Some err)
                               | _ \<Rightarrow> Cleared))\<rparr>)))
      | _ \<Rightarrow> None)"
| "of_step send get cmds (Append w) s =
     (case of_stage s w of Cleared \<Rightarrow> Some (append_turn (cmds w) w s) | _ \<Rightarrow> None)"
| "of_step send get cmds (Round w c) s =
     (case of_stage s w of
        Sending msg upper_index \<Rightarrow>
          (case LeaderSendAEs (fst c) (snd c) msg upper_index (of_node s, of_peers s) of
             Inl e \<Rightarrow> Some (Inl e)
           | Inr r \<Rightarrow>
               (case verdicts r of
                  [] \<Rightarrow> None
                | success # _ \<Rightarrow>
                    Some (Inr (s\<lparr>of_node := rd_leader r, of_peers := rd_peers r,
                                 of_stage := (of_stage s)(w := Decided success)\<rparr>))))
      | _ \<Rightarrow> None)"
| "of_step send get cmds (Finish w) s =
     (case of_stage s w of
        Decided success \<Rightarrow>
          (let ((ok, err), n1) = WriteCommand_finish success (fst (cmds w)) (snd (cmds w)) (of_node s)
           in Some (Inr (s\<lparr>of_node := n1, of_stage := (of_stage s)(w := Replied ok err)\<rparr>)))
      | _ \<Rightarrow> None)"
| "of_step send get cmds Take s =
     (let numbers = commits_of (effects (of_node s))
      in if of_taken s < length numbers then
           Some (go_bind (ApplyToStateMachine send (numbers ! of_taken s) (of_node s) (of_server s)) (\<lambda>(n1, server).
             Inr (s\<lparr>of_node := n1, of_server := server, of_taken := of_taken s + 1\<rparr>)))
         else None)"
| "of_step send get cmds (Consult key c) s =
     (case ReadCommand [] c (get (of_server s)) key (of_node s, of_peers s) of
        Inl e \<Rightarrow> Some (Inl e)
      | Inr None \<Rightarrow> None
      | Inr (Some (response, n1, peers1)) \<Rightarrow>
          Some (Inr (s\<lparr>of_node := n1, of_peers := peers1, of_reads := (key, response) # of_reads s\<rparr>)))"

fun of_run ::
    "'s transport \<Rightarrow> ('s \<Rightarrow> string \<Rightarrow> (string + string) option) \<Rightarrow> (nat \<Rightarrow> write_cmd) \<Rightarrow> wturn list \<Rightarrow> 's office \<Rightarrow>
     's office go option" where
  "of_run send get cmds [] s = Some (Inr s)"
| "of_run send get cmds (t # ts) s =
     (case of_step send get cmds t s of
        None \<Rightarrow> None
      | Some (Inl e) \<Rightarrow> Some (Inl e)
      | Some (Inr s1) \<Rightarrow> of_run send get cmds ts s1)"

text \<open>The commands arrive at a node whose apply loop has taken all numbers.\<close>

definition of_start :: "RaftNode \<Rightarrow> (nat \<Rightarrow> RaftNode) \<Rightarrow> 's \<Rightarrow> 's office" where
  "of_start n peers server =
     \<lparr>of_node = n, of_peers = peers, of_server = server, of_taken = length (commits_of (effects n)),
      of_stage = (\<lambda>_. Waiting), of_reads = []\<rparr>"

section \<open>Invariant\<close>

text \<open>The stages after the append; a refused command has a stage like a failed one.\<close>

definition sent :: "wstage \<Rightarrow> bool" where
  "sent st = (case st of Sending m u \<Rightarrow> True | Decided b \<Rightarrow> True | Replied ok err \<Rightarrow> ok | _ \<Rightarrow> False)"

definition early :: "wstage \<Rightarrow> bool" where
  "early st = (case st of Waiting \<Rightarrow> True | Passed \<Rightarrow> True | Looking key \<Rightarrow> True | Cleared \<Rightarrow> True | _ \<Rightarrow> False)"

lemma stage_simps [simp]:
  "\<not> sent Waiting" "\<not> sent Passed" "\<not> sent (Looking key)" "\<not> sent Cleared" "sent (Sending m u)" "sent (Decided b)"
  "sent (Replied ok err) = ok" "early Waiting" "early Passed" "early (Looking key)" "early Cleared"
  "\<not> early (Sending m u)" "\<not> early (Decided b)" "\<not> early (Replied ok err)"
  by (simp_all add: sent_def early_def)

lemma sent_not_early: "sent st \<Longrightarrow> \<not> early st"
  by (cases st) simp_all

definition acknowledged :: "'s office \<Rightarrow> nat set" where
  "acknowledged s = {w. \<exists>err. of_stage s w = Replied True err}"

text \<open>
  The invariant, with the order \<open>ws\<close> in which the commands have appended, since the node \<open>n\<close> at
  the start.
\<close>

definition orders_ok :: "nat \<Rightarrow> 's office \<Rightarrow> nat list \<Rightarrow> bool" where
  "orders_ok W s ws \<longleftrightarrow> distinct ws \<and> set ws \<subseteq> {..<W} \<and>
     (\<forall>w. sent (of_stage s w) \<longrightarrow> w \<in> set ws) \<and> (\<forall>w \<in> set ws. \<not> early (of_stage s w))"

definition counts_ok :: "RaftNode \<Rightarrow> (nat \<Rightarrow> write_cmd) \<Rightarrow> 's office \<Rightarrow> nat list \<Rightarrow> bool" where
  "counts_ok n cmds s ws \<longleftrightarrow>
     take (length (log n)) (log (of_node s)) = log n \<and>
     map (\<lambda>e. (Operation e, Clientid e)) (drop (length (log n)) (log (of_node s))) = map cmds ws \<and>
     commitIndex (of_node s) = commitIndex n + int (card (acknowledged s)) \<and>
     commits_of (effects (of_node s)) = commits_of (effects n) @ replicate (card (acknowledged s)) 1 \<and>
     length (commits_of (effects n)) \<le> of_taken s \<and>
     of_taken s \<le> length (commits_of (effects n)) + card (acknowledged s) \<and>
     lastApplied (of_node s) = lastApplied n + int (of_taken s - length (commits_of (effects n))) \<and>
     kvstore_addr (Meta (of_node s)) = kvstore_addr (Meta n)"

definition store_ok_at :: "(store \<times> filesystem) office \<Rightarrow> bool" where
  "store_ok_at s \<longleftrightarrow> kv_rel (replay (take (nat (lastApplied (of_node s) + 1)) (log (of_node s))) (\<lambda>_. None)) (of_server s)"

definition office_ok ::
    "nat \<Rightarrow> RaftNode \<Rightarrow> (nat \<Rightarrow> write_cmd) \<Rightarrow> (store \<times> filesystem) office \<Rightarrow> nat list \<Rightarrow> bool" where
  "office_ok W n cmds s ws \<longleftrightarrow> orders_ok W s ws \<and> counts_ok n cmds s ws \<and> store_ok_at s"

text \<open>The circumstances: a node that has committed and applied its log, and room for all writes.\<close>

definition opened :: "nat \<Rightarrow> RaftNode \<Rightarrow> (nat \<Rightarrow> write_cmd) \<Rightarrow> (store \<times> filesystem) transport \<Rightarrow> bool" where
  "opened W n cmds send \<longleftrightarrow> settled n \<and> commitIndex n + 1 = int (length (log n)) \<and>
     int (length (log n)) + int W < 2147483648 \<and> http_transport send (kvstore_addr (Meta n)) \<and>
     (\<forall>w < W. op_ok (fst (cmds w)))"

lemma acknowledged_sent: "orders_ok W s ws \<Longrightarrow> acknowledged s \<subseteq> set ws"
  by (auto simp: orders_ok_def acknowledged_def)

lemma orders_bounds:
  assumes "orders_ok W s ws"
  shows "finite (acknowledged s)" "card (acknowledged s) \<le> length ws" "length ws \<le> W"
proof -
  show "finite (acknowledged s)" using acknowledged_sent [OF assms] by (rule finite_subset) simp
  have "card (acknowledged s) \<le> card (set ws)" using acknowledged_sent [OF assms] by (rule card_mono [rotated]) simp
  then show "card (acknowledged s) \<le> length ws" using card_length [of ws] by linarith
  have "length ws = card (set ws)" using assms by (simp add: orders_ok_def distinct_card)
  also have "\<dots> \<le> card {..<W}" using assms by (intro card_mono) (simp_all add: orders_ok_def)
  finally show "length ws \<le> W" by simp
qed

lemma counts_length:
  assumes "counts_ok n cmds s ws"
  shows "length (log (of_node s)) = length (log n) + length ws"
proof -
  have "length (drop (length (log n)) (log (of_node s))) = length ws"
    using arg_cong [where f = length, OF conjunct1 [OF conjunct2 [OF assms [unfolded counts_ok_def]]]]
    by (simp only: length_map)
  moreover have "length (take (length (log n)) (log (of_node s))) = length (log n)" using assms by (simp add: counts_ok_def)
  ultimately show ?thesis by simp
qed

section \<open>Every turn keeps the invariant\<close>

text \<open>Turns that leave the log and the counts alone.\<close>

lemma office_frame:
  assumes "office_ok W n cmds s ws" and "kept (of_node s) n1" and "acknowledged s' = acknowledged s"
    and "of_stage s' = (of_stage s)(w := st)" and "sent st \<longrightarrow> w \<in> set ws" and "w \<in> set ws \<longrightarrow> \<not> early st"
    and "of_node s' = n1" and "of_server s' = of_server s" and "of_taken s' = of_taken s"
  shows "office_ok W n cmds s' ws"
proof -
  have "orders_ok W s' ws" using assms(1,4-6) by (auto simp: office_ok_def orders_ok_def)
  moreover have "counts_ok n cmds s' ws" using assms(1,2,3,7,9) by (simp add: office_ok_def counts_ok_def kept_def)
  moreover have "store_ok_at s'" using assms(1,2,7,8) by (simp add: office_ok_def store_ok_at_def kept_def)
  ultimately show ?thesis by (simp add: office_ok_def)
qed

lemma acknowledged_frame:
  assumes "of_stage s' = (of_stage s)(w := st)" and "\<forall>err. st \<noteq> Replied True err" and "\<forall>err. of_stage s w \<noteq> Replied True err"
  shows "acknowledged s' = acknowledged s"
  using assms by (auto simp: acknowledged_def)

lemma office_append:
  assumes "opened W n cmds send" and "office_ok W n cmds s ws" and "w < W" and "early (of_stage s w)"
    and "append_turn (cmds w) w s = Inr s'"
  shows "office_ok W n cmds s' (ws @ [w])"
proof -
  have o: "orders_ok W s ws" "counts_ok n cmds s ws" "store_ok_at s" using assms(2) by (simp_all add: office_ok_def)
  have len: "length (log (of_node s)) = length (log n) + length ws" by (rule counts_length [OF o(2)])
  then have ne: "log (of_node s) \<noteq> []" using assms(1) by (auto simp: opened_def settled_def)
  obtain m u where s': "s' = s\<lparr>of_node := appended (fst (cmds w)) (snd (cmds w)) (of_node s), of_stage := (of_stage s)(w := Sending m u)\<rparr>"
    using assms(5) WriteCommand_append_eq [OF ne] by (auto simp: append_turn_def appended_def written_def)
  have nw: "w \<notin> set ws" using o(1) assms(4) by (auto simp: orders_ok_def)
  have ack: "acknowledged s' = acknowledged s"
    using assms(4) by (intro acknowledged_frame [where w = w and st = "Sending m u"]) (auto simp: s')
  have "orders_ok W s' (ws @ [w])" using o(1) nw assms(3) by (auto simp: orders_ok_def s')
  moreover have "counts_ok n cmds s' (ws @ [w])"
    using o(2) len ack by (simp add: counts_ok_def s') (simp add: appended_def written_def)
  moreover have "lastApplied (of_node s) < int (length (log (of_node s)))"
    using o(2) orders_bounds [OF o(1)] len assms(1) by (simp add: counts_ok_def opened_def settled_def)
  then have "nat (lastApplied (of_node s) + 1) \<le> length (log (of_node s))" by simp
  then have "store_ok_at s'" using o(3) by (simp add: store_ok_at_def s')
  ultimately show ?thesis by (simp add: office_ok_def)
qed

lemma counts_finish:
  assumes "counts_ok n cmds s ws" and "card (acknowledged s') = card (acknowledged s) + 1"
    and "of_node s' = snd (WriteCommand_finish True operation client (of_node s))" and "of_taken s' = of_taken s"
    and "i32 (commitIndex (of_node s) + 1) = commitIndex (of_node s) + 1"
  shows "counts_ok n cmds s' ws"
  using assms by (simp add: counts_ok_def replicate_append_same)

lemma office_finish:
  assumes "opened W n cmds send" and "office_ok W n cmds s ws" and "of_stage s w = Decided b"
    and "WriteCommand_finish b (fst (cmds w)) (snd (cmds w)) (of_node s) = ((ok, err), n1)"
  shows "office_ok W n cmds (s\<lparr>of_node := n1, of_stage := (of_stage s)(w := Replied ok err)\<rparr>) ws"
proof -
  let ?s = "s\<lparr>of_node := n1, of_stage := (of_stage s)(w := Replied ok err)\<rparr>"
  have o: "orders_ok W s ws" "counts_ok n cmds s ws" "store_ok_at s" using assms(2) by (simp_all add: office_ok_def)
  have w: "w \<in> set ws" "w \<notin> acknowledged s" using o(1) assms(3) by (auto simp: orders_ok_def acknowledged_def)
  have ok: "ok = b" and n1: "n1 = snd (WriteCommand_finish b (fst (cmds w)) (snd (cmds w)) (of_node s))"
    using WriteCommand_finish_simps(8) [of b "fst (cmds w)" "snd (cmds w)" "of_node s"] assms(4) by simp_all
  show ?thesis
  proof (cases b)
    case True
    have ack: "acknowledged ?s = insert w (acknowledged s)" by (auto simp: acknowledged_def ok True)
    then have card: "card (acknowledged ?s) = card (acknowledged s) + 1" using w(2) orders_bounds(1) [OF o(1)] by simp
    have "i32 (commitIndex (of_node s) + 1) = commitIndex (of_node s) + 1"
      using o(2) orders_bounds [OF o(1)] w assms(1) by (intro i32_id) (auto simp: counts_ok_def opened_def card_gt_0_iff)
    then have "counts_ok n cmds ?s ws" by (intro counts_finish [OF o(2) card]) (simp_all add: n1 True)
    moreover have "orders_ok W ?s ws" using o(1) w(1) by (auto simp: orders_ok_def)
    moreover have "store_ok_at ?s" using o(3) by (simp add: store_ok_at_def n1)
    ultimately show ?thesis by (simp add: office_ok_def)
  next
    case False
    have "kept (of_node s) n1" by (simp add: kept_def n1 False)
    moreover have "acknowledged ?s = acknowledged s"
      using assms(3) by (intro acknowledged_frame [where w = w and st = "Replied ok err"]) (simp_all add: ok False)
    ultimately show ?thesis using w(1)
      by (intro office_frame [OF assms(2), where w = w and st = "Replied ok err"]) simp_all
  qed
qed

text \<open>The operations that the commands have put into the log.\<close>

lemma appended_operations:
  assumes "counts_ok n cmds s ws"
  shows "map Operation (drop (length (log n)) (log (of_node s))) = map (\<lambda>w. fst (cmds w)) ws"
  using arg_cong [where f = "map fst", OF conjunct1 [OF conjunct2 [OF assms [unfolded counts_ok_def]]]]
  by (simp add: comp_def)

lemma office_take:
  assumes "opened W n cmds send" and "office_ok W n cmds s ws" and "of_step send get cmds Take s = Some (Inr s')"
  shows "office_ok W n cmds s' ws"
proof -
  have o: "orders_ok W s ws" "counts_ok n cmds s ws" "store_ok_at s" using assms(2) by (simp_all add: office_ok_def)
  let ?n = "of_node s" and ?N = "length (commits_of (effects n))" and ?la = "nat (lastApplied (of_node s) + 1)"
  have c: "commits_of (effects ?n) = commits_of (effects n) @ replicate (card (acknowledged s)) 1" "?N \<le> of_taken s"
      "lastApplied ?n = lastApplied n + int (of_taken s - ?N)" "kvstore_addr (Meta ?n) = kvstore_addr (Meta n)"
    using o(2) by (simp_all add: counts_ok_def)
  have t: "of_taken s < length (commits_of (effects ?n))"
    and ap: "go_bind (ApplyToStateMachine send (commits_of (effects ?n) ! of_taken s) ?n (of_server s)) (\<lambda>(n1, server).
             Inr (s\<lparr>of_node := n1, of_server := server, of_taken := of_taken s + 1\<rparr>)) = Inr s'"
    using assms(3) by (auto simp: Let_def split: if_splits)
  have t1: "of_taken s < ?N + card (acknowledged s)" using t by (simp add: c(1))
  have one: "commits_of (effects ?n) ! of_taken s = 1" using c(2) t1 by (simp add: c(1) nth_append)
  have len: "length (log ?n) = length (log n) + length ws" by (rule counts_length [OF o(2)])
  have la: "lastApplied ?n + 1 < int (length (log ?n))" "-1 \<le> lastApplied ?n" "int (length (log n)) \<le> lastApplied ?n + 1"
    using t1 c(2,3) orders_bounds [OF o(1)] len assms(1) by (auto simp: opened_def settled_def)
  have small: "small (log ?n)" using assms(1) len orders_bounds(3) [OF o(1)] by (simp add: opened_def small_def)
  have es: "take (nat 1) (drop ?la (log ?n)) = [log ?n ! ?la]"
    using la by (simp add: take_Suc hd_drop_conv_nth)
  have k: "?la - length (log n) < length ws" "length (log n) \<le> ?la" using la len by linarith+
  have "Operation (log ?n ! ?la) = map Operation (drop (length (log n)) (log ?n)) ! (?la - length (log n))"
    using k len by simp
  also have "\<dots> = fst (cmds (ws ! (?la - length (log n))))" unfolding appended_operations [OF o(2)] using k(1) by simp
  finally have op: "op_ok (Operation (log ?n ! ?la))"
    using nth_mem [OF k(1)] o(1) assms(1) by (auto simp: orders_ok_def opened_def)
  have tr: "http_transport send (kvstore_addr (Meta n))" using assms(1) by (simp add: opened_def)
  from http_transport.apply_sim [OF tr o(3) [unfolded store_ok_at_def] c(4) small la(2) _ la(1)] op obtain n2 s2 where
    a: "ApplyToStateMachine send 1 ?n (of_server s) = Inr (n2, s2)" "lastApplied n2 = lastApplied ?n + 1"
      "kv_rel (replay [log ?n ! ?la] (replay (take ?la (log ?n)) (\<lambda>_. None))) s2"
    unfolding es by auto
  note fr = ApplyToStateMachine_frame [OF a(1)]
  have s': "s' = s\<lparr>of_node := n2, of_server := s2, of_taken := of_taken s + 1\<rparr>" using ap by (simp add: one a(1))
  have eff: "commits_of (effects n2) = commits_of (effects ?n)"
    using a(1) by (auto simp: ApplyToStateMachine_def apply_done_def go_bind_eq_Inr split: prod.splits)
  have ack: "acknowledged s' = acknowledged s" by (simp add: acknowledged_def s')
  have "orders_ok W s' ws" using o(1) by (simp add: orders_ok_def s')
  moreover have "counts_ok n cmds s' ws"
    using o(2) t1 c(2) unfolding counts_ok_def ack by (simp add: s' fr a(2) eff of_nat_diff)
  moreover have "nat (lastApplied n2 + 1) = Suc ?la" using la(2) by (simp add: a(2))
  then have "store_ok_at s'"
    using a(3) la by (simp add: store_ok_at_def s' fr take_Suc_conv_app_nth nat_less_iff)
  ultimately show ?thesis by (simp add: office_ok_def)
qed

section \<open>All turns\<close>

fun within :: "nat \<Rightarrow> wturn \<Rightarrow> bool" where
  "within W (Pass w) = (w < W)"
| "within W (Check w) = (w < W)"
| "within W (Look w c) = (w < W)"
| "within W (Append w) = (w < W)"
| "within W (Round w c) = (w < W)"
| "within W (Finish w) = (w < W)"
| "within W Take = True"
| "within W (Consult key c) = True"

text \<open>A turn that changes the stage of one command and nothing that is counted.\<close>

lemma office_move:
  assumes "office_ok W n cmds s ws" and "kept (of_node s) n1" and "s' = s\<lparr>of_node := n1, of_peers := ps, of_stage := (of_stage s)(w := st)\<rparr>"
    and "\<forall>err. st \<noteq> Replied True err" and "early (of_stage s w) \<and> \<not> sent st \<or> (\<exists>m u. of_stage s w = Sending m u) \<and> sent st"
  shows "\<exists>ws. office_ok W n cmds s' ws"
proof -
  have o: "orders_ok W s ws" using assms(1) by (simp add: office_ok_def)
  have "\<forall>err. of_stage s w \<noteq> Replied True err" using assms(5) by auto
  then have ack: "acknowledged s' = acknowledged s"
    using assms(4) by (intro acknowledged_frame [where w = w and st = st]) (simp_all add: assms(3))
  have "sent st \<longrightarrow> w \<in> set ws" "w \<in> set ws \<longrightarrow> \<not> early st"
    using o assms(5) sent_not_early [of st] by (auto simp: orders_ok_def)
  then have "office_ok W n cmds s' ws"
    by (intro office_frame [OF assms(1,2) ack, where w = w and st = st]) (simp_all add: assms(3))
  then show ?thesis by blast
qed

lemma office_step:
  assumes "opened W n cmds send" and "office_ok W n cmds s ws" and "of_step send get cmds t s = Some (Inr s')" and "within W t"
  shows "\<exists>ws. office_ok W n cmds s' ws"
proof (cases t)
  case (Pass w)
  then show ?thesis using assms(3)
    by (intro office_move [OF assms(2) kept_refl, where w = w and st = Passed and ps = "of_peers s"]) (auto split: if_splits)
next
  case (Check w)
  then have st: "of_stage s w = Passed" using assms(3) by (auto split: wstage.splits)
  have move: "\<exists>ws. office_ok W n cmds s' ws"
    if "s' = s\<lparr>of_stage := (of_stage s)(w := st')\<rparr>" "\<not> sent st'" "\<forall>err. st' \<noteq> Replied True err" for st'
    using that st by (intro office_move [OF assms(2) kept_refl, where w = w and st = st' and ps = "of_peers s"]) auto
  obtain d where d: "WriteCommand_check (fst (cmds w)) (snd (cmds w)) (of_node s) = Inr d"
    using assms(3) by (auto simp: Check st go_bind_eq_Inr)
  show ?thesis
  proof (cases d)
    case (Refuse err)
    then show ?thesis using assms(3) by (intro move [of "Replied False (Some err)"]) (simp_all add: Check st d)
  next
    case (CheckExists key)
    then show ?thesis using assms(3) by (intro move [of "Looking key"]) (simp_all add: Check st d)
  next
    case Proceed
    then have "append_turn (cmds w) w s = Inr s'" using assms(3) by (simp add: Check st d)
    from office_append [OF assms(1,2) _ _ this] assms(4) st show ?thesis by (auto simp: Check)
  qed
next
  case (Look w c)
  then obtain key where st: "of_stage s w = Looking key" using assms(3) by (auto split: wstage.splits)
  from assms(3) obtain response n1 peers1 where r:
    "ReadCommand [] c (get (of_server s)) key (of_node s, of_peers s) = Inr (Some (response, n1, peers1))"
    by (auto simp: Look st split: sum.splits option.splits)
  let ?st = "case WriteCommand_exists (fst (cmds w) ! 0) response of Refuse err \<Rightarrow> Replied False (Some err) | _ \<Rightarrow> Cleared"
  show ?thesis using assms(3)
    by (intro office_move [OF assms(2) kept_ReadCommand [OF r], where w = w and ps = peers1 and st = ?st])
      (simp_all add: Look st r split: write_next.splits)
next
  case (Append w)
  then have "early (of_stage s w)" "append_turn (cmds w) w s = Inr s'" using assms(3) by (auto simp: Append split: wstage.splits)
  from office_append [OF assms(1,2) _ this] assms(4) show ?thesis by (auto simp: Append)
next
  case (Round w c)
  then obtain m u where st: "of_stage s w = Sending m u" using assms(3) by (auto split: wstage.splits)
  from assms(3) obtain r v vs where r: "LeaderSendAEs (fst c) (snd c) m u (of_node s, of_peers s) = Inr r" "verdicts r = v # vs"
    by (auto simp: Round st split: sum.splits list.splits)
  show ?thesis using assms(3)
    by (intro office_move [OF assms(2) kept_round [OF r(1)], where w = w and ps = "rd_peers r" and st = "Decided v"]) (simp_all add: Round st r)
next
  case (Finish w)
  then obtain b where st: "of_stage s w = Decided b" using assms(3) by (auto split: wstage.splits)
  then show ?thesis using office_finish [OF assms(1,2) st] assms(3) by (auto simp: Finish split: prod.splits)
next
  case Take
  then show ?thesis using office_take [OF assms(1,2)] assms(3) by blast
next
  case (Consult key c)
  from assms(3) obtain response n1 peers1 where r:
    "ReadCommand [] c (get (of_server s)) key (of_node s, of_peers s) = Inr (Some (response, n1, peers1))"
    by (auto simp: Consult split: sum.splits option.splits)
  have s': "s' = s\<lparr>of_node := n1, of_peers := peers1, of_reads := (key, response) # of_reads s\<rparr>"
    using assms(3) by (simp add: Consult r)
  have o: "orders_ok W s ws" "counts_ok n cmds s ws" "store_ok_at s" using assms(2) by (simp_all add: office_ok_def)
  have k: "kept (of_node s) n1" by (rule kept_ReadCommand [OF r])
  have ack: "acknowledged s' = acknowledged s" by (simp add: acknowledged_def s')
  have "orders_ok W s' ws" using o(1) by (simp add: orders_ok_def s')
  moreover have "counts_ok n cmds s' ws" using o(2) k unfolding counts_ok_def ack by (simp add: s' kept_def)
  moreover have "store_ok_at s'" using o(3) k unfolding store_ok_at_def kept_def by (simp add: s')
  ultimately have "office_ok W n cmds s' ws" by (simp add: office_ok_def)
  then show ?thesis by blast
qed

lemma office_run:
  assumes "opened W n cmds send" and "\<exists>ws. office_ok W n cmds s ws" and "of_run send get cmds ts s = Some (Inr s')"
    and "\<forall>t \<in> set ts. within W t"
  shows "\<exists>ws. office_ok W n cmds s' ws"
  using assms(2-4)
proof (induction ts arbitrary: s)
  case (Cons t ts)
  from Cons.prems(2) obtain s1 where s1: "of_step send get cmds t s = Some (Inr s1)" "of_run send get cmds ts s1 = Some (Inr s')"
    by (auto split: option.splits sum.splits)
  from Cons.prems(1) office_step [OF assms(1) _ s1(1)] Cons.prems(3) have "\<exists>ws. office_ok W n cmds s1 ws" by auto
  from Cons.IH [OF this s1(2)] Cons.prems(3) show ?case by simp
qed simp

lemma office_start:
  assumes "opened W n cmds send" and "kv_rel (replay (log n) (\<lambda>_. None)) server"
  shows "office_ok W n cmds (of_start n peers server) []"
proof -
  have "acknowledged (of_start n peers server) = {}" by (simp add: acknowledged_def of_start_def)
  then show ?thesis using assms
    by (auto simp: office_ok_def orders_ok_def counts_ok_def store_ok_at_def of_start_def opened_def settled_def)
qed

section \<open>Two writes at the same time\<close>

text \<open>Both commands append before the round of the second.\<close>

lemma two_appends:
  assumes "leading N i n" and "int (length (log n)) + 2 < 2147483648" and "peers_follow N i n peers"
    and "\<forall>j < N. j \<noteq> i \<longrightarrow> fresh_term n (peers j)"
  shows "leading N i (appended op2 client2 (appended op1 client1 n))"
    "\<forall>j < N. j \<noteq> i \<longrightarrow> follows (appended op2 client2 (appended op1 client1 n)) (peers j)"
proof -
  let ?n1 = "appended op1 client1 n"
  have len: "int (length (log n)) + 1 < 2147483648" "int (length (log ?n1)) + 1 < 2147483648" using assms(2) by simp_all
  show "leading N i (appended op2 client2 ?n1)" by (intro appended_leading assms(1) len)
  have f: "peers_follow N i ?n1 peers" by (rule appended_follow [OF assms(3,4)])
  have "fresh_term ?n1 (peers j)" if "j < N" "j \<noteq> i" for j
    using assms(4) that set_drop_subset_set_drop [of "length (log n)" "Suc (length (log n))" "log (peers j)"]
    by (fastforce simp: fresh_term_def)
  then have "peers_follow N i (appended op2 client2 ?n1) peers" by (intro appended_follow [OF f]) blast
  then show "\<forall>j < N. j \<noteq> i \<longrightarrow> follows (appended op2 client2 ?n1) (peers j)" by (simp add: peers_follow_def)
qed

lemma append_turn_leading:
  assumes "leading N i n" and "log n \<noteq> []" and "int (length (log n)) + 1 < 2147483648" and "of_node s = n"
  shows "append_turn cmd w s = Inr (s\<lparr>of_node := appended (fst cmd) (snd cmd) n,
     of_stage := (of_stage s)(w := Sending (header_msg (n\<lparr>Meta := (Meta n)\<lparr>latestClient := snd cmd\<rparr>\<rparr>)) (int (length (log n))))\<rparr>)"
  using WriteCommand_append_eq [OF assms(2), of "fst cmd" "snd cmd"] assms(3)
  by (simp add: append_turn_def assms(4) appended_def written_def i32_id)

text \<open>The round of the second write with a majority, its result, and the turn of the apply loop that follows.\<close>

lemma second_write_ends:
  assumes "leading N i n2" and "i < N" and "2 \<le> N" and "N < 2147483647" and "headed n2 m"
    and "permuting (fst c)" and "N < 2 * card (responders N i n2 (snd c))" and "\<forall>j < N. j \<noteq> i \<longrightarrow> follows n2 (peers j)"
    and "log n2 = l @ [e1, e2]" and "commitIndex n2 + 1 = int (length l)" and "lastApplied n2 = commitIndex n2"
    and "http_transport send (kvstore_addr (Meta n2))" and "op_ok (Operation e1)" and "kv_rel (replay l (\<lambda>_. None)) kv"
  shows "\<exists>r n5 kv5. LeaderSendAEs (fst c) (snd c) m (int (length l) + 1) (n2, peers) = Inr r \<and> verdicts r = [True] \<and>
     leader_frame n2 (rd_leader r) \<and>
     ApplyToStateMachine send 1 (snd (WriteCommand_finish True operation client (rd_leader r))) kv = Inr (n5, kv5) \<and>
     leading N i n5 \<and> settled n5 \<and> peers_follow N i n5 (rd_peers r) \<and> length (log n5) = length l + 2 \<and>
     kv_rel (spec_op (Operation e1) (replay l (\<lambda>_. None))) kv5"
proof -
  have u: "int (length l) + 1 = int (length (log n2)) - 1" by (simp add: assms(9))
  from LeaderSendAEs_follow [OF assms(1-5) u assms(6,8), of "snd c"] assms(7) obtain r where
    r: "LeaderSendAEs (fst c) (snd c) m (int (length l) + 1) (n2, peers) = Inr r" "leading N i (rd_leader r)"
      "leader_frame n2 (rd_leader r)" "\<forall>j < N. j \<noteq> i \<longrightarrow> moved n2 (peers j) (rd_peers r j)" "verdicts r = [True]"
    by auto
  note fr = leader_frame_fields [OF r(3)]
  let ?n4 = "snd (WriteCommand_finish True operation client (rd_leader r))"
  have "commitIndex (rd_leader r) + 1 < int (length (log (rd_leader r)))" using assms(10) by (simp add: fr assms(9))
  note fl = finish_leading [OF r(2) this, of operation client]
  have c: "commitIndex ?n4 = int (length l)" using assms(10) unfolding fl(2) by (simp add: fr)
  have ps: "http_transport send (kvstore_addr (Meta ?n4))" "commitIndex ?n4 = lastApplied ?n4 + 1" "-1 \<le> lastApplied ?n4"
      "op_ok (Operation (log ?n4 ! nat (commitIndex ?n4)))"
      "kv_rel (replay (take (nat (commitIndex ?n4)) (log ?n4)) (\<lambda>_. None)) kv"
    unfolding c using assms(10-14) by (simp_all add: fr assms(9))
  from leader_applies_next [OF ps(1) fl(1) ps(2-5)] obtain n5 kv5 where
    a: "ApplyToStateMachine send 1 ?n4 kv = Inr (n5, kv5)" "leading N i n5" "settled n5" "log n5 = log ?n4"
      "currentTerm n5 = currentTerm ?n4" "kv_rel (replay (take (nat (int (length l) + 1)) (log ?n4)) (\<lambda>_. None)) kv5"
    unfolding c by blast
  have "kv_rel (spec_op (Operation e1) (replay l (\<lambda>_. None))) kv5"
    using a(6) by (simp add: fr assms(9) nat_add_distrib)
  moreover have "follows n5 (rd_peers r j)" if "j < N" "j \<noteq> i" for j
    using r(4) that by (auto simp: moved_def follows_def a(4,5) fr)
  ultimately show ?thesis using r(1,3,5) a(1-4)
    by (intro exI [of _ r] exI [of _ n5] exI [of _ kv5]) (simp add: peers_follow_def fr assms(9))
qed

lemma of_run_step:
  "of_step send get cmds t s = Some (Inr s1) \<Longrightarrow> of_run send get cmds (t # ts) s = of_run send get cmds ts s1"
  by simp

definition second_first :: "string \<Rightarrow> circumstances \<Rightarrow> circumstances \<Rightarrow> wturn list" where
  "second_first key c rc = [Pass 0, Pass 1, Check 0, Check 1, Round 1 c, Finish 1, Take, Consult key rc]"

lemma second_first_turns:
  assumes "settled n" and "leading N i n" and "int (length (log n)) + 2 < 2147483648"
    and "cmds 0 = (''POST'' # args1, client1)" and "cmds 1 = (''POST'' # args2, client2)"
    and "trackMessage n client1 \<noteq> Some (''POST'' # args1)" and "trackMessage n client2 \<noteq> Some (''POST'' # args2)"
    and "n1 = appended (''POST'' # args1) client1 n" and "n2 = appended (''POST'' # args2) client2 n1"
    and "LeaderSendAEs (fst c) (snd c) (header_msg (n1\<lparr>Meta := (Meta n1)\<lparr>latestClient := client2\<rparr>\<rparr>))
           (int (length (log n)) + 1) (n2, peers) = Inr r" and "verdicts r = [True]" and "leader_frame n2 (rd_leader r)"
    and "ApplyToStateMachine send 1 (snd (WriteCommand_finish True (''POST'' # args2) client2 (rd_leader r))) kv = Inr (n5, kv5)"
    and "ReadCommand [] rc (get kv5) key (n5, rd_peers r) = Inr (Some (response, n6, peers6))"
  shows "\<exists>s. of_run send get cmds (second_first key c rc) (of_start n peers kv) = Some (Inr s) \<and>
     of_stage s 1 = Replied True None \<and> of_reads s = [(key, response)]"
proof -
  have ne: "log n \<noteq> []" "log n1 \<noteq> []" "state n = Leader" "state n1 = Leader" "\<not> WriteCommand_waits n"
    using assms(1,2,8) by (simp_all add: settled_def leading_def WriteCommand_waits_def)
  have len: "int (length (log n)) + 1 < 2147483648" "int (length (log n1)) + 1 < 2147483648" using assms(3,8) by simp_all
  have lead1: "leading N i n1" unfolding assms(8) by (rule appended_leading [OF assms(2) len(1)])
  have ck: "WriteCommand_check (''POST'' # args1) client1 n = Inr Proceed" "WriteCommand_check (''POST'' # args2) client2 n1 = Inr Proceed"
    using assms(6,7) ne(3,4) by (simp_all add: WriteCommand_check_post assms(8))
  have l1: "int (length (log n1)) = int (length (log n)) + 1" by (simp add: assms(8))
  have cmd1: "cmds (Suc 0) = (''POST'' # args2, client2)" using assms(5) by simp
  obtain n4 where fin: "WriteCommand_finish True (''POST'' # args2) client2 (rd_leader r) = ((True, None), n4)"
    by (simp add: WriteCommand_finish_def Let_def)
  have "commits_of (effects (snd (WriteCommand_finish True (''POST'' # args2) client2 (rd_leader r)))) = commits_of (effects n) @ [1]"
    using leader_frame_fields [OF assms(12)] by (simp add: assms(8,9))
  then have nums: "commits_of (effects n4) = commits_of (effects n) @ [1]" by (simp add: fin)
  show ?thesis
    using assms(10,11,13,14)
    by (simp add: fin second_first_def of_start_def assms(4) cmd1 ne(5) ck append_turn_leading [OF assms(2) ne(1) len(1)]
      append_turn_leading [OF lead1 ne(2) len(2)] l1 nums nth_append flip: assms(8,9))
qed

lemma second_first_serves:
  assumes "serving N i send (n, peers, kv) sp" and "i < N" and "2 \<le> N" and "N < 2147483647"
    and "reaching N i K c" and "reaching N i K rc" and "length (log n) + 3 \<le> K" and "K < 2147483647"
    and "cmds 0 = ([''POST'', k1, v1], client1)" and "cmds 1 = ([''POST'', k2, v2], client2)"
    and "url_ok k1 \<and> v1 \<noteq> ''Invalid''" and "k1 \<noteq> k2" and "readable k2" and "sp_map sp k2 = None"
    and "sp_last sp client1 \<noteq> Some [''POST'', k1, v1]" and "sp_last sp client2 \<noteq> Some [''POST'', k2, v2]"
  shows "\<exists>s. of_run send kv_http_get cmds (second_first k2 c rc) (of_start n peers kv) = Some (Inr s) \<and>
     of_stage s 1 = Replied True None \<and> of_reads s = [(k2, Inr (''Invalid key value pair'' @ newline))]"
proof -
  have inv: "leading N i n" "settled n" "commitIndex n + 1 = int (length (log n))" "peers_follow N i n peers"
      "\<forall>j < N. j \<noteq> i \<longrightarrow> fresh_term n (peers j)" "http_transport send (kvstore_addr (Meta n))"
      "kv_rel (replay (log n) (\<lambda>_. None)) kv" "replay (log n) (\<lambda>_. None) = sp_map sp" "trackMessage n = sp_last sp"
    using assms(1) by (simp_all add: serving_def)
  let ?op1 = "[''POST'', k1, v1]" and ?op2 = "[''POST'', k2, v2]" and ?start = "of_start n peers kv"
  let ?n1 = "appended ?op1 client1 n"
  let ?n2 = "appended ?op2 client2 ?n1"
  let ?m = "header_msg (?n1\<lparr>Meta := (Meta ?n1)\<lparr>latestClient := client2\<rparr>\<rparr>)"
  have ne: "log n \<noteq> []" "log ?n1 \<noteq> []" using inv(2) by (simp_all add: settled_def)
  have len: "int (length (log n)) + 2 < 2147483648" using assms(7,8) by linarith
  have len1: "int (length (log n)) + 1 < 2147483648" "int (length (log ?n1)) + 1 < 2147483648" using len by simp_all
  note two = two_appends [OF inv(1) len inv(4,5), where ?op1.0 = ?op1 and ?client1.0 = client1 and ?op2.0 = ?op2 and ?client2.0 = client2]
  have lead1: "leading N i ?n1" by (rule appended_leading [OF inv(1) len1(1)])
  have k: "length (log ?n2) + 1 \<le> K" using assms(7) by simp
  note rr = reaching_responders [OF assms(5) k]
  have m: "headed ?n2 ?m" by (simp add: headed_def header_msg_def)
  have logs: "log ?n2 = log n @ [written ?op1 client1 n, written ?op2 client2 ?n1]" by simp
  have "op_ok ?op1" using assms(11) by (simp add: op_ok_def)
  then have p: "commitIndex ?n2 + 1 = int (length (log n))" "lastApplied ?n2 = commitIndex ?n2"
      "http_transport send (kvstore_addr (Meta ?n2))" "op_ok (Operation (written ?op1 client1 n))"
    using inv(2,3,6) by (simp_all add: settled_def written_def appended_def)
  from second_write_ends [OF two(1) assms(2-4) m rr two(2) logs p inv(7), of ?op2 client2] obtain r n5 kv5 where
    r: "LeaderSendAEs (fst c) (snd c) ?m (int (length (log n)) + 1) (?n2, peers) = Inr r" "verdicts r = [True]"
      "leader_frame ?n2 (rd_leader r)"
      "ApplyToStateMachine send 1 (snd (WriteCommand_finish True ?op2 client2 (rd_leader r))) kv = Inr (n5, kv5)"
      "leading N i n5" "settled n5" "peers_follow N i n5 (rd_peers r)" "length (log n5) = length (log n) + 2"
      "kv_rel (spec_op (Operation (written ?op1 client1 n)) (replay (log n) (\<lambda>_. None))) kv5" by blast
  have st: "state n5 = Leader" using r(5) by (simp add: leading_def)
  have k5: "length (log n5) + 1 \<le> K" using r(8) assms(7) by simp
  note r5 = reaching_responders [OF assms(6) k5]
  from ReadCommand_settled [OF r(5) assms(2-4) r(6) r5(1) r(7), of "[]" "kv_http_get kv5" k2] r5(2) obtain n6 peers6 where
    rd: "ReadCommand [] rc (kv_http_get kv5) k2 (n5, rd_peers r) = Inr (Some (ReadCommand_finish True (kv_http_get kv5) k2 n5, n6, peers6))"
    by auto
  have "spec_op (Operation (written ?op1 client1 n)) (replay (log n) (\<lambda>_. None)) k2 = None"
    using assms(12,14) by (simp add: written_def inv(8))
  then have "ReadCommand_finish True (kv_http_get kv5) k2 n5 = Inr (''Invalid key value pair'' @ newline)"
    using kv_http_get_contents [OF r(9) assms(13)] st by (simp add: ReadCommand_finish_def contents_def newline_def nl_def)
  with second_first_turns [where get = kv_http_get and cmds = cmds, OF inv(2,1) len assms(9,10) _ _ refl refl r(1-4) rd]
  show ?thesis using assms(15,16) inv(9) by simp
qed

text \<open>
  Two requests with the same operation of the same client, the second while the first is under
  way: the check for repetitions compares with the operations that have been acknowledged, so both
  are appended.
\<close>

lemma repetition_appended_twice:
  assumes "settled n" and "leading N i n" and "int (length (log n)) + 2 < 2147483648"
    and "cmds 0 = (''POST'' # args, client)" and "cmds 1 = (''POST'' # args, client)"
    and "trackMessage n client \<noteq> Some (''POST'' # args)"
  shows "\<exists>s. of_run send get cmds [Pass 0, Pass 1, Check 0, Check 1] (of_start n peers kv) = Some (Inr s) \<and>
     map Operation (log (of_node s)) = map Operation (log n) @ [''POST'' # args, ''POST'' # args]"
proof -
  let ?n1 = "appended (''POST'' # args) client n"
  have ne: "log n \<noteq> []" "log ?n1 \<noteq> []" "state n = Leader" "state ?n1 = Leader" "\<not> WriteCommand_waits n"
    using assms(1,2) by (simp_all add: settled_def leading_def WriteCommand_waits_def)
  have len: "int (length (log n)) + 1 < 2147483648" "int (length (log ?n1)) + 1 < 2147483648" using assms(3) by simp_all
  have lead1: "leading N i ?n1" by (rule appended_leading [OF assms(2) len(1)])
  have ck: "WriteCommand_check (''POST'' # args) client n = Inr Proceed" "WriteCommand_check (''POST'' # args) client ?n1 = Inr Proceed"
    using assms(6) ne(3,4) by (simp_all add: WriteCommand_check_post)
  have cmd1: "cmds (Suc 0) = (''POST'' # args, client)" using assms(5) by simp
  show ?thesis
    by (simp add: of_start_def assms(4) cmd1 ne(5) ck append_turn_leading [OF assms(2) ne(1) len(1)]
      append_turn_leading [OF lead1 ne(2) len(2)] written_def)
qed

lemma office_result:
  assumes "opened W n cmds send" and "office_ok W n cmds s ws"
  shows "acknowledged s \<subseteq> set ws"
    "int (length (log (of_node s))) - 1 - commitIndex (of_node s) = int (card (set ws - acknowledged s))"
    "commitIndex n \<le> lastApplied (of_node s)" "lastApplied (of_node s) \<le> commitIndex (of_node s)"
    "kv_rel (fold (\<lambda>w. spec_op (fst (cmds w))) (take (nat (lastApplied (of_node s) - commitIndex n)) ws) (replay (log n) (\<lambda>_. None)))
       (of_server s)"
proof -
  have o: "orders_ok W s ws" "counts_ok n cmds s ws" "store_ok_at s" using assms(2) by (simp_all add: office_ok_def)
  have n: "lastApplied n = commitIndex n" "commitIndex n + 1 = int (length (log n))"
    using assms(1) by (simp_all add: opened_def settled_def)
  show sub: "acknowledged s \<subseteq> set ws" by (rule acknowledged_sent [OF o(1)])
  have c: "commitIndex (of_node s) = commitIndex n + int (card (acknowledged s))"
      "of_taken s \<le> length (commits_of (effects n)) + card (acknowledged s)"
      "lastApplied (of_node s) = lastApplied n + int (of_taken s - length (commits_of (effects n)))"
      "take (length (log n)) (log (of_node s)) = log n"
    using o(2) by (simp_all add: counts_ok_def)
  have "card (set ws) = length ws" using o(1) by (simp add: orders_ok_def distinct_card)
  moreover have "card (acknowledged s) + card (set ws - acknowledged s) = card (set ws)"
    using card_Diff_subset [OF orders_bounds(1) [OF o(1)] sub] card_mono [OF _ sub] by simp
  ultimately show "int (length (log (of_node s))) - 1 - commitIndex (of_node s) = int (card (set ws - acknowledged s))"
    using counts_length [OF o(2)] c(1) n(2) by linarith
  show ge: "commitIndex n \<le> lastApplied (of_node s)" using c(3) n(1) by simp
  show "lastApplied (of_node s) \<le> commitIndex (of_node s)" using c(1-3) n(1) by simp
  let ?k = "nat (lastApplied (of_node s) - commitIndex n)" and ?new = "drop (length (log n)) (log (of_node s))"
  have "nat (lastApplied (of_node s) + 1) = length (log n) + ?k" using n(2) ge by simp
  then have "take (nat (lastApplied (of_node s) + 1)) (log (of_node s)) = log n @ take ?k ?new"
    using c(4) by (simp add: take_add)
  moreover have "fold spec_op (map Operation (take ?k ?new)) m = fold spec_op (map (\<lambda>w. fst (cmds w)) (take ?k ws)) m" for m
    using appended_operations [OF o(2)] by (simp flip: take_map)
  ultimately show "kv_rel (fold (\<lambda>w. spec_op (fst (cmds w))) (take ?k ws) (replay (log n) (\<lambda>_. None))) (of_server s)"
    using o(3) by (simp add: store_ok_at_def replay_def fold_map comp_def)
qed

section \<open>Properties\<close>

text \<open>
  C5: however the commands of several clients, reads and the apply loop are interleaved at one
  replica, with rounds as single turns of any outcome, log, commit index and store stay in
  balance. At the start the replica has committed and applied its whole log; the operations are
  those of the HTTP handlers, with keys that URL parsing and routing keep and values other than
  \<open>Invalid\<close>, and the transport behaves as \<open>http_transport\<close> says. Then
  the node's log is the old one followed by the commands that have appended, each once and in
  the order of their appends; the commit index has moved by the number of acknowledged writes,
  so that it stays behind the end of the log by the number of writes that are pending or have
  failed; the apply loop is between the old and the new commit index, and the key-value server
  holds the first appended operations, as many as the loop has applied, whether or not these are
  the acknowledged ones.
\<close>

theorem writers_conserve:
  assumes "opened W n cmds send" and "kv_rel (replay (log n) (\<lambda>_. None)) server"
    and "of_run send get cmds ts (of_start n peers server) = Some (Inr s)" and "\<forall>t \<in> set ts. within W t"
  shows "\<exists>ws. distinct ws \<and> set ws \<subseteq> {..<W} \<and> acknowledged s \<subseteq> set ws \<and>
     take (length (log n)) (log (of_node s)) = log n \<and>
     map (\<lambda>e. (Operation e, Clientid e)) (drop (length (log n)) (log (of_node s))) = map cmds ws \<and>
     commitIndex (of_node s) = commitIndex n + int (card (acknowledged s)) \<and>
     int (length (log (of_node s))) - 1 - commitIndex (of_node s) = int (card (set ws - acknowledged s)) \<and>
     commitIndex n \<le> lastApplied (of_node s) \<and> lastApplied (of_node s) \<le> commitIndex (of_node s) \<and>
     kv_rel (fold (\<lambda>w. spec_op (fst (cmds w))) (take (nat (lastApplied (of_node s) - commitIndex n)) ws) (replay (log n) (\<lambda>_. None)))
       (of_server s)"
proof -
  have "\<exists>ws. office_ok W n cmds (of_start n peers server) ws" using office_start [OF assms(1,2)] by blast
  from office_run [OF assms(1) this assms(3,4)] obtain ws where ok: "office_ok W n cmds s ws" ..
  then have "orders_ok W s ws" "counts_ok n cmds s ws" by (simp_all add: office_ok_def)
  with office_result [OF assms(1) ok] show ?thesis by (intro exI [of _ ws]) (simp add: orders_ok_def counts_ok_def)
qed

definition demo_posts :: "nat \<Rightarrow> write_cmd" where
  "demo_posts w = (if w = 0 then ([''POST'', ''a'', ''1''], ''c'') else ([''POST'', ''b'', ''2''], ''d''))"

lemma demo_posts_simps [simp]:
  "demo_posts 0 = ([''POST'', ''a'', ''1''], ''c'')" "demo_posts 1 = ([''POST'', ''b'', ''2''], ''d'')"
  by (simp_all add: demo_posts_def)

lemma demo_opened: "opened 2 demo_settled demo_posts (loopback '':3000'')"
  using demo_settled_leading
  by (simp add: opened_def lo.http_transport_axioms op_ok_def demo_posts_def)

lemma demo_second_first:
  "\<exists>s. of_run (loopback '':3000'') kv_http_get demo_posts (second_first ''b'' demo_reach demo_reach)
          (of_start demo_settled demo_peers demo_kv) = Some (Inr s) \<and>
     of_stage s 1 = Replied True None \<and> of_reads s = [(''b'', Inr (''Invalid key value pair'' @ newline))]"
  by (rule second_first_serves [OF demo_serving _ _ _ demo_reaching demo_reaching _ _ demo_posts_simps])
     (simp_all add: demo_spec_def)

theorem writers_conserve_witness:
  "\<exists>s ws. of_run (loopback '':3000'') kv_http_get demo_posts (second_first ''b'' demo_reach demo_reach)
          (of_start demo_settled demo_peers demo_kv) = Some (Inr s) \<and> of_stage s 1 = Replied True None \<and>
     map (\<lambda>e. (Operation e, Clientid e)) (drop 2 (log (of_node s))) = map demo_posts ws \<and>
     commitIndex (of_node s) = 1 + int (card (acknowledged s)) \<and>
     int (length (log (of_node s))) - 1 - commitIndex (of_node s) = int (card (set ws - acknowledged s))"
proof -
  obtain s where s: "of_run (loopback '':3000'') kv_http_get demo_posts (second_first ''b'' demo_reach demo_reach)
      (of_start demo_settled demo_peers demo_kv) = Some (Inr s)" "of_stage s 1 = Replied True None"
    using demo_second_first by blast
  have kv: "kv_rel (replay (log demo_settled) (\<lambda>_. None)) demo_kv"
    using demo_serving by (simp add: serving_def)
  have "\<forall>t \<in> set (second_first ''b'' demo_reach demo_reach). within 2 t" by (simp add: second_first_def)
  from writers_conserve [OF demo_opened kv s(1) this] obtain ws where
    "map (\<lambda>e. (Operation e, Clientid e)) (drop (length (log demo_settled)) (log (of_node s))) = map demo_posts ws"
    "commitIndex (of_node s) = commitIndex demo_settled + int (card (acknowledged s))"
    "int (length (log (of_node s))) - 1 - commitIndex (of_node s) = int (card (set ws - acknowledged s))" by blast
  with s show ?thesis by (intro exI [of _ s] exI [of _ ws]) (simp add: numeral_2_eq_2)
qed

text \<open>
  C12: a read misses an acknowledged write although nothing fails: at a leader that has committed and
  applied its log, with a majority that answers every round, two clients post new values under
  different keys; the second is acknowledged while the first still waits for its round; a read of
  the second key after that is confirmed by a majority and answers that the key has no value,
  because the step of the commit index that the second write has caused stands for the entry of
  the first.
\<close>

theorem acknowledged_write_not_read:
  assumes "serving N i send (n, peers, kv) sp" and "i < N" and "2 \<le> N" and "N < 2147483647"
    and "reaching N i K c" and "reaching N i K rc" and "length (log n) + 3 \<le> K" and "K < 2147483647"
    and "cmds 0 = ([''POST'', k1, v1], client1)" and "cmds 1 = ([''POST'', k2, v2], client2)"
    and "url_ok k1 \<and> v1 \<noteq> ''Invalid''" and "k1 \<noteq> k2" and "readable k2" and "sp_map sp k2 = None"
    and "sp_last sp client1 \<noteq> Some [''POST'', k1, v1]" and "sp_last sp client2 \<noteq> Some [''POST'', k2, v2]"
  shows "\<exists>s. of_run send kv_http_get cmds
       [Pass 0, Pass 1, Check 0, Check 1, Round 1 c, Finish 1, Take, Consult k2 rc] (of_start n peers kv) = Some (Inr s) \<and>
     of_stage s 1 = Replied True None \<and> of_reads s = [(k2, Inr (''Invalid key value pair'' @ newline))]"
  using second_first_serves [OF assms] by (simp add: second_first_def)

theorem acknowledged_write_not_read_witness:
  "\<exists>s. of_run (loopback '':3000'') kv_http_get demo_posts
       [Pass 0, Pass 1, Check 0, Check 1, Round 1 demo_reach, Finish 1, Take, Consult ''b'' demo_reach]
       (of_start demo_settled demo_peers demo_kv) = Some (Inr s) \<and>
     of_stage s 1 = Replied True None \<and> of_reads s = [(''b'', Inr (''Invalid key value pair'' @ newline))]"
  by (rule acknowledged_write_not_read [OF demo_serving _ _ _ demo_reaching demo_reaching _ _ demo_posts_simps])
     (simp_all add: demo_spec_def)

end
