(* ===== verification/Election_Protocol.thy ===== *)
theory Election_Protocol
  imports Raft_Types
begin

text \<open>
  The abstract specification of leader election: what the replicas of a cluster promise about
  terms, votes and roles, without messages, goroutines, logs or files.  Each replica has a term,
  a vote and a role; the history records who granted whom a vote in which term (\<open>aG\<close>) and who
  won which term with which supporters (\<open>aW\<close>).  A replica may vote again in a term after it has
  given up its own candidacy in that term, because the code clears the vote there.
  The locale \<open>voting\<close> states what is needed of majorities; the invariant and election safety
  are proved in it once, and \<open>maj\<close> interprets it on the vote count of the code.
\<close>

section \<open>The abstract state and its steps\<close>

record vstate =
  aT :: "nat \<Rightarrow> int"
  aV :: "nat \<Rightarrow> int"
  aS :: "nat \<Rightarrow> RaftNodeState"
  aG :: "(nat \<times> int \<times> nat) set"
  aW :: "(int \<times> nat) set"

inductive vstep :: "(nat set \<Rightarrow> bool) \<Rightarrow> nat \<Rightarrow> vstate \<Rightarrow> vstate \<Rightarrow> bool"
  for quorum :: "nat set \<Rightarrow> bool" and N :: nat where
  v_down: "x < N \<Longrightarrow> aT a x < t \<Longrightarrow>
     vstep quorum N a (a\<lparr>aT := (aT a)(x := t), aV := (aV a)(x := -1), aS := (aS a)(x := Follower)\<rparr>)"
| v_yield: "x < N \<Longrightarrow> aS a x = Candidate \<Longrightarrow>
     vstep quorum N a (a\<lparr>aV := (aV a)(x := -1), aS := (aS a)(x := Follower)\<rparr>)"
| v_timeout: "x < N \<Longrightarrow>
     vstep quorum N a (a\<lparr>aT := (aT a)(x := aT a x + 1), aV := (aV a)(x := int x),
                         aS := (aS a)(x := Candidate)\<rparr>)"
| v_restart: "x < N \<Longrightarrow> vstep quorum N a (a\<lparr>aS := (aS a)(x := Follower)\<rparr>)"
| v_grant: "x < N \<Longrightarrow> c < N \<Longrightarrow> x \<noteq> c \<Longrightarrow> aT a x \<le> aT a c \<Longrightarrow> aV a x = -1 \<or> aV a x = int c \<Longrightarrow>
     vstep quorum N a (a\<lparr>aV := (aV a)(x := int c), aG := insert (x, aT a x, c) (aG a)\<rparr>)"
| v_win: "x < N \<Longrightarrow> aS a x = Candidate \<Longrightarrow> Q \<subseteq> {p. (p, aT a x, x) \<in> aG a} \<Longrightarrow> quorum (insert x Q) \<Longrightarrow>
     vstep quorum N a (a\<lparr>aS := (aS a)(x := Leader), aW := insert (aT a x, x) (aW a)\<rparr>)"

definition vinit :: vstate where
  "vinit = \<lparr>aT = (\<lambda>_. 0), aV = (\<lambda>_. -1), aS = (\<lambda>_. Follower), aG = {}, aW = {}\<rparr>"

section \<open>The invariant\<close>

text \<open>A candidate or leader has voted for itself.\<close>

definition self_voted :: "nat \<Rightarrow> vstate \<Rightarrow> bool" where
  "self_voted N a \<longleftrightarrow> (\<forall>x < N. aS a x = Candidate \<or> aS a x = Leader \<longrightarrow> aV a x = int x)"

text \<open>A grant is of a past or the current term of both sides, and in the voter's current term
  it is the voter's vote.\<close>

definition grants_ok :: "nat \<Rightarrow> vstate \<Rightarrow> bool" where
  "grants_ok N a \<longleftrightarrow>
     (\<forall>x t c. (x, t, c) \<in> aG a \<longrightarrow>
        x < N \<and> c < N \<and> x \<noteq> c \<and> t \<le> aT a x \<and> t \<le> aT a c \<and> (t = aT a x \<longrightarrow> aV a x = int c))"

definition grants_unique :: "vstate \<Rightarrow> bool" where
  "grants_unique a \<longleftrightarrow> (\<forall>x t c c'. (x, t, c) \<in> aG a \<longrightarrow> (x, t, c') \<in> aG a \<longrightarrow> c = c')"

text \<open>A vote for another replica was granted in the voter's current term.\<close>

definition votes_ok :: "nat \<Rightarrow> vstate \<Rightarrow> bool" where
  "votes_ok N a \<longleftrightarrow>
     (\<forall>x < N. aV a x = -1 \<or> aV a x = int x \<or> (\<exists>c < N. aV a x = int c \<and> (x, aT a x, c) \<in> aG a))"

text \<open>A winner granted nobody else its vote in that term, and keeps its own vote.\<close>

definition winners_ok :: "nat \<Rightarrow> vstate \<Rightarrow> bool" where
  "winners_ok N a \<longleftrightarrow>
     (\<forall>t l. (t, l) \<in> aW a \<longrightarrow>
        l < N \<and> t \<le> aT a l \<and> (t = aT a l \<longrightarrow> aV a l = int l \<and> aS a l \<noteq> Candidate) \<and>
        (\<forall>c. (l, t, c) \<notin> aG a))"

definition elected :: "(nat set \<Rightarrow> bool) \<Rightarrow> vstate \<Rightarrow> bool" where
  "elected quorum a \<longleftrightarrow>
     (\<forall>t l. (t, l) \<in> aW a \<longrightarrow> (\<exists>Q. Q \<subseteq> {p. (p, t, l) \<in> aG a} \<and> quorum (insert l Q)))"

definition leaders_won :: "nat \<Rightarrow> vstate \<Rightarrow> bool" where
  "leaders_won N a \<longleftrightarrow> (\<forall>x < N. aS a x = Leader \<longrightarrow> (aT a x, x) \<in> aW a)"

definition vinv :: "(nat set \<Rightarrow> bool) \<Rightarrow> nat \<Rightarrow> vstate \<Rightarrow> bool" where
  "vinv quorum N a \<longleftrightarrow> self_voted N a \<and> grants_ok N a \<and> grants_unique a \<and> votes_ok N a \<and>
     winners_ok N a \<and> elected quorum a \<and> leaders_won N a"

lemmas vinv_defs = vinv_def self_voted_def grants_ok_def grants_unique_def votes_ok_def
  winners_ok_def elected_def leaders_won_def

lemma vinv_init: "vinv quorum N vinit"
  by (simp add: vinv_defs vinit_def)

lemma vstep_self_voted: "vstep quorum N a b \<Longrightarrow> self_voted N a \<Longrightarrow> self_voted N b"
  by (induction rule: vstep.induct) (auto simp: self_voted_def)

lemma vstep_grants_ok:
  "vstep quorum N a b \<Longrightarrow> self_voted N a \<Longrightarrow> grants_ok N a \<Longrightarrow> grants_ok N b"
  by (induction rule: vstep.induct) (fastforce simp: self_voted_def grants_ok_def)+

lemma vstep_grants_unique:
  "vstep quorum N a b \<Longrightarrow> grants_ok N a \<Longrightarrow> grants_unique a \<Longrightarrow> grants_unique b"
  by (induction rule: vstep.induct) (fastforce simp: grants_ok_def grants_unique_def)+

lemma vstep_votes_ok: "vstep quorum N a b \<Longrightarrow> votes_ok N a \<Longrightarrow> votes_ok N b"
  by (induction rule: vstep.induct) (fastforce simp: votes_ok_def)+

lemma vstep_leaders_won: "vstep quorum N a b \<Longrightarrow> leaders_won N a \<Longrightarrow> leaders_won N b"
  by (induction rule: vstep.induct) (auto simp: leaders_won_def)

lemma vstep_winners_ok:
  "vstep quorum N a b \<Longrightarrow> self_voted N a \<Longrightarrow> grants_ok N a \<Longrightarrow> winners_ok N a \<Longrightarrow> winners_ok N b"
proof (induction rule: vstep.induct)
  case (v_win x a Q)
  have "\<not> (x, aT a x, c) \<in> aG a" for c
    using v_win by (force simp: self_voted_def grants_ok_def)
  with v_win show ?case by (auto simp: winners_ok_def self_voted_def)
next
  case (v_grant x c a)
  show ?case unfolding winners_ok_def
  proof (intro allI impI)
    fix t l
    assume "(t, l) \<in> aW (a\<lparr>aV := (aV a)(x := int c), aG := insert (x, aT a x, c) (aG a)\<rparr>)"
    then have w: "(t, l) \<in> aW a" by simp
    with v_grant have f: "l < N" "t \<le> aT a l" "t = aT a l \<Longrightarrow> aV a l = int l \<and> aS a l \<noteq> Candidate"
      "\<And>d. (l, t, d) \<notin> aG a" by (auto simp: winners_ok_def)
    have "\<not> (l = x \<and> t = aT a x)" using f(3) v_grant by auto
    with f show "l < N \<and> t \<le> aT (a\<lparr>aV := (aV a)(x := int c), aG := insert (x, aT a x, c) (aG a)\<rparr>) l \<and>
       (t = aT (a\<lparr>aV := (aV a)(x := int c), aG := insert (x, aT a x, c) (aG a)\<rparr>) l \<longrightarrow>
        aV (a\<lparr>aV := (aV a)(x := int c), aG := insert (x, aT a x, c) (aG a)\<rparr>) l = int l \<and>
        aS (a\<lparr>aV := (aV a)(x := int c), aG := insert (x, aT a x, c) (aG a)\<rparr>) l \<noteq> Candidate) \<and>
       (\<forall>d. (l, t, d) \<notin> aG (a\<lparr>aV := (aV a)(x := int c), aG := insert (x, aT a x, c) (aG a)\<rparr>))"
      by auto
  qed
qed (force simp: winners_ok_def)+

lemma vstep_elected: "vstep quorum N a b \<Longrightarrow> elected quorum a \<Longrightarrow> elected quorum b"
proof (induction rule: vstep.induct)
  case (v_grant x c a)
  have "{p. (p, t, l) \<in> aG a} \<subseteq> {p. (p, t, l) \<in> insert (x, aT a x, c) (aG a)}" for t l by blast
  with v_grant show ?case by (simp add: elected_def) (meson subset_trans)
qed (auto simp: elected_def)

lemma vstep_vinv:
  assumes "vstep quorum N a b" and "vinv quorum N a"
  shows "vinv quorum N b"
  using assms vstep_winners_ok [OF assms(1)] vstep_elected [OF assms(1)] vstep_self_voted [OF assms(1)] vstep_grants_ok [OF assms(1)]
    vstep_grants_unique [OF assms(1)] vstep_votes_ok [OF assms(1)] vstep_leaders_won [OF assms(1)]
  by (simp add: vinv_def)

lemma vsteps_vinv: "(vstep quorum N)\<^sup>*\<^sup>* a b \<Longrightarrow> vinv quorum N a \<Longrightarrow> vinv quorum N b"
  by (induction rule: rtranclp_induct) (auto intro: vstep_vinv)

section \<open>Election safety from intersecting quorums\<close>

locale voting =
  fixes quorum :: "nat set \<Rightarrow> bool"
  assumes intersect: "quorum A \<Longrightarrow> quorum B \<Longrightarrow> A \<inter> B \<noteq> {}"
begin

lemma one_winner:
  assumes inv: "vinv quorum N a" and w: "(t, l) \<in> aW a" "(t, l') \<in> aW a"
  shows "l = l'"
proof (rule ccontr)
  assume ne: "l \<noteq> l'"
  from inv w obtain Q Q' where
    Q: "Q \<subseteq> {p. (p, t, l) \<in> aG a}" "quorum (insert l Q)"
       "Q' \<subseteq> {p. (p, t, l') \<in> aG a}" "quorum (insert l' Q')" and
    none: "\<And>c. (l, t, c) \<notin> aG a" "\<And>c. (l', t, c) \<notin> aG a"
    unfolding vinv_def winners_ok_def elected_def by metis
  from intersect [OF Q(2,4)] obtain p where "p \<in> insert l Q" "p \<in> insert l' Q'" by blast
  with Q none ne have "(p, t, l) \<in> aG a" "(p, t, l') \<in> aG a" by auto
  with inv ne show False unfolding vinv_def grants_unique_def by blast
qed

lemma one_leader:
  assumes "vinv quorum N a" and "x < N" "aS a x = Leader" and "y < N" "aS a y = Leader" "aT a x = aT a y"
  shows "x = y"
proof -
  from assms have "(aT a x, x) \<in> aW a" "(aT a x, y) \<in> aW a" by (auto simp: vinv_def leaders_won_def)
  with assms(1) show ?thesis by (rule one_winner)
qed

end

text \<open>The quorums of the code: \<open>votes*2 > n_replicas\<close> among the replicas of the cluster.\<close>

definition majority :: "nat \<Rightarrow> nat set \<Rightarrow> bool" where
  "majority N A \<longleftrightarrow> A \<subseteq> {..<N} \<and> N < 2 * card A"

lemma majority_intersect:
  assumes "majority N A" and "majority N B"
  shows "A \<inter> B \<noteq> {}"
proof
  assume "A \<inter> B = {}"
  moreover have f: "finite A" "finite B"
    using assms finite_subset [of _ "{..<N}"] by (auto simp: majority_def)
  ultimately have "card (A \<union> B) = card A + card B" by (simp add: card_Un_disjoint)
  moreover have "card (A \<union> B) \<le> card {..<N}"
    using assms by (intro card_mono) (auto simp: majority_def)
  ultimately show False using assms by (simp add: majority_def)
qed

interpretation maj: voting "majority N" for N
  by unfold_locales (rule majority_intersect)

end
