(* ===== verification/Raft_Cluster.thy ===== *)
theory Raft_Cluster
  imports Raft_Setup Election_Protocol
begin

text \<open>
  A cluster of replicas: the nodes, the elections with their vote goroutines and the messages
  in flight, and the interleaving of all sections that run under a node's lock as an event
  sequence.  AppendEntries requests and responses are arbitrary, replicas may restart at any
  moment, stubs may be cut and restored, requests may be delayed, lost or delivered after
  their sender has restarted.
  The detailed cluster is simulated by the abstract protocol of \<open>Election_Protocol\<close>, from which
  election safety follows under one scheduling condition: a vote goroutine reads the node's
  term in the term of its election.  Without the condition election safety fails, by a
  concrete run with five replicas.
\<close>

section \<open>State\<close>

text \<open>A vote goroutine of an election, per peer: not started, started, request in flight,
  response received, returned after adding to the counter, returned otherwise.\<close>

datatype call = Spawned | Sent RequestVoteMessage | Answered RequestVoteResponse | Tallied | Over

text \<open>One call of \<open>StartElection\<close>; \<open>opened\<close> is the term it was called in, \<open>alive\<close> says that the
  process that runs its goroutines has not been restarted.\<close>

record election =
  owner :: nat
  alive :: bool
  opened :: int
  received_votes :: int
  calls :: "int \<Rightarrow> call"

text \<open>
  \<open>winners\<close> and \<open>grants\<close> record history: who became leader in which term, and the replies with a
  vote: the voter, the term it is in, the term of the reply, which is that of the request, and the
  candidate.  The two terms differ for a request of an older term from the candidate that the
  replica has voted for, which is granted too.
\<close>

record cluster =
  size :: nat
  nodes :: "nat \<Rightarrow> RaftNode"
  elections :: "election list"
  winners :: "(int \<times> nat) list"
  grants :: "(nat \<times> int \<times> int \<times> nat) list"

definition booted :: "nat \<Rightarrow> nat \<Rightarrow> RaftNode" where
  "booted N i = (case boot N i NoFile of Inr n \<Rightarrow> n | Inl e \<Rightarrow> initial_node 0 0 [] [] [] NoFile)"

definition cluster_init :: "nat \<Rightarrow> cluster" where
  "cluster_init N = \<lparr>size = N, nodes = booted N, elections = [], winners = [], grants = []\<rparr>"

section \<open>Events\<close>

datatype event =
    Timeout nat
  | VoteSend nat int
  | VoteDeliver nat int
  | VoteReply nat int
  | VoteError nat int
  | Append nat AppendEntriesMessage
  | AppendReply nat int int AppendEntriesMessage "AppendEntriesResponse option"
  | NoopDone nat
  | WriteAppend nat "string list" string
  | WriteDone nat bool "string list" string
  | Applied nat int
  | Stub nat nat bool
  | Restart nat

definition set_node :: "nat \<Rightarrow> RaftNode \<Rightarrow> cluster \<Rightarrow> cluster" where
  "set_node i n c = c\<lparr>nodes := (nodes c)(i := n)\<rparr>"

definition set_call :: "nat \<Rightarrow> int \<Rightarrow> call \<Rightarrow> cluster \<Rightarrow> cluster" where
  "set_call k r g c =
     c\<lparr>elections := (elections c)[k := (elections c ! k)\<lparr>calls := (calls (elections c ! k))(r := g)\<rparr>]\<rparr>"

text \<open>The election that \<open>ToCandidate\<close> has started: the goroutines are those in the effects.\<close>

definition open_election :: "nat \<Rightarrow> RaftNode \<Rightarrow> RaftNode \<Rightarrow> election" where
  "open_election i old new =
     \<lparr>owner = i, alive = True, opened = currentTerm new, received_votes = 1,
      calls = (\<lambda>r. if Go_RequestVote r \<in> set (drop (length (effects old)) (effects new))
                   then Spawned else Over)\<rparr>"

definition kill :: "nat \<Rightarrow> election \<Rightarrow> election" where
  "kill i e = (if owner e = i then e\<lparr>alive := False\<rparr> else e)"

text \<open>The process of replica \<open>i\<close> ends with \<open>f\<close> on disk and is started again.\<close>

definition restart :: "nat \<Rightarrow> raft_file \<Rightarrow> cluster \<Rightarrow> cluster option" where
  "restart i f c =
     (case boot (size c) i f of
        Inl e \<Rightarrow> None
      | Inr n \<Rightarrow> Some ((set_node i n c)\<lparr>elections := map (kill i) (elections c)\<rparr>))"

definition set_stub :: "nat \<Rightarrow> bool \<Rightarrow> RaftNode \<Rightarrow> RaftNode" where
  "set_stub j b n =
     n\<lparr>Meta := (Meta n)\<lparr>peer_replica_clients := (peer_replica_clients (Meta n))[j := if b then Some j else None]\<rparr>\<rparr>"

text \<open>
  One event; \<open>None\<close> when it cannot happen.  A handler that panics ends the process of its
  replica: it is restarted on what is on disk at that point, which for AppendEntries is what
  the step down has written.
\<close>

fun step :: "event \<Rightarrow> cluster \<Rightarrow> cluster option" where
  "step (Timeout i) c =
     (if i < size c then
        let n = nodes c i; n' = ToCandidate n
        in Some ((set_node i n' c)\<lparr>elections := elections c @ [open_election i n n']\<rparr>)
      else None)"
| "step (VoteSend k r) c =
     (if k < length (elections c) \<and> alive (elections c ! k) \<and> calls (elections c ! k) r = Spawned then
        Some (set_call k r (Sent (RequestVote_args (nodes c (owner (elections c ! k))))) c)
      else None)"
| "step (VoteDeliver k r) c =
     (if k < length (elections c) then
        (case calls (elections c ! k) r of
           Sent m \<Rightarrow>
             (let (resp, n') = RequestVote m (nodes c (nat r));
                  c1 = set_call k r (Answered resp) (set_node (nat r) n' c)
              in Some (if VoteGranted resp
                       then c1\<lparr>grants := (nat r, currentTerm n', rvr_Term resp, owner (elections c ! k)) # grants c1\<rparr>
                       else c1))
         | _ \<Rightarrow> None)
      else None)"
| "step (VoteReply k r) c =
     (if k < length (elections c) \<and> alive (elections c ! k) then
        (case calls (elections c ! k) r of
           Answered resp \<Rightarrow>
             (let e = elections c ! k;
                  (out, v, n') = handle_vote (Some resp) (received_votes e) (nodes c (owner e));
                  g = (case out of Counted \<Rightarrow> Tallied | Won m \<Rightarrow> Tallied | _ \<Rightarrow> Over);
                  c1 = set_node (owner e) n' c;
                  c2 = c1\<lparr>elections := (elections c)[k := e\<lparr>received_votes := v, calls := (calls e)(r := g)\<rparr>]\<rparr>
              in Some (case out of
                         Won m \<Rightarrow> c2\<lparr>winners := (currentTerm n', owner e) # winners c2\<rparr>
                       | _ \<Rightarrow> c2))
         | _ \<Rightarrow> None)
      else None)"
| "step (VoteError k r) c =
     (if k < length (elections c) then
        (case calls (elections c ! k) r of
           Sent m \<Rightarrow> Some (set_call k r Over c)
         | Answered resp \<Rightarrow> Some (set_call k r Over c)
         | _ \<Rightarrow> None)
      else None)"
| "step (Append i m) c =
     (if i < size c then
        (case AppendEntries m (nodes c i) of
           Inr (resp, n') \<Rightarrow> Some (set_node i n' c)
         | Inl e \<Rightarrow> restart i (disk (if steps_down m (nodes c i) then ToFollower (ae_Term m) (nodes c i)
                                    else nodes c i)) c)
      else None)"
| "step (AppendReply i rid u m resp) c =
     (if i < size c then
        (case LeaderSendAE_resp rid u m resp (nodes c i) of
           Inr (next, n') \<Rightarrow> Some (set_node i n' c)
         | Inl e \<Rightarrow> restart i (disk (nodes c i)) c)
      else None)"
| "step (NoopDone i) c = (if i < size c then Some (set_node i (ToLeader_success (nodes c i)) c) else None)"
| "step (WriteAppend i opr client) c =
     (if i < size c then
        (case WriteCommand_append opr client (nodes c i) of
           Inr (m, u, n') \<Rightarrow> Some (set_node i n' c)
         | Inl e \<Rightarrow> restart i (disk (nodes c i)) c)
      else None)"
| "step (WriteDone i ok opr client) c =
     (if i < size c then Some (set_node i (snd (WriteCommand_finish ok opr client (nodes c i))) c) else None)"
| "step (Applied i applied) c =
     (if i < size c then Some (set_node i (apply_done applied (nodes c i)) c) else None)"
| "step (Stub i j b) c = (if i < size c then Some (set_node i (set_stub j b (nodes c i)) c) else None)"
| "step (Restart i) c = (if i < size c then restart i (disk (nodes c i)) c else None)"

fun run :: "event list \<Rightarrow> cluster \<Rightarrow> cluster option" where
  "run [] c = Some c"
| "run (ev # evs) c = Option.bind (step ev c) (run evs)"

text \<open>
  The scheduling condition: a vote goroutine builds its request while its candidate is still
  in the term of the election; and the term counter does not overflow.
\<close>

fun admissible :: "cluster \<Rightarrow> event \<Rightarrow> bool" where
  "admissible c (VoteSend k r) = (currentTerm (nodes c (owner (elections c ! k))) = opened (elections c ! k))"
| "admissible c (Timeout i) = (in_i32 (currentTerm (nodes c i)) \<and> currentTerm (nodes c i) < max_i32)"
| "admissible c ev = True"

inductive reachable :: "nat \<Rightarrow> cluster \<Rightarrow> bool" for N :: nat where
  start: "reachable N (cluster_init N)"
| move: "reachable N c \<Longrightarrow> admissible c ev \<Longrightarrow> step ev c = Some c' \<Longrightarrow> reachable N c'"

section \<open>The abstraction and the invariant\<close>

text \<open>The votes: who has voted for whom, and in which term the voter was.\<close>

definition votes_of :: "cluster \<Rightarrow> (nat \<times> int \<times> nat) set" where
  "votes_of c = (\<lambda>(x, v, t, l). (x, v, l)) ` set (grants c)"

lemma votes_of_simps [simp]:
  "grants c = [] \<Longrightarrow> votes_of c = {}" "votes_of (c'\<lparr>grants := (x, v, t, l) # grants c\<rparr>) = insert (x, v, l) (votes_of c)"
  "votes_of (c\<lparr>elections := es\<rparr>) = votes_of c" "votes_of (c\<lparr>winners := ws\<rparr>) = votes_of c"
  "votes_of (set_node i n c) = votes_of c" "votes_of (set_call k r g c) = votes_of c"
  by (simp_all add: votes_of_def set_node_def set_call_def)

definition abs_cluster :: "cluster \<Rightarrow> vstate" where
  "abs_cluster c = \<lparr>aT = (\<lambda>i. currentTerm (nodes c i)), aV = (\<lambda>i. votedFor (nodes c i)),
     aS = (\<lambda>i. state (nodes c i)), aG = votes_of c, aW = set (winners c)\<rparr>"

definition wired :: "nat \<Rightarrow> nat \<Rightarrow> RaftNode \<Rightarrow> bool" where
  "wired N i n \<longleftrightarrow> replica_id (Meta n) = int i \<and> n_replicas (Meta n) = int N \<and>
     length (peer_replica_clients (Meta n)) = N"

definition node_inv :: "nat \<Rightarrow> nat \<Rightarrow> RaftNode \<Rightarrow> bool" where
  "node_inv N i n \<longleftrightarrow> wired N i n \<and> vote_saved n"

text \<open>What the calls of an election know; \<open>T\<close> are the terms and \<open>G\<close> the grants so far.\<close>

fun call_ok :: "nat \<Rightarrow> (nat \<Rightarrow> int) \<Rightarrow> (nat \<times> int \<times> nat) set \<Rightarrow> nat \<Rightarrow> int \<Rightarrow> int \<Rightarrow> call \<Rightarrow> bool" where
  "call_ok N T G i t r Over = True"
| "call_ok N T G i t r Spawned = (0 \<le> r \<and> r < int N \<and> r \<noteq> int i)"
| "call_ok N T G i t r (Sent m) =
     (0 \<le> r \<and> r < int N \<and> r \<noteq> int i \<and> rv_Term m = t \<and> CandidateId m = int i)"
| "call_ok N T G i t r (Answered resp) =
     (0 \<le> r \<and> r < int N \<and> r \<noteq> int i \<and> rvr_Term resp = t \<and>
      (VoteGranted resp \<longrightarrow> t < T i \<or> (nat r, t, i) \<in> G))"
| "call_ok N T G i t r Tallied = (0 \<le> r \<and> r < int N \<and> r \<noteq> int i \<and> (nat r, t, i) \<in> G)"

definition tallied :: "election \<Rightarrow> int set" where
  "tallied e = {r. calls e r = Tallied}"

definition election_ok :: "nat \<Rightarrow> (nat \<Rightarrow> int) \<Rightarrow> (nat \<times> int \<times> nat) set \<Rightarrow> election \<Rightarrow> bool" where
  "election_ok N T G e \<longleftrightarrow> owner e < N \<and> opened e \<le> T (owner e) \<and>
     (\<forall>r. call_ok N T G (owner e) (opened e) r (calls e r)) \<and>
     received_votes e = 1 + int (card (tallied e))"

definition elections_ok :: "nat \<Rightarrow> (nat \<Rightarrow> int) \<Rightarrow> (nat \<times> int \<times> nat) set \<Rightarrow> election list \<Rightarrow> bool" where
  "elections_ok N T G es \<longleftrightarrow> (\<forall>e \<in> set es. election_ok N T G e)"

definition cluster_inv :: "nat \<Rightarrow> cluster \<Rightarrow> bool" where
  "cluster_inv N c \<longleftrightarrow> size c = N \<and> (\<forall>i < N. node_inv N i (nodes c i)) \<and>
     elections_ok N (aT (abs_cluster c)) (aG (abs_cluster c)) (elections c) \<and>
     vinv (majority N) N (abs_cluster c)"

lemma abs_simps [simp]:
  "aT (abs_cluster c) i = currentTerm (nodes c i)" "aV (abs_cluster c) i = votedFor (nodes c i)"
  "aS (abs_cluster c) i = state (nodes c i)" "aG (abs_cluster c) = votes_of c"
  "aW (abs_cluster c) = set (winners c)"
  by (simp_all add: abs_cluster_def)

lemma vstate_eqI:
  "aT a = aT b \<Longrightarrow> aV a = aV b \<Longrightarrow> aS a = aS b \<Longrightarrow> aG a = aG b \<Longrightarrow> aW a = aW b \<Longrightarrow> a = (b :: vstate)"
  by (cases a; cases b) simp

lemma abs_cong:
  "nodes c' = nodes c \<Longrightarrow> grants c' = grants c \<Longrightarrow> winners c' = winners c \<Longrightarrow> abs_cluster c' = abs_cluster c"
  by (simp add: abs_cluster_def votes_of_def)

lemma abs_elections [simp]: "abs_cluster (c\<lparr>elections := es\<rparr>) = abs_cluster c"
  by (simp add: abs_cluster_def votes_of_def)

lemma abs_set_node:
  "abs_cluster (set_node i n c) = (abs_cluster c)\<lparr>aT := (aT (abs_cluster c))(i := currentTerm n),
     aV := (aV (abs_cluster c))(i := votedFor n), aS := (aS (abs_cluster c))(i := state n)\<rparr>"
  by (rule vstate_eqI) (auto simp: set_node_def abs_cluster_def votes_of_def)

lemma cluster_fields [simp]:
  "size (set_node i n c) = size c" "elections (set_node i n c) = elections c" "winners (set_node i n c) = winners c"
  "grants (set_node i n c) = grants c" "nodes (set_node i n c) j = (if j = i then n else nodes c j)"
  "size (set_call k r g c) = size c" "nodes (set_call k r g c) = nodes c"
  "winners (set_call k r g c) = winners c" "grants (set_call k r g c) = grants c"
  by (simp_all add: set_node_def set_call_def)

section \<open>Monotonicity\<close>

lemma vstep_mono: "vstep quorum N a b \<Longrightarrow> aT a x \<le> aT b x \<and> aG a \<subseteq> aG b"
  by (induction rule: vstep.induct) auto

lemma vsteps_mono: "(vstep quorum N)\<^sup>*\<^sup>* a b \<Longrightarrow> aT a x \<le> aT b x \<and> aG a \<subseteq> aG b"
proof (induction rule: rtranclp_induct)
  case (step b b')
  with vstep_mono [of quorum N b b' x] show ?case by force
qed simp

lemma call_ok_mono:
  "call_ok N T G i t r g \<Longrightarrow> T i \<le> T' i \<Longrightarrow> G \<subseteq> G' \<Longrightarrow> call_ok N T' G' i t r g"
  by (cases g) auto

lemma election_ok_mono:
  assumes "election_ok N T G e" and "\<And>x. T x \<le> T' x" and "G \<subseteq> G'"
  shows "election_ok N T' G' e"
proof -
  have "call_ok N T' G' (owner e) (opened e) r (calls e r)" for r
    using assms(1) by (intro call_ok_mono [OF _ assms(2,3)]) (simp add: election_ok_def)
  moreover have "opened e \<le> T' (owner e)"
    using assms(1) assms(2) [of "owner e"] by (simp add: election_ok_def)
  ultimately show ?thesis using assms(1) by (simp add: election_ok_def)
qed

lemma elections_ok_mono:
  "elections_ok N T G es \<Longrightarrow> (\<And>x. T x \<le> T' x) \<Longrightarrow> G \<subseteq> G' \<Longrightarrow> elections_ok N T' G' es"
  using election_ok_mono by (auto simp: elections_ok_def)

text \<open>What an event has to establish.\<close>

definition simulates :: "nat \<Rightarrow> cluster \<Rightarrow> cluster \<Rightarrow> bool" where
  "simulates N c c' \<longleftrightarrow> size c' = N \<and> (vstep (majority N) N)\<^sup>*\<^sup>* (abs_cluster c) (abs_cluster c') \<and>
     (\<forall>i < N. node_inv N i (nodes c' i)) \<and>
     elections_ok N (aT (abs_cluster c')) (aG (abs_cluster c')) (elections c')"

lemma simulates_inv: "cluster_inv N c \<Longrightarrow> simulates N c c' \<Longrightarrow> cluster_inv N c'"
  using vsteps_vinv by (auto simp: cluster_inv_def simulates_def)

lemma elections_kept:
  assumes "cluster_inv N c" and "(vstep (majority N) N)\<^sup>*\<^sup>* (abs_cluster c) a"
  shows "elections_ok N (aT a) (aG a) (elections c)"
  using assms(1) vsteps_mono [OF assms(2)] elections_ok_mono
  by (fastforce simp: cluster_inv_def)

section \<open>Events that change one node\<close>

text \<open>The changes of term, vote and role that are not a vote or a victory.\<close>

definition vmove :: "RaftNode \<Rightarrow> RaftNode \<Rightarrow> bool" where
  "vmove n n' \<longleftrightarrow>
     (currentTerm n' = currentTerm n \<and> votedFor n' = votedFor n \<and> (state n' = state n \<or> state n' = Follower)) \<or>
     (currentTerm n < currentTerm n' \<and> votedFor n' = -1 \<and> state n' = Follower) \<or>
     (currentTerm n' = currentTerm n \<and> state n = Candidate \<and> votedFor n' = -1 \<and> state n' = Follower)"

lemma vmove_steps:
  assumes "vmove (nodes c i) n'" and "i < N"
  shows "(vstep (majority N) N)\<^sup>*\<^sup>* (abs_cluster c) (abs_cluster (set_node i n' c))"
proof -
  let ?a = "abs_cluster c" and ?n = "nodes c i"
  have T: "(aT ?a)(i := currentTerm ?n) = aT ?a" "(aV ?a)(i := votedFor ?n) = aV ?a" "(aS ?a)(i := state ?n) = aS ?a"
    by (auto simp: fun_eq_iff)
  from assms(1) consider
    (same) "currentTerm n' = currentTerm ?n" "votedFor n' = votedFor ?n" "state n' = state ?n"
    | (restart) "currentTerm n' = currentTerm ?n" "votedFor n' = votedFor ?n" "state n' = Follower"
    | (down) "currentTerm ?n < currentTerm n'" "votedFor n' = -1" "state n' = Follower"
    | (yield) "currentTerm n' = currentTerm ?n" "state ?n = Candidate" "votedFor n' = -1" "state n' = Follower"
    by (auto simp: vmove_def)
  then show ?thesis
  proof cases
    case same
    then have "abs_cluster (set_node i n' c) = ?a" by (simp add: abs_set_node T)
    then show ?thesis by simp
  next
    case restart
    have "vstep (majority N) N ?a (?a\<lparr>aS := (aS ?a)(i := Follower)\<rparr>)" using assms(2) by (rule v_restart)
    with restart show ?thesis by (simp add: abs_set_node T r_into_rtranclp)
  next
    case down
    have "vstep (majority N) N ?a (?a\<lparr>aT := (aT ?a)(i := currentTerm n'), aV := (aV ?a)(i := -1), aS := (aS ?a)(i := Follower)\<rparr>)"
      using assms(2) down by (intro v_down) simp_all
    with down show ?thesis by (simp add: abs_set_node r_into_rtranclp)
  next
    case yield
    have "vstep (majority N) N ?a (?a\<lparr>aV := (aV ?a)(i := -1), aS := (aS ?a)(i := Follower)\<rparr>)"
      using assms(2) yield by (intro v_yield) simp_all
    with yield show ?thesis by (simp add: abs_set_node T r_into_rtranclp)
  qed
qed

lemma simulates_node:
  assumes "cluster_inv N c" and "i < N" and "vmove (nodes c i) n'" and "node_inv N i n'"
  shows "simulates N c (set_node i n' c)"
proof -
  note v = vmove_steps [OF assms(3,2)]
  from assms v elections_kept [OF assms(1) v] show ?thesis by (simp add: simulates_def cluster_inv_def)
qed

lemma kill_ok [simp]: "election_ok N T G (kill i e) = election_ok N T G e"
  by (simp add: election_ok_def kill_def tallied_def)

lemma simulates_kill:
  assumes "simulates N c c'"
  shows "simulates N c (c'\<lparr>elections := map (kill i) (elections c')\<rparr>)"
  using assms by (auto simp: simulates_def elections_ok_def abs_cluster_def)

lemma file_booted:
  assumes "vote_saved n" and "boot N i (disk n) = Inr n'" and "N < 2147483648" and "i < N"
  shows "node_inv N i n' \<and> currentTerm n' = currentTerm n \<and> votedFor n' = votedFor n \<and> state n' = Follower"
proof -
  from assms(1) have f: "file_ok (disk n)" by (simp add: vote_saved_def)
  from boot_node [OF this assms(3,4)] assms(2) show ?thesis
    using assms(1)
    by (auto simp: node_inv_def wired_def connected_def vote_saved_def node_state_def prod_eq_iff)
qed

text \<open>A restart from a file that holds the node's term and vote, or those of its step down.\<close>

lemma simulates_restart:
  assumes inv: "cluster_inv N c" and N: "N < 2147483648" and i: "i < N" and v: "vote_saved n"
    and m: "vmove (nodes c i) (n\<lparr>state := Follower\<rparr>)" and r: "restart i (disk n) c = Some c'"
  shows "simulates N c c'"
proof -
  from inv have "size c = N" by (simp add: cluster_inv_def)
  with r obtain n' where b: "boot N i (disk n) = Inr n'" and
    c': "c' = (set_node i n' c)\<lparr>elections := map (kill i) (elections (set_node i n' c))\<rparr>"
    by (auto simp: restart_def split: sum.splits)
  from file_booted [OF v b N i] m have "vmove (nodes c i) n'" "node_inv N i n'"
    by (auto simp: vmove_def)
  from simulates_kill [OF simulates_node [OF inv i this], of i] show ?thesis by (simp add: c')
qed

text \<open>The handlers as changes of one node.\<close>

lemma wired_same_identity: "same_identity n n' \<Longrightarrow> wired N i n \<Longrightarrow> wired N i n'"
  by (simp add: wired_def same_identity_def)

lemma wired_Meta: "Meta n' = Meta n \<Longrightarrow> wired N i n' = wired N i n"
  by (simp add: wired_def)

lemma AppendEntries_vmove:
  assumes "AppendEntries m n = Inr (r, n')" and "node_inv N i n"
  shows "vmove n n' \<and> node_inv N i n'"
  using AppendEntries_frame [OF assms(1)] assms(2) wired_same_identity
  by (auto simp: vmove_def node_inv_def steps_down_def)

lemma LeaderSendAE_resp_frame:
  assumes "LeaderSendAE_resp rid u m resp n = Inr (next, n')"
  shows "(currentTerm n' = currentTerm n \<and> votedFor n' = votedFor n \<and> state n' = state n \<and>
            Meta n' = Meta n \<and> disk n' = disk n) \<or>
         (\<exists>t. currentTerm n < t \<and> n' = ToFollower t n)"
  using assms
  by (auto simp: LeaderSendAE_resp_def Let_def go_bind_eq_Inr split: option.splits if_splits)

lemma node_inv_same:
  assumes "node_inv N i n" and "currentTerm n' = currentTerm n" and "votedFor n' = votedFor n" and "disk n' = disk n"
    and "wired N i n'"
  shows "node_inv N i n'"
  using assms by (simp add: node_inv_def vote_saved_def)

lemma LeaderSendAE_resp_vmove:
  assumes "LeaderSendAE_resp rid u m resp n = Inr (next, n')" and inv: "node_inv N i n"
  shows "vmove n n' \<and> node_inv N i n'"
  using LeaderSendAE_resp_frame [OF assms(1)]
proof (elim disjE exE conjE)
  fix t
  assume "currentTerm n < t" "n' = ToFollower t n"
  with inv show ?thesis by (simp add: vmove_def node_inv_def wired_def)
next
  assume s: "currentTerm n' = currentTerm n" "votedFor n' = votedFor n" "state n' = state n" "Meta n' = Meta n"
    "disk n' = disk n"
  from inv s(4) have "wired N i n'" by (simp add: node_inv_def wired_def)
  with node_inv_same [OF inv s(1,2,5)] s show ?thesis by (simp add: vmove_def)
qed

lemma ToLeader_success_vmove: "node_inv N i n \<Longrightarrow> vmove n (ToLeader_success n) \<and> node_inv N i (ToLeader_success n)"
  by (simp add: vmove_def node_inv_def wired_def)

lemma WriteCommand_append_vmove:
  assumes "WriteCommand_append opr client n = Inr (m, u, n')" and "node_inv N i n"
  shows "vmove n n' \<and> node_inv N i n'"
  using assms
  by (auto simp: WriteCommand_append_def Let_def go_bind_eq_Inr vmove_def node_inv_def wired_def vote_saved_def)

lemma WriteCommand_finish_vmove:
  assumes "node_inv N i n"
  shows "vmove n (snd (WriteCommand_finish ok opr client n)) \<and> node_inv N i (snd (WriteCommand_finish ok opr client n))"
  using assms WriteCommand_finish_saved by (simp add: vmove_def node_inv_def wired_def)

lemma apply_done_vmove: "node_inv N i n \<Longrightarrow> vmove n (apply_done k n) \<and> node_inv N i (apply_done k n)"
  by (simp add: apply_done_def vmove_def node_inv_def wired_def)

lemma set_stub_vmove: "node_inv N i n \<Longrightarrow> vmove n (set_stub j b n) \<and> node_inv N i (set_stub j b n)"
  by (simp add: set_stub_def vmove_def node_inv_def wired_def vote_saved_def)

lemma simulates_same_node:
  assumes "cluster_inv N c" and "i < N" and "vmove (nodes c i) n' \<and> node_inv N i n'"
  shows "simulates N c (set_node i n' c)"
  using assms simulates_node by blast

lemma simulates_crash:
  assumes "cluster_inv N c" and "N < 2147483648" and "i < N" and "restart i (disk (nodes c i)) c = Some c'"
  shows "simulates N c c'"
proof (rule simulates_restart [OF assms(1-3) _ _ assms(4)])
  show "vote_saved (nodes c i)" using assms(1,3) by (simp add: cluster_inv_def node_inv_def)
  show "vmove (nodes c i) ((nodes c i)\<lparr>state := Follower\<rparr>)" by (simp add: vmove_def)
qed

section \<open>Elections\<close>

lemma elections_ok_upd:
  "elections_ok N T G es \<Longrightarrow> election_ok N T G e \<Longrightarrow> elections_ok N T G (es[k := e])"
  using set_update_subset_insert by (fastforce simp: elections_ok_def)

lemma call_upd_ok:
  assumes "election_ok N T G e" and "call_ok N T G (owner e) (opened e) r g" and "g \<noteq> Tallied" and "calls e r \<noteq> Tallied"
  shows "election_ok N T G (e\<lparr>calls := (calls e)(r := g)\<rparr>)"
proof -
  have "tallied (e\<lparr>calls := (calls e)(r := g)\<rparr>) = tallied e"
    using assms(3,4) by (auto simp: tallied_def)
  with assms(1,2) show ?thesis by (simp add: election_ok_def)
qed

lemma tallied_range:
  assumes "election_ok N T G e"
  shows "tallied e \<subseteq> {0..<int N} - {int (owner e)}" "\<forall>r \<in> tallied e. (nat r, opened e, owner e) \<in> G"
    "finite (tallied e)"
proof -
  have c: "call_ok N T G (owner e) (opened e) r Tallied" if "r \<in> tallied e" for r
    using assms that by (auto simp: election_ok_def tallied_def dest: spec [of _ r])
  then show "tallied e \<subseteq> {0..<int N} - {int (owner e)}" "\<forall>r \<in> tallied e. (nat r, opened e, owner e) \<in> G" by auto
  then show "finite (tallied e)" by (meson finite_Diff finite_atLeastLessThan_int finite_subset)
qed

lemma tally_upd_ok:
  assumes ok: "election_ok N T G e" and r: "calls e r = Answered resp" "VoteGranted resp" "rvr_Term resp = T (owner e)"
    and N: "N < 2147483648"
    and e': "e' = e\<lparr>received_votes := i32 (received_votes e + 1), calls := (calls e)(r := Tallied)\<rparr>"
  shows "election_ok N T G e'" "opened e = T (owner e)"
    "int N < 2 * received_votes e' \<Longrightarrow> majority N (insert (owner e) (nat ` tallied e'))"
proof -
  have c: "0 \<le> r" "r < int N" "r \<noteq> int (owner e)" "opened e = T (owner e)" "(nat r, opened e, owner e) \<in> G"
  proof -
    have "call_ok N T G (owner e) (opened e) r (Answered resp)"
      using ok unfolding election_ok_def r(1) [symmetric] by blast
    then show "0 \<le> r" "r < int N" "r \<noteq> int (owner e)" "opened e = T (owner e)" "(nat r, opened e, owner e) \<in> G"
      using r(2,3) by auto
  qed
  then show "opened e = T (owner e)" by simp
  have o: "owner e < N" using ok by (simp add: election_ok_def)
  have t: "tallied e' = insert r (tallied e)" by (auto simp: tallied_def e')
  have nr: "r \<notin> tallied e" using r(1) by (simp add: tallied_def)
  note tr = tallied_range [OF ok]
  have sub: "tallied e' \<subseteq> {0..<int N} - {int (owner e)}" using tr(1) c t by auto
  have "card (tallied e') \<le> card ({0..<int N} - {int (owner e)})" by (rule card_mono [OF _ sub]) simp
  with o have cb: "card (tallied e') \<le> N - 1" by simp
  have card: "card (tallied e') = Suc (card (tallied e))" using nr tr(3) by (simp add: t)
  have "received_votes e + 1 = 1 + int (card (tallied e'))" using ok card by (simp add: election_ok_def)
  moreover have "i32 (1 + int (card (tallied e'))) = 1 + int (card (tallied e'))"
    using cb o N by (intro i32_id) auto
  moreover have "received_votes e' = i32 (received_votes e + 1)" by (simp add: e')
  ultimately have v: "received_votes e' = 1 + int (card (tallied e'))" by (simp add: add.commute)
  have "call_ok N T G (owner e') (opened e') x (calls e' x)" for x
    using ok c by (simp add: e' election_ok_def)
  with v ok show "election_ok N T G e'" by (simp add: election_ok_def e')
  have inj: "inj_on nat (tallied e')"
  proof (rule inj_onI)
    fix x y
    assume "x \<in> tallied e'" "y \<in> tallied e'" "nat x = nat y"
    moreover from this sub have "0 \<le> x" "0 \<le> y" by auto
    ultimately show "x = y" by simp
  qed
  have no: "owner e \<notin> nat ` tallied e'" using sub by auto
  have "finite (tallied e')" using tr(3) by (simp add: t)
  then have "card (insert (owner e) (nat ` tallied e')) = Suc (card (tallied e'))"
    using no inj by (simp add: card_image)
  moreover have "nat x < N" if "x \<in> tallied e'" for x
  proof -
    from that sub have "0 \<le> x" "x < int N" by auto
    then show ?thesis by simp
  qed
  then have "insert (owner e) (nat ` tallied e') \<subseteq> {..<N}" using o by auto
  ultimately show "int N < 2 * received_votes e' \<Longrightarrow> majority N (insert (owner e) (nat ` tallied e'))"
    using v by (simp add: majority_def)
qed

section \<open>The remaining events\<close>

lemma ToCandidate_targets:
  assumes "wired N i n" and "N < 2147483648"
    and "Go_RequestVote r \<in> set (drop (length (effects n)) (effects (ToCandidate n)))"
  shows "0 \<le> r \<and> r < int N \<and> r \<noteq> int i"
proof -
  have "r \<in> set (vote_targets (peer_replica_clients (Meta n)) (replica_id (Meta n)) 0)"
    using assms(3) by (auto simp: ToCandidate_def StartElection_def Let_def StartElection_loop_effects)
  with assms(1,2) show ?thesis by (simp add: vote_targets_set wired_def)
qed

lemma elections_ok_append:
  "elections_ok N T G es \<Longrightarrow> election_ok N T G e \<Longrightarrow> elections_ok N T G (es @ [e])"
  by (auto simp: elections_ok_def)

lemma simulates_Timeout:
  assumes inv: "cluster_inv N c" and N: "N < 2147483648" and adm: "admissible c (Timeout i)"
    and s: "step (Timeout i) c = Some c'"
  shows "simulates N c c'"
proof -
  let ?n = "nodes c i" and ?n' = "ToCandidate (nodes c i)" and ?a = "abs_cluster c"
  from inv have sz: "size c = N" by (simp add: cluster_inv_def)
  with s have i: "i < N" and
    c': "c' = (set_node i ?n' c)\<lparr>elections := elections c @ [open_election i ?n ?n']\<rparr>"
    by (auto simp: Let_def split: if_splits)
  from inv i have w: "wired N i ?n" by (simp add: cluster_inv_def node_inv_def)
  have t: "i32 (currentTerm ?n + 1) = currentTerm ?n + 1" using adm by (auto simp: in_i32_def intro!: i32_id)
  have a: "abs_cluster c' = ?a\<lparr>aT := (aT ?a)(i := aT ?a i + 1), aV := (aV ?a)(i := int i), aS := (aS ?a)(i := Candidate)\<rparr>"
    using w t by (simp add: c' abs_set_node wired_def)
  have st: "(vstep (majority N) N)\<^sup>*\<^sup>* ?a (abs_cluster c')"
    unfolding a using i by (intro r_into_rtranclp v_timeout)
  have "election_ok N (aT (abs_cluster c')) (aG (abs_cluster c')) (open_election i ?n ?n')"
    using i t ToCandidate_targets [OF w N]
    by (simp add: election_ok_def open_election_def tallied_def a)
  from elections_ok_append [OF elections_kept [OF inv st] this] have
    "elections_ok N (aT (abs_cluster c')) (aG (abs_cluster c')) (elections c')" by (simp add: c')
  moreover have "node_inv N i ?n'" using w by (simp add: node_inv_def wired_def)
  ultimately show ?thesis using inv st sz by (simp add: simulates_def c' cluster_inv_def)
qed

text \<open>A call changes its state without touching a node.\<close>

lemma simulates_call:
  assumes inv: "cluster_inv N c" and k: "k < length (elections c)"
    and ok: "election_ok N (aT (abs_cluster c)) (aG (abs_cluster c)) (elections c ! k) \<Longrightarrow>
             election_ok N (aT (abs_cluster c)) (aG (abs_cluster c)) e"
  shows "simulates N c (c\<lparr>elections := (elections c)[k := e]\<rparr>)"
proof -
  have es: "elections_ok N (aT (abs_cluster c)) (aG (abs_cluster c)) (elections c)"
    using inv by (simp add: cluster_inv_def)
  with k have "election_ok N (aT (abs_cluster c)) (aG (abs_cluster c)) (elections c ! k)"
    by (simp add: elections_ok_def)
  from elections_ok_upd [OF es ok [OF this], of k] inv show ?thesis
    by (simp add: simulates_def cluster_inv_def abs_cluster_def)
qed

lemma simulates_VoteSend:
  assumes inv: "cluster_inv N c" and adm: "admissible c (VoteSend k r)"
    and s: "step (VoteSend k r) c = Some c'"
  shows "simulates N c c'"
proof -
  let ?e = "elections c ! k"
  let ?m = "RequestVote_args (nodes c (owner ?e))"
  from s have k: "k < length (elections c)" and sp: "calls ?e r = Spawned" and
    c': "c' = c\<lparr>elections := (elections c)[k := ?e\<lparr>calls := (calls ?e)(r := Sent ?m)\<rparr>]\<rparr>"
    by (auto simp: set_call_def split: if_splits)
  show ?thesis unfolding c'
  proof (rule simulates_call [OF inv k])
    assume ok: "election_ok N (aT (abs_cluster c)) (aG (abs_cluster c)) ?e"
    then have o: "owner ?e < N" by (simp add: election_ok_def)
    have "call_ok N (aT (abs_cluster c)) (aG (abs_cluster c)) (owner ?e) (opened ?e) r Spawned"
      using ok unfolding election_ok_def sp [symmetric] by blast
    moreover have "replica_id (Meta (nodes c (owner ?e))) = int (owner ?e)"
      using inv o by (simp add: cluster_inv_def node_inv_def wired_def)
    ultimately have "call_ok N (aT (abs_cluster c)) (aG (abs_cluster c)) (owner ?e) (opened ?e) r (Sent ?m)"
      using adm by simp
    from call_upd_ok [OF ok this] sp
    show "election_ok N (aT (abs_cluster c)) (aG (abs_cluster c)) (?e\<lparr>calls := (calls ?e)(r := Sent ?m)\<rparr>)"
      by simp
  qed
qed

lemma simulates_VoteError:
  assumes inv: "cluster_inv N c" and s: "step (VoteError k r) c = Some c'"
  shows "simulates N c c'"
proof -
  let ?e = "elections c ! k"
  from s have k: "k < length (elections c)" and nt: "calls ?e r \<noteq> Tallied" and
    c': "c' = c\<lparr>elections := (elections c)[k := ?e\<lparr>calls := (calls ?e)(r := Over)\<rparr>]\<rparr>"
    by (auto simp: set_call_def split: if_splits call.splits)
  show ?thesis unfolding c'
    by (rule simulates_call [OF inv k]) (intro call_upd_ok nt, simp_all)
qed

lemma RequestVote_stepdown:
  fixes m n
  defines "n1 \<equiv> (if rv_Term m > currentTerm n then ToFollower (rv_Term m) n else n)"
  shows "vmove n n1" "currentTerm (snd (RequestVote m n)) = currentTerm n1" "state (snd (RequestVote m n)) = state n1"
    "\<not> VoteGranted (fst (RequestVote m n)) \<Longrightarrow> votedFor (snd (RequestVote m n)) = votedFor n1"
    "VoteGranted (fst (RequestVote m n)) \<Longrightarrow> votedFor n1 = -1 \<or> votedFor n1 = CandidateId m"
    "node_inv N i n \<Longrightarrow> node_inv N i n1"
  by (auto simp: n1_def vmove_def RequestVote_votedFor RequestVote_granted node_inv_def wired_def)

text \<open>The voter's term, when it grants a vote, is not beyond the candidate's.\<close>

lemma granted_term:
  assumes inv: "vinv (majority N) N a" and "x < N" and "aV a x = -1 \<or> aV a x = int l" and "x \<noteq> l"
    and "aV a x = int l \<or> aT a x \<le> aT a l"
  shows "aT a x \<le> aT a l"
proof (cases "aV a x = int l")
  case True
  with inv assms(2,4) have "(x, aT a x, l) \<in> aG a"
    by (auto simp: vinv_def votes_ok_def)
  with inv show ?thesis by (auto simp: vinv_def grants_ok_def)
next
  case False
  with assms show ?thesis by blast
qed

lemma simulates_VoteDeliver:
  assumes inv: "cluster_inv N c" and s: "step (VoteDeliver k r) c = Some c'"
  shows "simulates N c c'"
proof -
  let ?e = "elections c ! k" and ?p = "nat r"
  let ?l = "owner ?e"
  let ?a = "abs_cluster c" and ?n = "nodes c ?p"
  from s obtain m where k: "k < length (elections c)" and sent: "calls ?e r = Sent m"
    by (auto split: if_splits call.splits)
  let ?resp = "fst (RequestVote m ?n)" and ?n' = "snd (RequestVote m ?n)"
  let ?n1 = "if rv_Term m > currentTerm ?n then ToFollower (rv_Term m) ?n else ?n"
  let ?c1 = "set_call k r (Answered ?resp) (set_node ?p ?n' c)"
  from s k sent have c': "c' = (if VoteGranted ?resp
      then ?c1\<lparr>grants := (?p, currentTerm ?n', rvr_Term ?resp, ?l) # grants ?c1\<rparr> else ?c1)"
    by (simp add: Let_def split_beta)
  have es: "elections_ok N (aT ?a) (aG ?a) (elections c)" and sz: "size c = N"
    and nodes: "\<forall>i < N. node_inv N i (nodes c i)" and vi: "vinv (majority N) N ?a"
    using inv by (auto simp: cluster_inv_def)
  from es k have eok: "election_ok N (aT ?a) (aG ?a) ?e" by (simp add: elections_ok_def)
  then have "call_ok N (aT ?a) (aG ?a) ?l (opened ?e) r (Sent m)"
    unfolding election_ok_def sent [symmetric] by blast
  then have m: "0 \<le> r" "r < int N" "r \<noteq> int ?l" "rv_Term m = opened ?e" "CandidateId m = int ?l" by auto
  from eok have l: "?l < N" "opened ?e \<le> currentTerm (nodes c ?l)" by (auto simp: election_ok_def)
  have p: "?p < N" "?p \<noteq> ?l" using m by auto
  note sd = RequestVote_stepdown [where m = m and n = ?n]
  have ninv: "node_inv N ?p ?n1" "node_inv N ?p ?n'"
    using nodes p RequestVote_saved [of ?n m] sd(6) by (auto simp: node_inv_def wired_def)
  let ?a1 = "abs_cluster (set_node ?p ?n1 c)"
  have st1: "(vstep (majority N) N)\<^sup>*\<^sup>* ?a ?a1" by (rule vmove_steps [OF sd(1) p(1)])
  have st: "(vstep (majority N) N)\<^sup>*\<^sup>* ?a (abs_cluster c') \<and>
      (VoteGranted ?resp \<longrightarrow> rv_Term m < currentTerm (nodes c ?l) \<or> (?p, rv_Term m, ?l) \<in> votes_of c')"
  proof (cases "VoteGranted ?resp")
    case False
    have "abs_cluster c' = ?a1"
      using False sd(2-4) by (intro vstate_eqI) (auto simp: c' abs_cluster_def)
    with False st1 show ?thesis by simp
  next
    case True
    have vi1: "vinv (majority N) N ?a1" using vsteps_vinv [OF st1 vi] .
    have t1: "currentTerm ?n1 = rv_Term m \<or> votedFor ?n1 = int ?l"
      using True m(5) by (auto simp: RequestVote_granted)
    have "aT ?a1 ?p \<le> aT ?a1 ?l"
      by (rule granted_term [OF vi1 p(1) _ p(2)]) (use True sd(5) m l t1 p in auto)
    then have "vstep (majority N) N ?a1 (?a1\<lparr>aV := (aV ?a1)(?p := int ?l), aG := insert (?p, aT ?a1 ?p, ?l) (aG ?a1)\<rparr>)"
      by (intro v_grant) (use True sd(5) m l p in auto)
    moreover have "abs_cluster c' = ?a1\<lparr>aV := (aV ?a1)(?p := int ?l), aG := insert (?p, aT ?a1 ?p, ?l) (aG ?a1)\<rparr>"
      using True sd(2,3) m(5) by (intro vstate_eqI) (auto simp: c' abs_cluster_def RequestVote_votedFor)
    ultimately have "(vstep (majority N) N)\<^sup>*\<^sup>* ?a (abs_cluster c')" using st1 by simp
    moreover have "rv_Term m < currentTerm (nodes c ?l) \<or> (?p, rv_Term m, ?l) \<in> votes_of c'"
      using True \<open>aT ?a1 ?p \<le> aT ?a1 ?l\<close> p(2) sd(2) by (auto simp: c' max_def)
    ultimately show ?thesis by blast
  qed
  have oe: "election_ok N (aT (abs_cluster c')) (aG (abs_cluster c')) ?e"
    using elections_kept [OF inv conjunct1 [OF st]] k by (simp add: elections_ok_def)
  have "aT (abs_cluster c') ?l = currentTerm (nodes c ?l)" using p by (simp add: c')
  then have "call_ok N (aT (abs_cluster c')) (aG (abs_cluster c')) ?l (opened ?e) r (Answered ?resp)"
    using m st by simp
  from call_upd_ok [OF oe this] sent have
    "election_ok N (aT (abs_cluster c')) (aG (abs_cluster c')) (?e\<lparr>calls := (calls ?e)(r := Answered ?resp)\<rparr>)" by simp
  moreover have "elections c' = (elections c)[k := ?e\<lparr>calls := (calls ?e)(r := Answered ?resp)\<rparr>]"
    by (simp add: c' set_call_def)
  ultimately have "elections_ok N (aT (abs_cluster c')) (aG (abs_cluster c')) (elections c')"
    using elections_ok_upd [OF elections_kept [OF inv conjunct1 [OF st]]] by simp
  with st ninv nodes sz show ?thesis by (simp add: simulates_def c')
qed

lemma simulates_VoteReply:
  assumes inv: "cluster_inv N c" and N: "N < 2147483648" and s: "step (VoteReply k r) c = Some c'"
  shows "simulates N c c'"
proof -
  let ?e = "elections c ! k" and ?a = "abs_cluster c"
  let ?l = "owner ?e"
  let ?n = "nodes c ?l"
  from s obtain resp where k: "k < length (elections c)" and up: "alive ?e" and an: "calls ?e r = Answered resp"
    by (auto split: if_splits call.splits)
  obtain out v n' where h: "handle_vote (Some resp) (received_votes ?e) ?n = (out, v, n')" by (metis prod_cases3)
  have es: "elections_ok N (aT ?a) (aG ?a) (elections c)"
    and nodes: "\<forall>i < N. node_inv N i (nodes c i)" and vi: "vinv (majority N) N ?a"
    using inv by (auto simp: cluster_inv_def)
  from es k have eok: "election_ok N (aT ?a) (aG ?a) ?e" by (simp add: elections_ok_def)
  then have l: "?l < N" by (simp add: election_ok_def)
  with nodes have ni: "node_inv N ?l ?n" by simp
  define E where "E g = ?e\<lparr>received_votes := v, calls := (calls ?e)(r := g)\<rparr>" for g
  have over: "election_ok N T G (E Over)" if "election_ok N T G ?e" "v = received_votes ?e" for T G
    using call_upd_ok [OF that(1), of r Over] an that(2) by (simp add: E_def)
  from h show ?thesis
  proof (cases rule: handle_vote_cases)
    case quiet
    with s k up an h have c': "c' = (set_node ?l ?n c)\<lparr>elections := (elections c)[k := E Over]\<rparr>"
      by (simp add: E_def Let_def)
    have "set_node ?l ?n c = c" by (simp add: set_node_def)
    with c' have "c' = c\<lparr>elections := (elections c)[k := E Over]\<rparr>" by simp
    with simulates_call [OF inv k over [OF _ quiet(2)]] show ?thesis by simp
  next
    case (down r')
    with s k up an h have c': "c' = (set_node ?l n' c)\<lparr>elections := (elections c)[k := E Over]\<rparr>"
      by (simp add: E_def Let_def)
    have "vmove ?n n'" "node_inv N ?l n'" using down ni by (simp_all add: vmove_def node_inv_def wired_def)
    from simulates_node [OF inv l this] have si: "simulates N c (set_node ?l n' c)" .
    let ?a' = "abs_cluster (set_node ?l n' c)"
    from si have es': "elections_ok N (aT ?a') (aG ?a') (elections c)" by (simp add: simulates_def)
    with k have "election_ok N (aT ?a') (aG ?a') ?e" by (simp add: elections_ok_def)
    from elections_ok_upd [OF es' over [OF this down(5)], of k] si show ?thesis
      by (simp add: simulates_def c')
  next
    case (counted r')
    with s k up an h have c': "c' = (set_node ?l ?n c)\<lparr>elections := (elections c)[k := E Tallied]\<rparr>"
      by (simp add: E_def Let_def)
    have "set_node ?l ?n c = c" by (simp add: set_node_def)
    with c' have c'': "c' = c\<lparr>elections := (elections c)[k := E Tallied]\<rparr>" by simp
    have "election_ok N (aT ?a) (aG ?a) (E Tallied)"
      using tally_upd_ok(1) [OF eok an _ _ N] counted by (simp add: E_def)
    with simulates_call [OF inv k] c'' show ?thesis by simp
  next
    case (won r' msg)
    with s k up an h have c': "c' = (set_node ?l n' c)\<lparr>elections := (elections c)[k := E Tallied],
        winners := (currentTerm n', ?l) # winners c\<rparr>"
      by (simp add: E_def Let_def)
    have ok: "election_ok N (aT ?a) (aG ?a) (E Tallied)" and op: "opened ?e = currentTerm ?n" and
      maj: "int N < 2 * received_votes (E Tallied) \<Longrightarrow> majority N (insert ?l (nat ` tallied (E Tallied)))"
      using tally_upd_ok [OF eok an _ _ N] won by (simp_all add: E_def)
    have "n_replicas (Meta ?n) = int N" using ni by (simp add: node_inv_def wired_def)
    with won maj have q: "majority N (insert ?l (nat ` tallied (E Tallied)))" by (simp add: E_def)
    have sub: "nat ` tallied (E Tallied) \<subseteq> {p. (p, aT ?a ?l, ?l) \<in> aG ?a}"
      using tallied_range(2) [OF ok] op by (auto simp: E_def)
    have "vstep (majority N) N ?a (?a\<lparr>aS := (aS ?a)(?l := Leader), aW := insert (aT ?a ?l, ?l) (aW ?a)\<rparr>)"
      using won(2) by (intro v_win [where quorum = "majority N", OF l _ sub q]) simp
    moreover have "abs_cluster c' = ?a\<lparr>aS := (aS ?a)(?l := Leader), aW := insert (aT ?a ?l, ?l) (aW ?a)\<rparr>"
      using won by (intro vstate_eqI) (auto simp: c' abs_cluster_def)
    ultimately have st: "(vstep (majority N) N)\<^sup>*\<^sup>* ?a (abs_cluster c')" by auto
    have es': "elections_ok N (aT (abs_cluster c')) (aG (abs_cluster c')) (elections c)"
      by (rule elections_kept [OF inv st])
    have eq: "aT (abs_cluster c') = aT ?a" "aG (abs_cluster c') = aG ?a" using won by (auto simp: c' abs_cluster_def)
    have el: "elections c' = (elections c)[k := E Tallied]" by (simp add: c')
    from elections_ok_upd [OF es', of "E Tallied" k] ok have
      "elections_ok N (aT (abs_cluster c')) (aG (abs_cluster c')) (elections c')" by (simp only: eq el)
    moreover have "node_inv N ?l n'" using won ni by (simp add: node_inv_def wired_def)
    ultimately show ?thesis using st nodes inv by (simp add: simulates_def c' cluster_inv_def)
  qed
qed

lemma simulates_step:
  assumes inv: "cluster_inv N c" and N: "N < 2147483648" and adm: "admissible c ev" and s: "step ev c = Some c'"
  shows "simulates N c c'"
proof (cases ev)
  case (Timeout i)
  with simulates_Timeout inv N adm s show ?thesis by blast
next
  case (VoteSend k r)
  with simulates_VoteSend inv adm s show ?thesis by blast
next
  case (VoteDeliver k r)
  with simulates_VoteDeliver inv s show ?thesis by blast
next
  case (VoteReply k r)
  with simulates_VoteReply inv N s show ?thesis by blast
next
  case (VoteError k r)
  with simulates_VoteError inv s show ?thesis by blast
next
  case (Append i m)
  let ?n = "nodes c i"
  from Append s inv have i: "i < N" by (auto simp: cluster_inv_def split: if_splits)
  with inv have ni: "node_inv N i ?n" by (simp add: cluster_inv_def)
  show ?thesis
  proof (cases "AppendEntries m ?n")
    case (Inr p)
    then obtain resp n' where "AppendEntries m ?n = Inr (resp, n')" by (cases p) auto
    with AppendEntries_vmove [OF this ni] simulates_same_node [OF inv i] Append s show ?thesis
      by (auto split: if_splits)
  next
    case (Inl e)
    let ?f = "if steps_down m ?n then ToFollower (ae_Term m) ?n else ?n"
    have "vote_saved ?f" "vmove ?n (?f\<lparr>state := Follower\<rparr>)"
      using ni by (auto simp: node_inv_def vmove_def steps_down_def)
    moreover have "restart i (disk ?f) c = Some c'" using s Append Inl by (auto split: if_splits)
    ultimately show ?thesis using simulates_restart [OF inv N i] by blast
  qed
next
  case (AppendReply i rid u m resp)
  then have i: "i < N" using s inv by (auto simp: cluster_inv_def split: if_splits)
  with inv have ni: "node_inv N i (nodes c i)" by (simp add: cluster_inv_def)
  show ?thesis
    using s AppendReply simulates_same_node [OF inv i LeaderSendAE_resp_vmove [OF _ ni]] simulates_crash [OF inv N i]
    by (auto split: if_splits sum.splits)
next
  case (NoopDone i)
  then have i: "i < N" using s inv by (auto simp: cluster_inv_def split: if_splits)
  with inv have "node_inv N i (nodes c i)" by (simp add: cluster_inv_def)
  from simulates_same_node [OF inv i ToLeader_success_vmove [OF this]] s NoopDone show ?thesis
    by (auto split: if_splits)
next
  case (WriteAppend i opr client)
  then have i: "i < N" using s inv by (auto simp: cluster_inv_def split: if_splits)
  with inv have ni: "node_inv N i (nodes c i)" by (simp add: cluster_inv_def)
  show ?thesis
    using s WriteAppend simulates_same_node [OF inv i WriteCommand_append_vmove [OF _ ni]] simulates_crash [OF inv N i]
    by (auto split: if_splits sum.splits)
next
  case (WriteDone i ok opr client)
  then have i: "i < N" using s inv by (auto simp: cluster_inv_def split: if_splits)
  with inv have "node_inv N i (nodes c i)" by (simp add: cluster_inv_def)
  from simulates_same_node [OF inv i WriteCommand_finish_vmove [OF this]] s WriteDone show ?thesis
    by (auto split: if_splits)
next
  case (Applied i applied)
  then have i: "i < N" using s inv by (auto simp: cluster_inv_def split: if_splits)
  with inv have "node_inv N i (nodes c i)" by (simp add: cluster_inv_def)
  from simulates_same_node [OF inv i apply_done_vmove [OF this]] s Applied show ?thesis
    by (auto split: if_splits)
next
  case (Stub i j b)
  then have i: "i < N" using s inv by (auto simp: cluster_inv_def split: if_splits)
  with inv have "node_inv N i (nodes c i)" by (simp add: cluster_inv_def)
  from simulates_same_node [OF inv i set_stub_vmove [OF this]] s Stub show ?thesis
    by (auto split: if_splits)
next
  case (Restart i)
  then have "i < N" "restart i (disk (nodes c i)) c = Some c'"
    using s inv by (auto simp: cluster_inv_def split: if_splits)
  with simulates_crash [OF inv N] show ?thesis by blast
qed

lemma booted_ok:
  assumes "N < 2147483648" and "i < N"
  shows "node_inv N i (booted N i) \<and> currentTerm (booted N i) = 0 \<and> votedFor (booted N i) = -1 \<and>
     state (booted N i) = Follower"
proof -
  have f: "file_ok NoFile" by (simp add: file_ok_def)
  from boot_node [OF f assms] obtain n where n: "boot N i NoFile = Inr n" "node_state n = disk_state NoFile"
    "state n = Follower" "disk n = NoFile" "connected N i n" by blast
  have ds: "disk_state NoFile = (0, -1, [], -1, -1)" by (simp add: disk_state_def disk_int32_def disk_log_def)
  with n(2) have v: "currentTerm n = 0" "votedFor n = -1" by (simp_all add: node_state_def)
  have "wired N i n" using n(5) by (simp add: wired_def connected_def)
  moreover have "vote_saved n" using n(4) ds v f by (simp add: vote_saved_def)
  ultimately show ?thesis using n(1,3) v by (simp add: booted_def node_inv_def)
qed

lemma cluster_inv_init:
  assumes "N < 2147483648"
  shows "cluster_inv N (cluster_init N)"
  using booted_ok [OF assms]
  by (simp add: cluster_inv_def cluster_init_def elections_ok_def vinv_defs)

lemma reachable_inv: "reachable N c \<Longrightarrow> N < 2147483648 \<Longrightarrow> cluster_inv N c"
proof (induction rule: reachable.induct)
  case (move c ev c')
  with simulates_step simulates_inv show ?case by blast
qed (rule cluster_inv_init)

section \<open>Runs\<close>

fun admissible_run :: "event list \<Rightarrow> cluster \<Rightarrow> bool" where
  "admissible_run [] c = True"
| "admissible_run (ev # evs) c =
     (admissible c ev \<and> (case step ev c of None \<Rightarrow> False | Some c' \<Rightarrow> admissible_run evs c'))"

lemma run_reachable:
  "reachable N c \<Longrightarrow> admissible_run evs c \<Longrightarrow> run evs c = Some c' \<Longrightarrow> reachable N c'"
proof (induction evs arbitrary: c)
  case (Cons ev evs)
  from Cons.prems(2) obtain c1 where c1: "admissible c ev" "step ev c = Some c1" "admissible_run evs c1"
    by (auto split: option.splits)
  with Cons.prems have "run evs c1 = Some c'" by simp
  with Cons.IH [OF move [OF Cons.prems(1) c1(1,2)] c1(3)] show ?case by blast
qed simp

text \<open>An election among three replicas that replica 2 wins with the vote of replica 0.\<close>

definition good_run :: "event list" where
  "good_run = [Timeout 2, VoteSend 0 0, VoteDeliver 0 0, VoteReply 0 0]"

lemma good_run_facts:
  "map_option (\<lambda>c. (winners c, grants c, map (\<lambda>i. (state (nodes c i), currentTerm (nodes c i), votedFor (nodes c i))) [0, 1, 2]))
     (run good_run (cluster_init 3))
   = Some ([(1, 2)], [(0, 1, 1, 2)], [(Follower, 1, 2), (Follower, 0, -1), (Leader, 1, 2)])"
  by code_simp

lemma good_run_admissible: "admissible_run good_run (cluster_init 3)"
  by code_simp

lemma good_run_reachable:
  obtains c where "run good_run (cluster_init 3) = Some c" "reachable 3 c" "winners c = [(1, 2)]"
    "grants c = [(0, 1, 1, 2)]" "state (nodes c 2) = Leader" "currentTerm (nodes c 2) = 1"
    "currentTerm (nodes c 0) = 1" "votedFor (nodes c 0) = 2"
  using good_run_facts run_reachable [OF start good_run_admissible] by auto

text \<open>
  Replica 2 gets the vote of replica 0 in term 1 and times out again; a goroutine of its first
  election that starts late asks replica 1 in term 2, and the answer is counted in the first
  election.  Replica 3 times out twice and collects the votes of replicas 0 and 4 in term 2.
\<close>

definition late_run :: "event list" where
  "late_run =
     [Timeout 2, VoteSend 0 0, VoteDeliver 0 0, VoteReply 0 0, Timeout 2,
      VoteSend 0 1, VoteDeliver 0 1, VoteReply 0 1,
      Timeout 3, Timeout 3,
      VoteSend 3 0, VoteDeliver 3 0, VoteReply 3 0, VoteSend 3 4, VoteDeliver 3 4, VoteReply 3 4]"

text \<open>In a cluster of five two replicas are leaders of term 2 then.\<close>

lemma late_goroutine_two_leaders:
  "map_option (\<lambda>c. (winners c, state (nodes c 2), currentTerm (nodes c 2), state (nodes c 3), currentTerm (nodes c 3)))
     (run late_run (cluster_init 5))
   = Some ([(2, 3), (2, 2)], Leader, 2, Leader, 2)"
  by code_simp

text \<open>The two ways in which an event breaks the condition.\<close>

definition late_goroutine :: "cluster \<Rightarrow> event \<Rightarrow> bool" where
  "late_goroutine c ev \<longleftrightarrow> (\<exists>k r. ev = VoteSend k r \<and> currentTerm (nodes c (owner (elections c ! k))) \<noteq> opened (elections c ! k))"

definition term_overflow :: "cluster \<Rightarrow> event \<Rightarrow> bool" where
  "term_overflow c ev \<longleftrightarrow> (\<exists>i. ev = Timeout i \<and> \<not> (in_i32 (currentTerm (nodes c i)) \<and> currentTerm (nodes c i) < max_i32))"

lemma admissible_iff: "admissible c ev \<longleftrightarrow> \<not> late_goroutine c ev \<and> \<not> term_overflow c ev"
  by (cases ev) (auto simp: late_goroutine_def term_overflow_def)

lemma admissible_run_event:
  assumes "admissible_run (before @ ev # after) c" and "run before c = Some c1"
  shows "admissible c1 ev"
  using assms
proof (induction before arbitrary: c)
  case (Cons e before)
  from Cons.prems(2) obtain c2 where "step e c = Some c2" "run before c2 = Some c1"
    by (auto simp: bind_eq_Some_conv)
  with Cons.IH [of c2] Cons.prems(1) show ?case by simp
qed simp

lemma run_admissible_or:
  assumes "run evs c = Some c'"
  shows "admissible_run evs c \<or> (\<exists>before ev after c1. evs = before @ ev # after \<and> run before c = Some c1 \<and>
     \<not> admissible c1 ev)"
  using assms
proof (induction evs arbitrary: c)
  case (Cons ev evs)
  then obtain c1 where c1: "step ev c = Some c1" "run evs c1 = Some c'" by (auto simp: bind_eq_Some_conv)
  show ?case
  proof (cases "admissible c ev")
    case False
    then show ?thesis by (intro disjI2 exI [of _ "[]"] exI [of _ ev] exI [of _ evs] exI [of _ c]) simp
  next
    case True
    from Cons.IH [OF c1(2)] show ?thesis
    proof
      assume "admissible_run evs c1"
      with True c1(1) show ?thesis by simp
    next
      assume "\<exists>before e after c2. evs = before @ e # after \<and> run before c1 = Some c2 \<and> \<not> admissible c2 e"
      then obtain before e after c2 where b: "evs = before @ e # after" "run before c1 = Some c2" "\<not> admissible c2 e" by blast
      then have "run (ev # before) c = Some c2" using c1(1) by simp
      with b(1,3) show ?thesis by (intro disjI2 exI [of _ "ev # before"] exI [of _ e] exI [of _ after] exI [of _ c2]) simp
    qed
  qed
qed simp

text \<open>A reply's term is at most the term that the voter is in.\<close>

lemma grants_terms: "reachable N c \<Longrightarrow> (x, v, t, l) \<in> set (grants c) \<Longrightarrow> t \<le> v"
proof (induction rule: reachable.induct)
  case start
  then show ?case by (simp add: cluster_init_def)
next
  case (move c ev c')
  have "t \<le> v \<or> (x, v, t, l) \<in> set (grants c)"
  proof (cases ev)
    case (VoteDeliver k r)
    then show ?thesis using move by (auto simp: Let_def split_beta split: if_splits call.splits)
  qed (use move in \<open>auto simp: Let_def restart_def split_beta split: if_splits sum.splits call.splits vote_outcome.splits\<close>)
  with move.IH show ?case by blast
qed

lemma single_no_winner: "reachable N c \<Longrightarrow> N = 1 \<Longrightarrow> winners c = []"
proof (induction rule: reachable.induct)
  case start
  then show ?case by (simp add: cluster_init_def)
next
  case (move c ev c')
  have "cluster_inv 1 c" using reachable_inv move by simp
  then have es: "elections_ok 1 (aT (abs_cluster c)) (aG (abs_cluster c)) (elections c)" by (simp add: cluster_inv_def)
  have none: "calls (elections c ! k) r = Over" if "k < length (elections c)" for k r
  proof -
    have "election_ok 1 (aT (abs_cluster c)) (aG (abs_cluster c)) (elections c ! k)"
      using es that by (simp add: elections_ok_def)
    then have "call_ok 1 (aT (abs_cluster c)) (aG (abs_cluster c)) (owner (elections c ! k)) (opened (elections c ! k)) r
        (calls (elections c ! k) r)" "owner (elections c ! k) = 0"
      by (auto simp: election_ok_def)
    then show ?thesis by (cases "calls (elections c ! k) r") auto
  qed
  show ?case
    using move none
    by (cases ev) (auto simp: Let_def restart_def split: if_splits sum.splits)
qed

section \<open>Properties\<close>

text \<open>
  C1: election safety, with the one way in which the code can lose it: in every run of the cluster,
  whatever is lost, delayed or restarted, whatever AppendEntries traffic there is and in whatever
  order the vote goroutines are scheduled, two different replicas have become leader in the same term
  only if some vote goroutine has built its request when its candidate was no longer in the term
  of the election that started it, or a term counter was at its maximum.  (The witness is such a
  run: two leaders of one term after a late goroutine.)
\<close>

theorem election_safety:
  assumes "run evs (cluster_init N) = Some c" and "N < 2147483648" and "(t, l) \<in> set (winners c)"
    and "(t, l') \<in> set (winners c)"
  shows "l = l' \<or> (\<exists>before ev after c1. evs = before @ ev # after \<and> run before (cluster_init N) = Some c1 \<and>
     (late_goroutine c1 ev \<or> term_overflow c1 ev))"
proof (cases "admissible_run evs (cluster_init N)")
  case True
  from run_reachable [OF start this assms(1)] have "cluster_inv N c" using reachable_inv assms(2) by blast
  then have "vinv (majority N) N (abs_cluster c)" by (simp add: cluster_inv_def)
  from maj.one_winner [OF this] assms(3,4) show ?thesis by simp
next
  case False
  with run_admissible_or [OF assms(1)] show ?thesis unfolding admissible_iff by blast
qed

theorem election_safety_witness:
  "\<exists>c before ev after c1. run late_run (cluster_init 5) = Some c \<and> state (nodes c 2) = Leader \<and> state (nodes c 3) = Leader \<and>
     currentTerm (nodes c 2) = currentTerm (nodes c 3) \<and> late_run = before @ ev # after \<and>
     run before (cluster_init 5) = Some c1 \<and> (late_goroutine c1 ev \<or> term_overflow c1 ev)"
proof -
  obtain c where c: "run late_run (cluster_init 5) = Some c" "winners c = [(2, 3), (2, 2)]" "state (nodes c 2) = Leader"
      "state (nodes c 3) = Leader" "currentTerm (nodes c 2) = currentTerm (nodes c 3)"
    using late_goroutine_two_leaders by auto
  have w: "(2, 3) \<in> set (winners c)" "(2, 2) \<in> set (winners c)" "(5::nat) < 2147483648" "(3::nat) \<noteq> 2" by (simp_all add: c(2))
  from election_safety [OF c(1) w(3,1,2)] w(4) c show ?thesis by blast
qed

text \<open>
  At most one leader per term: two replicas that are in the role of leader at the same
  time are in different terms.
\<close>

theorem one_leader_per_term:
  assumes "reachable N c" and "N < 2147483648" and "i < N" and "j < N"
    and "state (nodes c i) = Leader" and "state (nodes c j) = Leader"
    and "currentTerm (nodes c i) = currentTerm (nodes c j)"
  shows "i = j"
proof -
  have "vinv (majority N) N (abs_cluster c)" using reachable_inv [OF assms(1,2)] by (simp add: cluster_inv_def)
  from maj.one_leader [OF this] assms(3-7) show ?thesis by simp
qed

theorem one_leader_per_term_witness:
  "\<exists>c. run good_run (cluster_init 3) = Some c \<and>
     {i. i < 3 \<and> state (nodes c i) = Leader \<and> currentTerm (nodes c i) = 1} = {2}"
proof -
  obtain c where c: "run good_run (cluster_init 3) = Some c" "reachable 3 c" "state (nodes c 2) = Leader"
    "currentTerm (nodes c 2) = 1" using good_run_reachable by blast
  have "i = 2" if "i < 3" "state (nodes c i) = Leader" "currentTerm (nodes c i) = 1" for i
    using one_leader_per_term [OF c(2) _ that(1) _ that(2) c(3)] that(3) c(4) by simp
  then have "{i. i < 3 \<and> state (nodes c i) = Leader \<and> currentTerm (nodes c i) = 1} = {2}"
    using c(3,4) by (intro equalityI subsetI) simp_all
  with c(1) show ?thesis by blast
qed

text \<open>
  C25: one vote per term of the voter: in every run of the cluster all replies with a vote that a
  replica gives while it is in one term, before and after restarts, and also those to late requests of
  older terms, name the same candidate; the term of such a reply is not beyond the voter's, and the
  candidate has reached the voter's term, so that it no longer counts a reply of an older
  term.  As for \<open>election_safety\<close>, the exceptions are runs in which a vote goroutine builds its
  request after its candidate has left the term of the election, or a term is at its maximum.
\<close>

theorem one_vote_per_term:
  assumes "run evs (cluster_init N) = Some c" and "N < 2147483648" and "(x, v, t, l) \<in> set (grants c)"
    and "(x, v, t', l') \<in> set (grants c)"
  shows "l = l' \<and> t \<le> v \<and> v \<le> currentTerm (nodes c l) \<or>
     (\<exists>before ev after c1. evs = before @ ev # after \<and> run before (cluster_init N) = Some c1 \<and>
        (late_goroutine c1 ev \<or> term_overflow c1 ev))"
proof (cases "admissible_run evs (cluster_init N)")
  case True
  have r: "reachable N c" by (rule run_reachable [OF start True assms(1)])
  then have "vinv (majority N) N (abs_cluster c)" using reachable_inv assms(2) by (simp add: cluster_inv_def)
  moreover have "(x, v, l) \<in> votes_of c" "(x, v, l') \<in> votes_of c" using assms(3,4) by (force simp: votes_of_def)+
  ultimately have "l = l'" "v \<le> currentTerm (nodes c l)" by (auto simp: vinv_def grants_unique_def grants_ok_def)
  with grants_terms [OF r assms(3)] show ?thesis by blast
next
  case False
  with run_admissible_or [OF assms(1)] show ?thesis unfolding admissible_iff by blast
qed

theorem one_vote_per_term_witness:
  "\<exists>c. run good_run (cluster_init 3) = Some c \<and> {l. (0, 1, 1, l) \<in> set (grants c)} = {2} \<and> 1 \<le> currentTerm (nodes c 2)"
proof -
  obtain c where c: "run good_run (cluster_init 3) = Some c" "reachable 3 c" "grants c = [(0, 1, 1, 2)]"
    using good_run_reachable by blast
  from c(3) have g: "(0, 1, 1, 2) \<in> set (grants c)" by simp
  have N: "(3::nat) < 2147483648" by simp
  have no: "\<not> late_goroutine c1 ev \<and> \<not> term_overflow c1 ev"
    if "good_run = before @ ev # after" "run before (cluster_init 3) = Some c1" for before ev after c1
    using admissible_run_event [of before ev after, OF good_run_admissible [unfolded that(1)] that(2)] admissible_iff by blast
  have "l = 2 \<and> 1 \<le> currentTerm (nodes c 2)" if "(0, 1, 1, l) \<in> set (grants c)" for l
    using one_vote_per_term [OF c(1) N that g] one_vote_per_term [OF c(1) N g g] no by blast
  then have "{l. (0, 1, 1, l) \<in> set (grants c)} = {2} \<and> 1 \<le> currentTerm (nodes c 2)" using g by blast
  then show ?thesis using c(1) by blast
qed

text \<open>
  C26: what a replica has promised is on disk: in every reachable state the file of each
  replica holds its current term and its vote.
\<close>

theorem term_and_vote_on_disk:
  assumes "reachable N c" and "N < 2147483648" and "i < N"
  shows "file_ok (disk (nodes c i)) \<and> fst (disk_state (disk (nodes c i))) = currentTerm (nodes c i) \<and>
     fst (snd (disk_state (disk (nodes c i)))) = votedFor (nodes c i)"
  using reachable_inv [OF assms(1,2)] assms(3) by (simp add: cluster_inv_def node_inv_def vote_saved_def)

theorem term_and_vote_on_disk_witness:
  "\<exists>c. run good_run (cluster_init 3) = Some c \<and> fst (disk_state (disk (nodes c 0))) = 1 \<and>
     fst (snd (disk_state (disk (nodes c 0)))) = 2"
proof -
  obtain c where c: "run good_run (cluster_init 3) = Some c" "reachable 3 c" "currentTerm (nodes c 0) = 1"
    "votedFor (nodes c 0) = 2" using good_run_reachable by blast
  from term_and_vote_on_disk [OF c(2), of 0] c show ?thesis by simp
qed

text \<open>
  A cluster of one replica never has a leader: the vote count is only compared with the
  majority when a reply arrives, and there is no peer to reply.
\<close>

theorem single_replica_never_leads:
  assumes "reachable 1 c"
  shows "state (nodes c 0) \<noteq> Leader"
proof -
  have "winners c = []" using single_no_winner [OF assms] by simp
  moreover have "vinv (majority 1) 1 (abs_cluster c)" using reachable_inv [OF assms] by (simp add: cluster_inv_def)
  ultimately show ?thesis by (auto simp: vinv_def leaders_won_def)
qed

theorem single_replica_never_leads_witness:
  "\<exists>c. run [Timeout 0] (cluster_init 1) = Some c \<and> state (nodes c 0) \<noteq> Leader"
proof -
  have a: "admissible_run [Timeout 0] (cluster_init 1)" by code_simp
  have "map_option winners (run [Timeout 0] (cluster_init 1)) = Some []" by code_simp
  then obtain c where c: "run [Timeout 0] (cluster_init 1) = Some c" by auto
  from single_replica_never_leads [OF run_reachable [OF start a c]] c show ?thesis by blast
qed

end
