(* ===== verification/Raft_Progress.thy ===== *)
theory Raft_Progress
  imports Raft_Cluster
begin

text \<open>
  Progress of elections in the cluster of \<open>Raft_Cluster\<close>: whatever has happened before, a replica
  whose timer fires becomes leader of the next term when enough of the others, in terms not
  beyond its own and with logs not beyond its own, answer its requests promptly.  The run is
  the one that the code takes when nothing interferes: per voter the request
  (\<^verbatim>\<open>src/raft/election.go\<close>), its handling (\<^verbatim>\<open>src/raft/rpcs.go\<close>) and the handling of the reply.
\<close>

section \<open>The exchange of votes\<close>

text \<open>The three events of one vote, and the events among \<open>evs\<close> that belong to the voter \<open>j\<close>.\<close>

definition ballot :: "nat \<Rightarrow> nat \<Rightarrow> event list" where
  "ballot k j = [VoteSend k (int j), VoteDeliver k (int j), VoteReply k (int j)]"

definition ballot_in :: "nat \<Rightarrow> event list \<Rightarrow> nat \<Rightarrow> event list" where
  "ballot_in k evs j = filter (\<lambda>ev. ev \<in> set (ballot k j)) evs"

text \<open>
  The exchange of all votes of the election \<open>k\<close> with the voters \<open>js\<close>: the three events of each
  voter are in their order, those of different voters are interleaved in any way.
\<close>

definition exchange :: "nat \<Rightarrow> nat list \<Rightarrow> event list \<Rightarrow> bool" where
  "exchange k js evs \<longleftrightarrow> (\<forall>ev \<in> set evs. \<exists>j \<in> set js. ev \<in> set (ballot k j)) \<and> (\<forall>j \<in> set js. ballot_in k evs j = ballot k j)"

definition supports :: "int \<Rightarrow> RequestVoteMessage \<Rightarrow> RaftNode \<Rightarrow> bool" where
  "supports t m p \<longleftrightarrow> currentTerm p < t \<and> up_to_date m (log p)"

text \<open>How far a vote is, when the events \<open>es\<close> of the voter are still to come.\<close>

definition voter_ok :: "nat \<Rightarrow> int \<Rightarrow> RaftNode \<Rightarrow> cluster \<Rightarrow> event list \<Rightarrow> nat \<Rightarrow> bool" where
  "voter_ok k t n c es j \<longleftrightarrow>
     (let g = calls (elections c ! k) (int j)
      in es = ballot k j \<and> g = Spawned \<and> supports t (RequestVote_args n) (nodes c j) \<or>
         es = drop 1 (ballot k j) \<and> g = Sent (RequestVote_args n) \<and> supports t (RequestVote_args n) (nodes c j) \<or>
         es = drop 2 (ballot k j) \<and> (\<exists>resp. g = Answered resp \<and> VoteGranted resp \<and> rvr_Term resp = t) \<or>
         es = [])"

text \<open>The candidate \<open>i\<close> in its election \<open>k\<close> of term \<open>t\<close>.\<close>

definition campaigning :: "nat \<Rightarrow> nat \<Rightarrow> int \<Rightarrow> cluster \<Rightarrow> bool" where
  "campaigning i k t c \<longleftrightarrow> k < length (elections c) \<and> owner (elections c ! k) = i \<and>
     alive (elections c ! k) \<and> opened (elections c ! k) = t"

definition canvassing :: "nat \<Rightarrow> nat \<Rightarrow> nat \<Rightarrow> int \<Rightarrow> RaftNode \<Rightarrow> nat list \<Rightarrow> event list \<Rightarrow> cluster \<Rightarrow> bool" where
  "canvassing N i k t n js evs c \<longleftrightarrow> campaigning i k t c \<and> nodes c i = n \<and> state n = Candidate \<and>
     currentTerm n = t \<and> n_replicas (Meta n) = int N \<and>
     received_votes (elections c ! k) = 1 + int (card {j \<in> set js. ballot_in k evs j = []}) \<and>
     2 * received_votes (elections c ! k) \<le> int N \<and> (\<forall>j \<in> set js. voter_ok k t n c (ballot_in k evs j) j)"

text \<open>After the victory the other votes are still exchanged.\<close>

definition late_ok :: "nat \<Rightarrow> cluster \<Rightarrow> event list \<Rightarrow> nat \<Rightarrow> bool" where
  "late_ok k c es j \<longleftrightarrow>
     (let g = calls (elections c ! k) (int j)
      in es = ballot k j \<and> g = Spawned \<or> es = drop 1 (ballot k j) \<and> (\<exists>m. g = Sent m) \<or>
         es = drop 2 (ballot k j) \<and> (\<exists>resp. g = Answered resp) \<or> es = [])"

definition elected_in :: "nat \<Rightarrow> nat \<Rightarrow> int \<Rightarrow> RaftNode \<Rightarrow> nat list \<Rightarrow> event list \<Rightarrow> cluster \<Rightarrow> bool" where
  "elected_in i k t n js evs c \<longleftrightarrow> campaigning i k t c \<and> state (nodes c i) = Leader \<and> currentTerm (nodes c i) = t \<and>
     (t, i) \<in> set (winners c) \<and> log (nodes c i) = log n @ [noop_entry t] \<and>
     (\<forall>j \<in> set js. late_ok k c (ballot_in k evs j) j)"

lemma ballot_in_own:
  "ev \<in> set (ballot k j) \<Longrightarrow> ballot_in k (ev # evs) j = ev # ballot_in k evs j"
  by (simp add: ballot_in_def)

lemma ballot_in_other:
  "ev \<in> set (ballot k j) \<Longrightarrow> x \<noteq> j \<Longrightarrow> ballot_in k (ev # evs) x = ballot_in k evs x"
  by (auto simp: ballot_in_def ballot_def)

lemma voted_set:
  assumes "ev \<in> set (ballot k j)" and "j \<in> set js"
  shows "{x \<in> set js. ballot_in k evs x = []} =
     (if ballot_in k evs j = [] then insert j {x \<in> set js. ballot_in k (ev # evs) x = []}
      else {x \<in> set js. ballot_in k (ev # evs) x = []})"
    "j \<notin> {x \<in> set js. ballot_in k (ev # evs) x = []}"
proof -
  have own: "ballot_in k (ev # evs) j = ev # ballot_in k evs j" by (rule ballot_in_own [OF assms(1)])
  have other: "ballot_in k (ev # evs) x = ballot_in k evs x" if "x \<noteq> j" for x by (rule ballot_in_other [OF assms(1) that])
  show "{x \<in> set js. ballot_in k evs x = []} =
     (if ballot_in k evs j = [] then insert j {x \<in> set js. ballot_in k (ev # evs) x = []}
      else {x \<in> set js. ballot_in k (ev # evs) x = []})"
  proof (rule set_eqI)
    fix x
    show "x \<in> {x \<in> set js. ballot_in k evs x = []} \<longleftrightarrow>
       x \<in> (if ballot_in k evs j = [] then insert j {x \<in> set js. ballot_in k (ev # evs) x = []}
            else {x \<in> set js. ballot_in k (ev # evs) x = []})"
      using own other [of x] assms(2) by (cases "x = j") simp_all
  qed
  show "j \<notin> {x \<in> set js. ballot_in k (ev # evs) x = []}" by (simp add: own)
qed

lemma voter_late: "voter_ok k t n c es j \<Longrightarrow> late_ok k c es j"
  by (auto simp: voter_ok_def late_ok_def Let_def)

text \<open>What the events of the voter \<open>j\<close> leave alone of another voter.\<close>

lemma late_other:
  assumes "elections c' = (elections c)[k := e']" and "x \<noteq> j" and "k < length (elections c)"
    and "calls e' = (calls (elections c ! k))(int j := g)"
  shows "late_ok k c' es x = late_ok k c es x"
  using assms by (simp add: late_ok_def)

lemma voter_other:
  assumes "elections c' = (elections c)[k := e']" and "x \<noteq> j" and "k < length (elections c)"
    and "calls e' = (calls (elections c ! k))(int j := g)" and "nodes c' x = nodes c x"
  shows "voter_ok k t n c' es x = voter_ok k t n c es x"
  using assms by (simp add: voter_ok_def)

section \<open>One event\<close>

text \<open>A request is sent, is handled, and a reply is handled.\<close>

lemma step_send:
  assumes "campaigning i k t c" and "calls (elections c ! k) (int j) = Spawned" and "currentTerm (nodes c i) = t"
  shows "step (VoteSend k (int j)) c = Some (set_call k (int j) (Sent (RequestVote_args (nodes c i))) c)"
    "admissible c (VoteSend k (int j))"
  using assms by (simp_all add: campaigning_def)

lemma step_deliver:
  assumes "campaigning i k t c" and "calls (elections c ! k) (int j) = Sent m" and "j \<noteq> i"
  shows "\<exists>c1. step (VoteDeliver k (int j)) c = Some c1 \<and> nodes c1 = (nodes c)(j := snd (RequestVote m (nodes c j))) \<and>
     winners c1 = winners c \<and> elections c1 = (elections c)[k := (elections c ! k)
        \<lparr>calls := (calls (elections c ! k))(int j := Answered (fst (RequestVote m (nodes c j))))\<rparr>]"
  using assms by (auto simp: campaigning_def set_call_def set_node_def Let_def split_beta)

lemma campaigning_call:
  assumes "campaigning i k t c" and "elections c' = (elections c)[k := e']" and "owner e' = owner (elections c ! k)"
    and "alive e' = alive (elections c ! k)" and "opened e' = opened (elections c ! k)"
  shows "campaigning i k t c'"
  using assms by (auto simp: campaigning_def)

lemma elected_call:
  assumes "elected_in i k t n js (ev # evs) c" and "ev \<in> set (ballot k j)"
    and "elections c1 = (elections c)[k := e']" and "calls e' = (calls (elections c ! k))(int j := g)"
    and "owner e' = owner (elections c ! k)" and "alive e' = alive (elections c ! k)" and "opened e' = opened (elections c ! k)"
    and "nodes c1 i = nodes c i" and "winners c1 = winners c" and "late_ok k c1 (ballot_in k evs j) j"
  shows "elected_in i k t n js evs c1"
proof -
  have cg: "campaigning i k t c" using assms(1) by (simp add: elected_in_def)
  then have k: "k < length (elections c)" by (simp add: campaigning_def)
  have "late_ok k c1 (ballot_in k evs x) x" if "x \<in> set js" for x
  proof (cases "x = j")
    case False
    have "late_ok k c (ballot_in k (ev # evs) x) x" using assms(1) that by (simp add: elected_in_def)
    then show ?thesis unfolding ballot_in_other [OF assms(2) False] late_other [OF assms(3) False k assms(4)] .
  qed (use assms(10) in simp)
  with assms(1,8,9) campaigning_call [OF cg assms(3,5,6,7)] show ?thesis by (simp add: elected_in_def)
qed

lemma late_step:
  assumes "elected_in i k t n js (ev # evs) c" and "j \<in> set js" and "ev \<in> set (ballot k j)" and "i \<notin> set js"
  shows "\<exists>c1. step ev c = Some c1 \<and> admissible c ev \<and> elected_in i k t n js evs c1"
proof -
  let ?e = "elections c ! k"
  have inv: "campaigning i k t c" "state (nodes c i) = Leader" "currentTerm (nodes c i) = t"
    using assms(1) by (simp_all add: elected_in_def)
  have k: "k < length (elections c)" "owner ?e = i" "alive ?e" using inv(1) by (simp_all add: campaigning_def)
  have ij: "j \<noteq> i" using assms(2,4) by blast
  have "late_ok k c (ballot_in k (ev # evs) j) j" using assms(1,2) by (simp add: elected_in_def)
  then have "late_ok k c (ev # ballot_in k evs j) j" unfolding ballot_in_own [OF assms(3)] .
  then consider (send) "ev = VoteSend k (int j)" "ballot_in k evs j = drop 1 (ballot k j)" "calls ?e (int j) = Spawned"
    | (deliver) m where "ev = VoteDeliver k (int j)" "ballot_in k evs j = drop 2 (ballot k j)" "calls ?e (int j) = Sent m"
    | (reply) resp where "ev = VoteReply k (int j)" "ballot_in k evs j = []" "calls ?e (int j) = Answered resp"
    by (auto simp: late_ok_def ballot_def Let_def)
  then show ?thesis
  proof cases
    case send
    let ?c1 = "set_call k (int j) (Sent (RequestVote_args (nodes c i))) c"
    have "elected_in i k t n js evs ?c1"
      by (rule elected_call [OF assms(1,3), where e' = "?e\<lparr>calls := (calls ?e)(int j := Sent (RequestVote_args (nodes c i)))\<rparr>"])
        (use k send in \<open>simp_all add: set_call_def late_ok_def\<close>)
    with step_send [OF inv(1) send(3) inv(3)] show ?thesis unfolding send(1) by blast
  next
    case deliver
    from step_deliver [OF inv(1) deliver(3) ij] obtain c1 where
      c1: "step (VoteDeliver k (int j)) c = Some c1" "nodes c1 = (nodes c)(j := snd (RequestVote m (nodes c j)))"
        "winners c1 = winners c" "elections c1 = (elections c)[k := ?e
          \<lparr>calls := (calls ?e)(int j := Answered (fst (RequestVote m (nodes c j))))\<rparr>]" by blast
    have "elected_in i k t n js evs c1"
      by (rule elected_call [OF assms(1,3) c1(4)]) (use k deliver c1 ij in \<open>simp_all add: late_ok_def\<close>)
    with c1(1) show ?thesis unfolding deliver(1) by (intro exI [of _ c1]) simp
  next
    case reply
    let ?e' = "?e\<lparr>received_votes := received_votes ?e, calls := (calls ?e)(int j := Over)\<rparr>"
    let ?c1 = "(set_node i (nodes c i) c)\<lparr>elections := (elections c)[k := ?e']\<rparr>"
    have s: "step ev c = Some ?c1" using k reply inv(2) by (simp add: handle_vote_def Let_def)
    have "elected_in i k t n js evs ?c1"
      by (rule elected_call [OF assms(1,3), where e' = ?e']) (use k reply in \<open>simp_all add: late_ok_def\<close>)
    with s show ?thesis unfolding reply(1) by (intro exI [of _ ?c1]) simp
  qed
qed

lemma canvass_call:
  assumes "canvassing N i k t n js (ev # evs) c" and "ev \<in> set (ballot k j)" and "j \<in> set js"
    and "elections c1 = (elections c)[k := e']" and "calls e' = (calls (elections c ! k))(int j := g)"
    and "owner e' = owner (elections c ! k)" and "alive e' = alive (elections c ! k)" and "opened e' = opened (elections c ! k)"
    and "nodes c1 i = nodes c i" and "\<forall>x. x \<noteq> j \<longrightarrow> nodes c1 x = nodes c x"
    and "received_votes e' = received_votes (elections c ! k) + (if ballot_in k evs j = [] then 1 else 0)"
    and "2 * received_votes e' \<le> int N" and "voter_ok k t n c1 (ballot_in k evs j) j"
  shows "canvassing N i k t n js evs c1"
proof -
  have inv: "campaigning i k t c"
    "received_votes (elections c ! k) = 1 + int (card {x \<in> set js. ballot_in k (ev # evs) x = []})"
    using assms(1) by (simp_all add: canvassing_def)
  have k: "k < length (elections c)" using inv(1) by (simp add: campaigning_def)
  have e: "elections c1 ! k = e'" using assms(4) k by simp
  have "voter_ok k t n c1 (ballot_in k evs x) x" if x: "x \<in> set js" for x
  proof (cases "x = j")
    case False
    have "nodes c1 x = nodes c x" using assms(10) False by blast
    then have "voter_ok k t n c1 (ballot_in k evs x) x = voter_ok k t n c (ballot_in k evs x) x"
      by (rule voter_other [OF assms(4) False k assms(5)])
    moreover have "voter_ok k t n c (ballot_in k (ev # evs) x) x" using assms(1) x by (simp add: canvassing_def)
    ultimately show ?thesis by (simp add: ballot_in_other [OF assms(2) False])
  qed (use assms(13) in simp)
  moreover have "received_votes e' = 1 + int (card {x \<in> set js. ballot_in k evs x = []})"
    using assms(11) inv(2) voted_set [OF assms(2,3), of evs] by simp
  ultimately show ?thesis
    using assms(1,9,12) campaigning_call [OF inv(1) assms(4,6,7,8)] by (simp add: canvassing_def e)
qed

text \<open>A reply with a vote: the candidate counts it, and leads when it has a majority.\<close>

lemma canvass_reply:
  assumes "canvassing N i k t n js (VoteReply k (int j) # evs) c" and "j \<in> set js" and "i \<notin> set js"
    and "ballot_in k evs j = []" and "calls (elections c ! k) (int j) = Answered resp" and "VoteGranted resp"
    and "rvr_Term resp = t" and "N < 2147483648"
  shows "\<exists>c1. step (VoteReply k (int j)) c = Some c1 \<and>
     (canvassing N i k t n js evs c1 \<or> elected_in i k t n js evs c1)"
proof -
  let ?e = "elections c ! k" and ?v = "received_votes (elections c ! k)"
  have inv: "campaigning i k t c" "nodes c i = n" "state n = Candidate" "currentTerm n = t" "n_replicas (Meta n) = int N"
      "2 * ?v \<le> int N" "0 < ?v" "\<forall>x \<in> set js. voter_ok k t n c (ballot_in k (VoteReply k (int j) # evs) x) x"
    using assms(1) by (simp_all add: canvassing_def)
  have k: "k < length (elections c)" "owner ?e = i" "alive ?e" using inv(1) by (simp_all add: campaigning_def)
  have own: "VoteReply k (int j) \<in> set (ballot k j)" by (simp add: ballot_def)
  have i32: "i32 (?v + 1) = ?v + 1" using inv(6,7) assms(8) by (intro i32_id) auto
  let ?e' = "?e\<lparr>received_votes := ?v + 1, calls := (calls ?e)(int j := Tallied)\<rparr>"
  show ?thesis
  proof (cases "int N < 2 * (?v + 1)")
    case False
    let ?c1 = "(set_node i n c)\<lparr>elections := (elections c)[k := ?e']\<rparr>"
    have "handle_vote (Some resp) ?v n = (Counted, ?v + 1, n)"
      using False inv(3-5) assms(6,7) i32 by (simp add: handle_vote_def Let_def)
    then have "step (VoteReply k (int j)) c = Some ?c1" using k assms(5) inv(2) by (simp add: Let_def)
    moreover have "canvassing N i k t n js evs ?c1"
      by (rule canvass_call [OF assms(1) own assms(2), where e' = ?e'])
        (use False inv(2) assms(4) in \<open>simp_all add: voter_ok_def\<close>)
    ultimately show ?thesis by blast
  next
    case True
    let ?c1 = "(set_node i (snd (ToLeader_begin n)) c)\<lparr>elections := (elections c)[k := ?e']\<rparr>"
    let ?c2 = "?c1\<lparr>winners := (currentTerm (snd (ToLeader_begin n)), i) # winners ?c1\<rparr>"
    have "handle_vote (Some resp) ?v n = (Won (fst (ToLeader_begin n)), ?v + 1, snd (ToLeader_begin n))"
      using True inv(3-5) assms(6,7) i32 by (simp add: handle_vote_def Let_def split_beta)
    then have "step (VoteReply k (int j)) c = Some ?c2" using k assms(5) inv(2) by (simp add: Let_def)
    moreover have "late_ok k ?c2 (ballot_in k evs x) x" if x: "x \<in> set js" for x
    proof (cases "x = j")
      case False
      have "late_ok k c (ballot_in k (VoteReply k (int j) # evs) x) x" using inv(8) x voter_late by blast
      then show ?thesis using late_other [of ?c2 c k ?e' x j Tallied] k(1) False ballot_in_other [OF own False, of evs] by simp
    qed (simp add: assms(4) late_ok_def)
    moreover have "campaigning i k t ?c2" using inv(1) by (rule campaigning_call [where e' = ?e']) simp_all
    ultimately show ?thesis using inv(4) by (simp add: elected_in_def del: step.simps)
  qed
qed

lemma canvass_step:
  assumes "canvassing N i k t n js (ev # evs) c" and "j \<in> set js" and "ev \<in> set (ballot k j)" and "i \<notin> set js"
    and "N < 2147483648"
  shows "\<exists>c1. step ev c = Some c1 \<and> admissible c ev \<and> (canvassing N i k t n js evs c1 \<or> elected_in i k t n js evs c1)"
proof -
  let ?e = "elections c ! k" and ?m = "RequestVote_args n"
  have inv: "campaigning i k t c" "nodes c i = n" "currentTerm n = t" "2 * received_votes ?e \<le> int N"
    using assms(1) by (simp_all add: canvassing_def)
  have k: "k < length (elections c)" "owner ?e = i" "alive ?e" using inv(1) by (simp_all add: campaigning_def)
  have ij: "j \<noteq> i" using assms(2,4) by blast
  have "voter_ok k t n c (ballot_in k (ev # evs) j) j" using assms(1,2) by (simp add: canvassing_def)
  then have "voter_ok k t n c (ev # ballot_in k evs j) j" unfolding ballot_in_own [OF assms(3)] .
  then consider (send) "ev = VoteSend k (int j)" "ballot_in k evs j = drop 1 (ballot k j)" "calls ?e (int j) = Spawned"
      "supports t ?m (nodes c j)"
    | (deliver) "ev = VoteDeliver k (int j)" "ballot_in k evs j = drop 2 (ballot k j)" "calls ?e (int j) = Sent ?m"
      "supports t ?m (nodes c j)"
    | (reply) resp where "ev = VoteReply k (int j)" "ballot_in k evs j = []" "calls ?e (int j) = Answered resp"
      "VoteGranted resp" "rvr_Term resp = t"
    by (auto simp: voter_ok_def ballot_def Let_def)
  then show ?thesis
  proof cases
    case send
    let ?c1 = "set_call k (int j) (Sent ?m) c"
    have "canvassing N i k t n js evs ?c1"
      by (rule canvass_call [OF assms(1,3,2), where e' = "?e\<lparr>calls := (calls ?e)(int j := Sent ?m)\<rparr>"])
        (use k send inv(4) in \<open>simp_all add: set_call_def voter_ok_def ballot_def\<close>)
    with step_send [OF inv(1) send(3)] inv(2,3) show ?thesis unfolding send(1) by blast
  next
    case deliver
    from step_deliver [OF inv(1) deliver(3) ij] obtain c1 where
      c1: "step (VoteDeliver k (int j)) c = Some c1" "nodes c1 = (nodes c)(j := snd (RequestVote ?m (nodes c j)))"
        "winners c1 = winners c" "elections c1 = (elections c)[k := ?e
          \<lparr>calls := (calls ?e)(int j := Answered (fst (RequestVote ?m (nodes c j))))\<rparr>]" by blast
    have "VoteGranted (fst (RequestVote ?m (nodes c j)))" "rvr_Term (fst (RequestVote ?m (nodes c j))) = t"
      using RequestVote_granted [of ?m "nodes c j"] RequestVote_simps(1) [of ?m "nodes c j"] deliver(4) inv(3)
      by (simp_all add: supports_def)
    then have "canvassing N i k t n js evs c1"
      by (intro canvass_call [OF assms(1,3,2) c1(4)]) (use k deliver c1 ij inv(4) in \<open>simp_all add: voter_ok_def ballot_def\<close>)
    with c1(1) show ?thesis unfolding deliver(1) by (intro exI [of _ c1]) simp
  next
    case reply
    from canvass_reply [OF _ assms(2,4) reply(2-5) assms(5)] assms(1) show ?thesis unfolding reply(1) by simp
  qed
qed

section \<open>A campaign\<close>

lemma run_append: "run (es @ fs) c = Option.bind (run es c) (run fs)"
  by (induction es arbitrary: c) (simp_all split: bind_split)

lemma admissible_run_append:
  "run es c = Some c1 \<Longrightarrow> admissible_run (es @ fs) c \<longleftrightarrow> admissible_run es c \<and> admissible_run fs c1"
  by (induction es arbitrary: c) (auto simp: bind_eq_Some_conv)

lemma late_campaign:
  assumes "elected_in i k t n js evs c" and "i \<notin> set js" and "\<forall>ev \<in> set evs. \<exists>j \<in> set js. ev \<in> set (ballot k j)"
  shows "\<exists>c'. run evs c = Some c' \<and> admissible_run evs c \<and> elected_in i k t n js [] c'"
  using assms(1,3)
proof (induction evs arbitrary: c)
  case (Cons ev evs)
  from Cons.prems(2) obtain j where j: "j \<in> set js" "ev \<in> set (ballot k j)" by auto
  from late_step [OF Cons.prems(1) j assms(2)] obtain c1 where
    1: "step ev c = Some c1" "admissible c ev" "elected_in i k t n js evs c1" by blast
  from Cons.IH [OF 1(3)] Cons.prems(2) obtain c' where
    "run evs c1 = Some c'" "admissible_run evs c1" "elected_in i k t n js [] c'" by auto
  with 1(1,2) show ?case by (intro exI [of _ c']) (simp del: step.simps admissible.simps)
qed simp

lemma campaign:
  assumes "canvassing N i k t n js evs c" and "i \<notin> set js" and "\<forall>ev \<in> set evs. \<exists>j \<in> set js. ev \<in> set (ballot k j)"
    and "N < 2147483648" and "distinct js" and "N < 2 * (1 + length js)"
  shows "\<exists>c'. run evs c = Some c' \<and> admissible_run evs c \<and> elected_in i k t n js [] c'"
  using assms(1,3)
proof (induction evs arbitrary: c)
  case Nil
  have "{j \<in> set js. ballot_in k [] j = []} = set js" by (auto simp: ballot_in_def)
  then have "2 * (1 + int (length js)) \<le> int N" using Nil(1) distinct_card [OF assms(5)] by (simp add: canvassing_def)
  then show ?case using assms(6) by simp
next
  case (Cons ev evs)
  from Cons.prems(2) obtain j where j: "j \<in> set js" "ev \<in> set (ballot k j)" by auto
  from canvass_step [OF Cons.prems(1) j assms(2,4)] obtain c1 where
    1: "step ev c = Some c1" "admissible c ev" "canvassing N i k t n js evs c1 \<or> elected_in i k t n js evs c1" by blast
  have "\<forall>ev \<in> set evs. \<exists>j \<in> set js. ev \<in> set (ballot k j)" using Cons.prems(2) by simp
  with 1(3) Cons.IH late_campaign [OF _ assms(2)] obtain c' where
    "run evs c1 = Some c'" "admissible_run evs c1" "elected_in i k t n js [] c'" by blast
  with 1(1,2) show ?case by (intro exI [of _ c']) (simp del: step.simps admissible.simps)
qed

lemma timeout_canvasses:
  assumes "connected N i (nodes c i)" and "i < size c" and "N < 2147483648" and "set js \<subseteq> {..<N} - {i}"
    and "in_i32 (currentTerm (nodes c i))" and "currentTerm (nodes c i) < max_i32" and "2 \<le> N"
    and "\<forall>j \<in> set js. ballot_in (length (elections c)) evs j = ballot (length (elections c)) j"
    and "\<forall>j \<in> set js. currentTerm (nodes c j) \<le> currentTerm (nodes c i) \<and>
           up_to_date (RequestVote_args (nodes c i)) (log (nodes c j))"
  shows "\<exists>c1. step (Timeout i) c = Some c1 \<and> admissible c (Timeout i) \<and>
     canvassing N i (length (elections c)) (currentTerm (nodes c i) + 1) (ToCandidate (nodes c i)) js evs c1"
proof -
  let ?n = "nodes c i" and ?k = "length (elections c)"
  let ?e = "open_election i ?n (ToCandidate ?n)"
  let ?c1 = "(set_node i (ToCandidate ?n) c)\<lparr>elections := elections c @ [?e]\<rparr>"
  have N: "int N < 2147483648" using assms(3) by simp
  have t: "i32 (currentTerm ?n + 1) = currentTerm ?n + 1" using assms(5,6) by (simp add: in_i32_def i32_id)
  have "drop (length (effects ?n)) (effects (ToCandidate ?n))
      = map (Go_RequestVote \<circ> int) (filter (\<lambda>j. j \<noteq> i) [0..<N]) @ [Go_RunElectionTimer]"
    using ToCandidate_effects [OF assms(1) N] by simp
  then have sp: "calls ?e (int j) = Spawned" if "j \<in> set js" for j
    using that assms(4) by (auto simp: open_election_def)
  have args: "up_to_date (RequestVote_args (ToCandidate ?n)) l = up_to_date (RequestVote_args ?n) l" for l
    by (simp add: up_to_date_def RequestVote_args_def split_beta)
  have "voter_ok ?k (currentTerm ?n + 1) (ToCandidate ?n) ?c1 (ballot_in ?k evs j) j" if j: "j \<in> set js" for j
  proof -
    have "j \<noteq> i" using j assms(4) by auto
    moreover have "currentTerm (nodes c j) < currentTerm ?n + 1" "up_to_date (RequestVote_args ?n) (log (nodes c j))"
      "ballot_in ?k evs j = ballot ?k j"
      using assms(8,9) j by (auto simp: zless_add1_eq order.order_iff_strict)
    ultimately show ?thesis using sp [OF j] by (simp add: voter_ok_def supports_def args)
  qed
  moreover have "{j \<in> set js. ballot_in ?k evs j = []} = {}" using assms(8) by (auto simp: ballot_def)
  moreover have "n_replicas (Meta ?n) = int N" using assms(1) by (simp add: connected_def)
  moreover have "campaigning i ?k (currentTerm ?n + 1) ?c1" by (simp add: campaigning_def open_election_def t)
  moreover have "received_votes ?e = 1" by (simp add: open_election_def)
  ultimately have "canvassing N i ?k (currentTerm ?n + 1) (ToCandidate ?n) js evs ?c1"
    using t assms(7) by (simp add: canvassing_def)
  moreover have "step (Timeout i) c = Some ?c1" "admissible c (Timeout i)" using assms(2,5,6) by (simp_all add: Let_def)
  ultimately show ?thesis by blast
qed

section \<open>Properties\<close>

text \<open>
  C18: elections make progress: in every reachable state of a cluster, when the timer of a connected
  replica fires and then, before anything else happens, its requests to the members of some
  majority are sent, delivered and answered, the events of different voters interleaved in any way,
  it becomes leader of the next term with its NO-OP entry appended, provided that these voters are in
  no later term than the replica and have logs that are not more up to date.
\<close>

theorem election_succeeds:
  assumes "reachable N c" and "N < 2147483648" and "2 \<le> N" and "i < N" and "connected N i (nodes c i)"
    and "in_i32 (currentTerm (nodes c i))" and "currentTerm (nodes c i) < max_i32"
    and "distinct js" and "set js \<subseteq> {..<N} - {i}" and "N < 2 * (1 + length js)"
    and "\<forall>j \<in> set js. currentTerm (nodes c j) \<le> currentTerm (nodes c i) \<and>
           up_to_date (RequestVote_args (nodes c i)) (log (nodes c j))"
    and "exchange (length (elections c)) js evs"
  shows "\<exists>c'. run (Timeout i # evs) c = Some c' \<and> reachable N c' \<and> state (nodes c' i) = Leader \<and>
     currentTerm (nodes c' i) = currentTerm (nodes c i) + 1 \<and>
     (currentTerm (nodes c i) + 1, i) \<in> set (winners c') \<and>
     log (nodes c' i) = log (nodes c i) @ [noop_entry (currentTerm (nodes c i) + 1)]"
proof -
  let ?k = "length (elections c)" and ?t = "currentTerm (nodes c i) + 1"
  have sz: "i < size c" using reachable_inv [OF assms(1,2)] assms(4) by (simp add: cluster_inv_def)
  have ex: "\<forall>ev \<in> set evs. \<exists>j \<in> set js. ev \<in> set (ballot ?k j)" "\<forall>j \<in> set js. ballot_in ?k evs j = ballot ?k j"
    using assms(12) by (simp_all add: exchange_def)
  from timeout_canvasses [OF assms(5) sz assms(2,9,6,7,3) ex(2) assms(11)] obtain c1 where
    c1: "step (Timeout i) c = Some c1" "admissible c (Timeout i)"
      "canvassing N i ?k ?t (ToCandidate (nodes c i)) js evs c1" by blast
  have ij: "i \<notin> set js" using assms(9) by auto
  from campaign [OF c1(3) ij ex(1) assms(2,8,10)] obtain c' where
    e: "run evs c1 = Some c'" "admissible_run evs c1" "elected_in i ?k ?t (ToCandidate (nodes c i)) js [] c'" by blast
  have r: "run (Timeout i # evs) c = Some c'" using c1(1) e(1) by simp
  moreover have "admissible_run (Timeout i # evs) c" using c1(1,2) e(2) by (simp del: step.simps admissible.simps)
  then have "reachable N c'" by (rule run_reachable [OF assms(1) _ r])
  ultimately show ?thesis using e(3) by (intro exI [of _ c']) (simp add: elected_in_def del: run.simps)
qed

lemma booted_initial:
  assumes "N < 2147483648" and "i < N"
  shows "connected N i (booted N i)" "currentTerm (booted N i) = 0" "log (booted N i) = []"
proof -
  have "file_ok NoFile" by (simp add: file_ok_def)
  from boot_node [OF this assms] obtain n where
    n: "boot N i NoFile = Inr n" "node_state n = disk_state NoFile" "connected N i n" by blast
  then have "currentTerm n = 0" "log n = []" by (simp_all add: node_state_def disk_state_def disk_int32_def disk_log_def)
  with n show "connected N i (booted N i)" "currentTerm (booted N i) = 0" "log (booted N i) = []"
    by (simp_all add: booted_def)
qed

definition two_votes :: "event list" where
  "two_votes = [VoteSend 0 0, VoteSend 0 2, VoteDeliver 0 2, VoteDeliver 0 0, VoteReply 0 0, VoteReply 0 2]"

theorem election_succeeds_witness:
  "\<exists>c'. run (Timeout 1 # two_votes) (cluster_init 3) = Some c' \<and> state (nodes c' 1) = Leader \<and> currentTerm (nodes c' 1) = 1"
proof -
  let ?c = "cluster_init 3"
  have n: "nodes ?c j = booted 3 j" for j by (simp add: cluster_init_def)
  have b: "connected 3 1 (nodes ?c 1)" "currentTerm (nodes ?c 1) = 0" "log (nodes ?c 1) = []"
    "currentTerm (nodes ?c j) = 0" "log (nodes ?c j) = []" if "j < 3" for j
    using booted_initial [of 3 1] booted_initial [of 3 j] that by (simp_all add: n)
  have "up_to_date (RequestVote_args (nodes ?c 1)) []"
    using b(3) [of 0] by (simp add: up_to_date_def RequestVote_args_def split_beta)
  then have voters: "\<forall>j \<in> set [0, 2]. currentTerm (nodes ?c j) \<le> currentTerm (nodes ?c 1) \<and>
      up_to_date (RequestVote_args (nodes ?c 1)) (log (nodes ?c j))"
    using b by simp
  have ex: "exchange (length (elections ?c)) [0, 2] two_votes"
    by (simp add: cluster_init_def exchange_def ballot_in_def ballot_def two_votes_def)
  have side: "(3::nat) < 2147483648" "(2::nat) \<le> 3" "(1::nat) < 3" "in_i32 (currentTerm (nodes ?c 1))"
    "currentTerm (nodes ?c 1) < max_i32" "distinct [0::nat, 2]" "set [0, 2] \<subseteq> {..<3::nat} - {1}" "3 < 2 * (1 + length [0::nat, 2])"
    using b(2) [of 0] by (auto simp: in_i32_def)
  from election_succeeds [OF start side(1-3) b(1) [of 0] side(4-8) voters ex] obtain c' where
    "run (Timeout 1 # two_votes) ?c = Some c'" "state (nodes c' 1) = Leader" "currentTerm (nodes c' 1) = currentTerm (nodes ?c 1) + 1"
    by auto
  then show ?thesis using b(2) [of 0] by (intro exI [of _ c']) (simp del: run.simps)
qed

end
