(* ===== verification/Raft_System.thy ===== *)
theory Raft_System
  imports Raft_Session Raft_Progress
begin

text \<open>
  The whole system: the replicas of \<open>Raft_Cluster\<close> whose leaders run the loops and commands of
  \<open>Raft_Round\<close> and \<open>Raft_Service\<close>, with the apply loop and a key-value server per replica.
  Every AppendEntries message is one that the code of some leader has built.  A round is a run
  of events of the cluster, so every run of the system is a run of the cluster, and what holds
  of all reachable clusters holds of the system.
  A concrete run of five replicas shows what is lost because AppendEntries does not cut the log
  behind a conflict: a replica with a longer, older log is elected over acknowledged writes.
\<close>

section \<open>Clusters with the nodes of a round\<close>

definition with_nodes :: "nat \<Rightarrow> RaftNode \<Rightarrow> (nat \<Rightarrow> RaftNode) \<Rightarrow> cluster \<Rightarrow> cluster" where
  "with_nodes i n peers c = c\<lparr>nodes := peers(i := n)\<rparr>"

lemma with_nodes_simps [simp]:
  "size (with_nodes i n peers c) = size c" "nodes (with_nodes i n peers c) i = n"
  "j \<noteq> i \<Longrightarrow> nodes (with_nodes i n peers c) j = peers j"
  "elections (with_nodes i n peers c) = elections c" "winners (with_nodes i n peers c) = winners c"
  "grants (with_nodes i n peers c) = grants c"
  by (simp_all add: with_nodes_def)

lemma with_nodes_self: "with_nodes i (nodes c i) (nodes c) c = c"
  by (simp add: with_nodes_def)

lemma with_nodes_leader: "set_node i n' (with_nodes i n peers c) = with_nodes i n' peers c"
  by (simp add: set_node_def with_nodes_def)

lemma with_nodes_peer:
  "j \<noteq> i \<Longrightarrow> set_node j p (with_nodes i n peers c) = with_nodes i n (peers(j := p)) c"
  by (simp add: set_node_def with_nodes_def fun_upd_twist)

text \<open>Events that no scheduling condition restricts.\<close>

fun unrestricted :: "event \<Rightarrow> bool" where
  "unrestricted (VoteSend k r) = False"
| "unrestricted (Timeout i) = False"
| "unrestricted ev = True"

lemma unrestricted_admissible: "unrestricted ev \<Longrightarrow> admissible c ev"
  by (cases ev) simp_all

text \<open>A run of such events from one cluster to another.\<close>

definition leads_to :: "cluster \<Rightarrow> cluster \<Rightarrow> bool" where
  "leads_to c c' \<longleftrightarrow> (\<exists>evs. run evs c = Some c' \<and> list_all unrestricted evs)"

lemma leads_to_refl [simp]: "leads_to c c"
  unfolding leads_to_def by (intro exI [of _ "[]"]) simp

lemma leads_to_step: "step ev c = Some c1 \<Longrightarrow> unrestricted ev \<Longrightarrow> leads_to c c1"
  unfolding leads_to_def by (intro exI [of _ "[ev]"]) (simp del: step.simps)

lemma leads_to_trans [trans]:
  assumes "leads_to c c1" and "leads_to c1 c2"
  shows "leads_to c c2"
proof -
  from assms obtain es fs where "run es c = Some c1" "list_all unrestricted es"
    "run fs c1 = Some c2" "list_all unrestricted fs" by (auto simp: leads_to_def)
  then have "run (es @ fs) c = Some c2" "list_all unrestricted (es @ fs)" by (simp_all add: run_append)
  then show ?thesis unfolding leads_to_def by blast
qed

lemma unrestricted_run: "run evs c = Some c' \<Longrightarrow> list_all unrestricted evs \<Longrightarrow> admissible_run evs c"
  by (induction evs arbitrary: c)
     (auto simp: unrestricted_admissible bind_eq_Some_conv simp del: step.simps admissible.simps)

lemma leads_to_reachable: "reachable N c \<Longrightarrow> leads_to c c' \<Longrightarrow> reachable N c'"
  unfolding leads_to_def using run_reachable unrestricted_run by blast

section \<open>A round as a run\<close>

lemma peer_step:
  assumes "AppendEntries m q = Inr (resp, p)" and "q = peers j" and "j \<noteq> i" and "j < size c"
  shows "leads_to (with_nodes i n peers c) (with_nodes i n (peers(j := p)) c)"
  using assms by (intro leads_to_step [of "Append j m"]) (simp_all add: with_nodes_peer)

lemma reply_step:
  assumes "LeaderSendAE_resp rid u m (Some resp) n = Inr (next, n')" and "i < size c"
  shows "leads_to (with_nodes i n peers c) (with_nodes i n' peers c)"
  using assms by (intro leads_to_step [of "AppendReply i rid u m (Some resp)"]) (simp_all add: with_nodes_leader)

lemma LeaderSendAE_net_run:
  assumes "LeaderSendAE_net fates rid u m n (peers j) = Inr (ok, n', p')"
    and "j \<noteq> i" and "j < size c" and "i < size c"
  shows "leads_to (with_nodes i n peers c) (with_nodes i n' (peers(j := p')) c)"
  using assms(1)
proof (induction fates arbitrary: m n peers)
  case (Cons f fates)
  show ?case
  proof (cases f)
    case Delivered
    note d = Cons.prems [unfolded Delivered]
    from d show ?thesis
    proof (cases rule: delivered_inv)
      case (last resp b)
      have "leads_to (with_nodes i n peers c) (with_nodes i n (peers(j := p')) c)"
        by (rule peer_step [where peers = peers, OF last(1) refl assms(2,3)])
      from leads_to_trans [OF this reply_step [OF last(2) assms(4)]] show ?thesis .
    next
      case (more resp p1 m1 n1)
      have a: "leads_to (with_nodes i n peers c) (with_nodes i n (peers(j := p1)) c)"
        by (rule peer_step [where peers = peers, OF more(1) refl assms(2,3)])
      have "LeaderSendAE_net fates rid u m1 n1 ((peers(j := p1)) j) = Inr (ok, n', p')" using more(3) by simp
      from Cons.IH [where peers = "peers(j := p1)", OF this]
      have "leads_to (with_nodes i n1 (peers(j := p1)) c) (with_nodes i n' (peers(j := p')) c)"
        by (simp only: fun_upd_upd)
      with leads_to_trans [OF a reply_step [OF more(2) assms(4)]] show ?thesis by (rule leads_to_trans)
    qed
  next
    case ReplyLost
    with Cons.prems obtain resp where a: "AppendEntries m (peers j) = Inr (resp, p')" and n: "n' = n"
      by (auto simp: go_bind_eq_Inr)
    show ?thesis unfolding n by (rule peer_step [where peers = peers, OF a refl assms(2,3)])
  next
    case Lost
    with Cons.prems have "p' = peers j" "n' = n" by auto
    then show ?thesis by (simp only: fun_upd_triv leads_to_refl)
  qed
next
  case Nil
  then have "p' = peers j" "n' = n" by auto
  then show ?case by (simp only: fun_upd_triv leads_to_refl)
qed

text \<open>A goroutine and all goroutines, as a change of the leader and the peers of the round.\<close>

definition round_cluster :: "nat \<Rightarrow> round \<Rightarrow> cluster \<Rightarrow> cluster" where
  "round_cluster i r c = with_nodes i (rd_leader r) (rd_peers r) c"

lemma goroutine_run:
  assumes "goroutine net u g r = Inr r'" and "snd g \<noteq> i" and "snd g < size c" and "i < size c"
  shows "leads_to (round_cluster i r c) (round_cluster i r' c)"
proof -
  from assms(1) obtain msg ok n1 p1 where
    n: "LeaderSendAE_net (net (snd g)) (fst g) u msg (rd_leader r) (rd_peers r (snd g)) = Inr (ok, n1, p1)"
    and r': "rd_leader r' = n1" "rd_peers r' = (rd_peers r)(snd g := p1)" by (rule goroutine_inv)
  from LeaderSendAE_net_run [where peers = "rd_peers r", OF n assms(2-4)] show ?thesis
    by (simp add: round_cluster_def r')
qed

lemma goroutines_run:
  assumes "goroutines net u gs r = Inr r'" and "\<forall>g \<in> set gs. snd g \<noteq> i \<and> snd g < size c" and "i < size c"
  shows "leads_to (round_cluster i r c) (round_cluster i r' c)"
  using assms(1,2)
proof (induction gs arbitrary: r)
  case (Cons g gs)
  from Cons.prems(1) obtain r1 where r1: "goroutine net u g r = Inr r1" "goroutines net u gs r1 = Inr r'"
    by (rule goroutines_inv)
  from Cons.prems(2) have g: "snd g \<noteq> i" "snd g < size c" "\<forall>g \<in> set gs. snd g \<noteq> i \<and> snd g < size c" by simp_all
  from leads_to_trans [OF goroutine_run [OF r1(1) g(1,2) assms(3)] Cons.IH [OF r1(2) g(3)]] show ?case .
qed simp

text \<open>The stubs of a replica lead to the peers of their index.\<close>

definition stubs_ok :: "nat \<Rightarrow> nat \<Rightarrow> RaftNode \<Rightarrow> bool" where
  "stubs_ok N i n \<longleftrightarrow> wired N i n \<and>
     (\<forall>j < N. peer_replica_clients (Meta n) ! j = None \<or> peer_replica_clients (Meta n) ! j = Some j)"

lemma spawned_members:
  assumes "g \<in> set (spawned cs (int k) self)" and "int (length cs) + int k < 2147483648"
  shows "\<exists>a < length cs. fst g = int (k + a) \<and> fst g \<noteq> self \<and> cs ! a = Some (snd g)"
  using assms
proof (induction cs arbitrary: k)
  case (Cons c cs)
  have i: "i32 (int k + 1) = int (Suc k)" using Cons.prems(2) by (simp add: i32_id)
  consider "int k \<noteq> self" "c = Some (snd g)" "fst g = int k" | "g \<in> set (spawned cs (int (Suc k)) self)"
    using Cons.prems(1) i by (auto split: if_splits option.splits)
  then show ?case
  proof cases
    case 1
    then show ?thesis by (intro exI [of _ 0]) simp
  next
    case 2
    from Cons.IH [OF 2] Cons.prems(2) obtain a where
      "a < length cs" "fst g = int (Suc k + a)" "fst g \<noteq> self" "cs ! a = Some (snd g)" by auto
    then show ?thesis by (intro exI [of _ "Suc a"]) simp
  qed
qed simp

lemma spawned_targets:
  assumes "stubs_ok N i n" and "N < 2147483648" and "g \<in> set (spawned (peer_replica_clients (Meta n)) 0 (replica_id (Meta n)))"
  shows "snd g \<noteq> i \<and> snd g < N"
proof -
  let ?cs = "peer_replica_clients (Meta n)"
  have l: "length ?cs = N" "replica_id (Meta n) = int i" using assms(1) by (simp_all add: stubs_ok_def wired_def)
  with spawned_members [of g ?cs 0] assms(2,3) obtain a where
    a: "a < N" "fst g = int a" "fst g \<noteq> int i" "?cs ! a = Some (snd g)" by auto
  then have "snd g = a" using assms(1) by (auto simp: stubs_ok_def)
  with a show ?thesis by simp
qed

lemma spawned_distinct_gen:
  "int (length cs) + int k < 2147483648 \<Longrightarrow> distinct (spawned cs (int k) self)"
proof (induction cs arbitrary: k)
  case (Cons c cs)
  have i: "i32 (int k + 1) = int (Suc k)" using Cons.prems by (simp add: i32_id)
  have "(int k, p) \<notin> set (spawned cs (int (Suc k)) self)" for p
  proof
    assume "(int k, p) \<in> set (spawned cs (int (Suc k)) self)"
    from spawned_members [OF this] Cons.prems show False by auto
  qed
  moreover have "distinct (spawned cs (int (Suc k)) self)" using Cons.prems by (intro Cons.IH) simp
  ultimately show ?case using i by (cases "int k = self") (simp_all split: option.splits)
qed simp

lemma spawned_distinct:
  "stubs_ok N i n \<Longrightarrow> N < 2147483648 \<Longrightarrow>
     distinct (spawned (peer_replica_clients (Meta n)) 0 (replica_id (Meta n)))"
  using spawned_distinct_gen [of "peer_replica_clients (Meta n)" 0] by (simp add: stubs_ok_def wired_def)

text \<open>A schedule that runs goroutines which the loop has started, each at most once.\<close>

lemma LeaderSendAEs_run:
  assumes "LeaderSendAEs sched net m u (n, peers) = Inr r" and "permuting sched" and "stubs_ok N i n"
    and "N < 2147483648" and "i < N" and "size c = N"
  shows "leads_to (with_nodes i n peers c) (with_nodes i (rd_leader r) (rd_peers r) c)"
proof -
  let ?gs = "spawned (peer_replica_clients (Meta n)) 0 (replica_id (Meta n))"
  let ?r0 = "\<lparr>rd_msg = m, rd_leader = n, rd_peers = peers, successes = 1, failures = 0, verdicts = []\<rparr>"
  have r: "goroutines net u (sched ?gs) ?r0 = Inr r" using assms(1) by (simp add: LeaderSendAEs_def)
  have "set (sched ?gs) = set ?gs" using assms(2) spawned_distinct [OF assms(3,4)] by (simp add: permuting_def)
  then have "\<forall>g \<in> set (sched ?gs). snd g \<noteq> i \<and> snd g < size c"
    using spawned_targets [OF assms(3,4)] assms(6) by simp
  from goroutines_run [OF r this] assms(5,6) show ?thesis by (simp add: round_cluster_def)
qed

section \<open>The stubs of a reachable cluster\<close>

lemma stubs_same:
  assumes "stubs_ok N i n" and "same_identity n n'"
  shows "stubs_ok N i n'"
  using assms by (simp add: stubs_ok_def same_identity_def wired_def)

lemma stubs_connected: "connected N i n \<Longrightarrow> stubs_ok N i n"
  by (simp add: stubs_ok_def connected_def wired_def)

lemma stubs_set_stub: "stubs_ok N i n \<Longrightarrow> stubs_ok N i (set_stub j b n)"
  by (cases "j < N") (auto simp: stubs_ok_def set_stub_def wired_def nth_list_update)

lemma stubs_restart:
  assumes "restart i f c = Some c'" and "file_ok f" and "size c < 2147483648" and "i < size c"
  shows "stubs_ok (size c) i (nodes c' i) \<and> (\<forall>j. j \<noteq> i \<longrightarrow> nodes c' j = nodes c j)"
proof -
  from boot_node [OF assms(2-4)] obtain n where "boot (size c) i f = Inr n" "connected (size c) i n" by blast
  with assms(1) show ?thesis by (auto simp: restart_def stubs_connected)
qed

definition all_stubs_ok :: "nat \<Rightarrow> cluster \<Rightarrow> bool" where
  "all_stubs_ok N c \<longleftrightarrow> (\<forall>i < N. stubs_ok N i (nodes c i))"

lemma all_stubs_node:
  assumes "all_stubs_ok N c" and "\<forall>j. j \<noteq> i \<longrightarrow> nodes c' j = nodes c j" and "i < N \<Longrightarrow> stubs_ok N i (nodes c' i)"
  shows "all_stubs_ok N c'"
  using assms by (metis all_stubs_ok_def)

text \<open>What an event leaves of the identity of a node, restarts and stubs apart.\<close>

lemma same_identity_Meta: "Meta n' = Meta n \<Longrightarrow> same_identity n n'"
  by (simp add: same_identity_def)

lemma resp_same_identity:
  "LeaderSendAE_resp rid u m resp n = Inr (next, n') \<Longrightarrow> same_identity n n'"
  using LeaderSendAE_resp_frame [of rid u m resp n "next" n'] by (auto simp: same_identity_def)

lemma append_same_identity:
  "WriteCommand_append opr client n = Inr (m, u, n') \<Longrightarrow> same_identity n n'"
  by (auto simp: WriteCommand_append_def Let_def go_bind_eq_Inr same_identity_def)

lemma handle_vote_same_identity:
  assumes "handle_vote resp v n = (out, v', n')"
  shows "same_identity n n'"
  using assms by (cases rule: handle_vote_cases) (simp_all add: same_identity_def)

lemma stubs_step:
  assumes inv: "cluster_inv N c" and N: "N < 2147483648" and ok: "all_stubs_ok N c" and s: "step ev c = Some c'"
  shows "all_stubs_ok N c'"
proof -
  have sz: "size c = N" using inv by (simp add: cluster_inv_def)
  have same: "all_stubs_ok N (set_node i n' c)" if "same_identity (nodes c i) n'" for i n'
    using ok that stubs_same by (auto simp: all_stubs_ok_def)
  have el: "all_stubs_ok N d' = all_stubs_ok N d" if "nodes d' = nodes d" for d d'
    using that by (simp add: all_stubs_ok_def)
  have crash: "all_stubs_ok N c'" if r: "restart i f c = Some c'" "i < N" "file_ok f" for i f
  proof (rule all_stubs_node [OF ok])
    from stubs_restart [OF r(1,3)] r(2) N sz show "\<forall>j. j \<noteq> i \<longrightarrow> nodes c' j = nodes c j" "stubs_ok N i (nodes c' i)"
      by simp_all
  qed
  have disk: "file_ok (disk (nodes c i))" "file_ok (disk (ToFollower t (nodes c i)))" if "i < N" for i t
  proof -
    have "vote_saved (nodes c i)" using inv that by (simp add: cluster_inv_def node_inv_def)
    then show "file_ok (disk (nodes c i))" by (simp add: vote_saved_def)
    have "vote_saved (ToFollower t (nodes c i))" by simp
    then show "file_ok (disk (ToFollower t (nodes c i)))" by (simp add: vote_saved_def)
  qed
  show ?thesis
  proof (cases ev)
    case (Timeout i)
    have "same_identity (nodes c i) (ToCandidate (nodes c i))" by (simp add: same_identity_def)
    from same [OF this] have "all_stubs_ok N (set_node i (ToCandidate (nodes c i)) c)" .
    moreover from s Timeout have "nodes c' = nodes (set_node i (ToCandidate (nodes c i)) c)"
      by (auto simp: Let_def split: if_splits)
    ultimately show ?thesis using el by blast
  next
    case (VoteSend k r)
    with s have "nodes c' = nodes c" by (auto split: if_splits)
    with ok el show ?thesis by blast
  next
    case (VoteDeliver k r)
    have "same_identity (nodes c (nat r)) (snd (RequestVote m (nodes c (nat r))))" for m
      by (simp add: same_identity_def)
    with same have "all_stubs_ok N (set_node (nat r) (snd (RequestVote m (nodes c (nat r)))) c)" for m by blast
    moreover from s VoteDeliver obtain m where "nodes c' = nodes (set_node (nat r) (snd (RequestVote m (nodes c (nat r)))) c)"
      by (auto simp: Let_def split_beta set_call_def split: if_splits call.splits)
    ultimately show ?thesis using el by blast
  next
    case (VoteReply k r)
    with s obtain resp where k: "k < length (elections c)" "calls (elections c ! k) r = Answered resp"
      by (auto split: if_splits call.splits)
    let ?e = "elections c ! k"
    obtain out v n' where h: "handle_vote (Some resp) (received_votes ?e) (nodes c (owner ?e)) = (out, v, n')"
      by (metis prod_cases3)
    from s VoteReply k h have "nodes c' = nodes (set_node (owner ?e) n' c)"
      by (auto simp: Let_def split: if_splits vote_outcome.splits)
    with same [OF handle_vote_same_identity [OF h]] el show ?thesis by blast
  next
    case (VoteError k r)
    with s have "nodes c' = nodes c" by (auto split: if_splits call.splits)
    with ok el show ?thesis by blast
  next
    case (Append i m)
    then have i: "i < N" using s sz by (auto split: if_splits)
    show ?thesis
    proof (cases "AppendEntries m (nodes c i)")
      case (Inr p)
      then obtain resp n' where a: "AppendEntries m (nodes c i) = Inr (resp, n')" by (cases p) auto
      with s Append have "c' = set_node i n' c" by (auto split: if_splits)
      with same AppendEntries_frame [OF a] show ?thesis by blast
    next
      case (Inl e)
      with s Append i sz crash [OF _ i] disk [OF i] show ?thesis by (auto split: if_splits)
    qed
  next
    case (AppendReply i rid u m resp)
    then have i: "i < N" using s sz by (auto split: if_splits)
    with s AppendReply same resp_same_identity crash [OF _ i disk(1) [OF i]] show ?thesis
      by (fastforce split: if_splits sum.splits)
  next
    case (NoopDone i)
    have "same_identity (nodes c i) (ToLeader_success (nodes c i))" by (simp add: same_identity_def)
    with s NoopDone same show ?thesis by (auto split: if_splits)
  next
    case (WriteAppend i opr client)
    then have i: "i < N" using s sz by (auto split: if_splits)
    with s WriteAppend same append_same_identity crash [OF _ i disk(1) [OF i]] show ?thesis
      by (fastforce split: if_splits sum.splits)
  next
    case (WriteDone i b opr client)
    have "same_identity (nodes c i) (snd (WriteCommand_finish b opr client (nodes c i)))" by (simp add: same_identity_def)
    with s WriteDone same show ?thesis by (auto split: if_splits)
  next
    case (Applied i k)
    have "same_identity (nodes c i) (apply_done k (nodes c i))" by (simp add: same_identity_def apply_done_def)
    with s Applied same show ?thesis by (auto split: if_splits)
  next
    case (Stub i j b)
    with s have "c' = set_node i (set_stub j b (nodes c i)) c" by (auto split: if_splits)
    with ok stubs_set_stub show ?thesis by (auto simp: all_stubs_ok_def)
  next
    case (Restart i)
    then have "i < N" "restart i (disk (nodes c i)) c = Some c'" using s sz by (auto split: if_splits)
    with crash disk show ?thesis by blast
  qed
qed

lemma reachable_stubs: "reachable N c \<Longrightarrow> N < 2147483648 \<Longrightarrow> all_stubs_ok N c"
proof (induction rule: reachable.induct)
  case start
  have "connected N i (booted N i)" if "i < N" for i using booted_initial(1) start that by blast
  then show ?case by (simp add: all_stubs_ok_def cluster_init_def stubs_connected)
next
  case (move c ev c')
  with stubs_step [OF reachable_inv] show ?case by blast
qed

section \<open>Loops and commands as runs\<close>

text \<open>From a reachable cluster with the node \<open>n\<close> and the others \<open>peers\<close>, to \<open>n'\<close> and \<open>peers'\<close>.\<close>

definition carried_out :: "nat \<Rightarrow> nat \<Rightarrow> cluster \<Rightarrow> RaftNode \<times> (nat \<Rightarrow> RaftNode) \<Rightarrow> RaftNode \<times> (nat \<Rightarrow> RaftNode) \<Rightarrow> bool" where
  "carried_out N i c s s' \<longleftrightarrow>
     (reachable N (with_nodes i (fst s) (snd s) c) \<longrightarrow>
      leads_to (with_nodes i (fst s) (snd s) c) (with_nodes i (fst s') (snd s') c) \<and>
      reachable N (with_nodes i (fst s') (snd s') c))"

lemma carried_outI:
  assumes "reachable N (with_nodes i n peers c) \<Longrightarrow> leads_to (with_nodes i n peers c) (with_nodes i n' peers' c)"
  shows "carried_out N i c (n, peers) (n', peers')"
  using assms leads_to_reachable by (auto simp: carried_out_def)

lemma carried_out_refl [simp]: "carried_out N i c s s"
  by (simp add: carried_out_def)

lemma carried_out_trans [trans]: "carried_out N i c s s1 \<Longrightarrow> carried_out N i c s1 s2 \<Longrightarrow> carried_out N i c s s2"
  using leads_to_trans by (auto simp: carried_out_def)

lemma reachable_size: "reachable N c \<Longrightarrow> size c = N"
proof (induction rule: reachable.induct)
  case (move c ev c')
  then show ?case
    by (cases ev)
       (auto simp: Let_def restart_def split_beta split: if_splits sum.splits call.splits vote_outcome.splits)
qed (simp add: cluster_init_def)

lemma carried_out_round:
  assumes "LeaderSendAEs sched net m u (n, peers) = Inr r" and "permuting sched" and "N < 2147483648" and "i < N"
  shows "carried_out N i c (n, peers) (rd_leader r, rd_peers r)"
proof (rule carried_outI)
  assume r: "reachable N (with_nodes i n peers c)"
  have "stubs_ok N i n" using reachable_stubs [OF r assms(3)] assms(4) by (auto simp: all_stubs_ok_def dest: spec [of _ i])
  with LeaderSendAEs_run [OF assms(1,2) _ assms(3,4)] reachable_size [OF r]
  show "leads_to (with_nodes i n peers c) (with_nodes i (rd_leader r) (rd_peers r) c)" by simp
qed

lemma carried_out_event:
  assumes "i < N" and "unrestricted ev" and "\<And>c. size c = N \<Longrightarrow> nodes c i = n \<Longrightarrow> step ev c = Some (set_node i n' c)"
  shows "carried_out N i c (n, peers) (n', peers)"
proof (rule carried_outI)
  assume r: "reachable N (with_nodes i n peers c)"
  from reachable_size [OF r] assms(3) [of "with_nodes i n peers c"]
  have "step ev (with_nodes i n peers c) = Some (with_nodes i n' peers c)" by (simp add: with_nodes_leader)
  with assms(2) show "leads_to (with_nodes i n peers c) (with_nodes i n' peers c)" by (rule leads_to_step [rotated])
qed

lemma carried_out_NoopDone: "i < N \<Longrightarrow> carried_out N i c (n, peers) (ToLeader_success n, peers)"
  by (rule carried_out_event [where ev = "NoopDone i"]) simp_all

lemma carried_out_apply: "i < N \<Longrightarrow> carried_out N i c (n, peers) (apply_done k n, peers)"
  by (rule carried_out_event [where ev = "Applied i k"]) simp_all

lemma carried_out_append:
  "WriteCommand_append opr client n = Inr (m, u, n') \<Longrightarrow> i < N \<Longrightarrow> carried_out N i c (n, peers) (n', peers)"
  by (rule carried_out_event [where ev = "WriteAppend i opr client"]) simp_all

lemma carried_out_finish:
  "i < N \<Longrightarrow> carried_out N i c (n, peers) (snd (WriteCommand_finish b opr client n), peers)"
  by (rule carried_out_event [where ev = "WriteDone i b opr client"]) simp_all

lemma carried_out_ToLeader:
  assumes "ToLeader_loop rounds m s = Inr (e, s')" and "\<forall>x \<in> set rounds. permuting (fst x)"
    and "N < 2147483648" and "i < N"
  shows "carried_out N i c s s'"
  using assms(1,2)
proof (induction rounds arbitrary: m s)
  case (Cons x rounds)
  obtain n peers where s: "s = (n, peers)" by (cases s)
  from Cons.prems(1) obtain r where r: "LeaderSendAEs (fst x) (snd x) m (i32 (int (length (log n)) - 1)) (n, peers) = Inr r"
    by (auto simp: s split: sum.splits)
  have p: "permuting (fst x)" "\<forall>x \<in> set rounds. permuting (fst x)" using Cons.prems(2) by simp_all
  note rd = carried_out_round [OF r p(1) assms(3,4), of c, folded s]
  from Cons.prems(1) r consider "s' = (rd_leader r, rd_peers r)"
    | "s' = (ToLeader_success (rd_leader r), rd_peers r)"
    | "ToLeader_loop rounds (rd_msg r) (rd_leader r, rd_peers r) = Inr (e, s')"
    by (auto simp: s split: list.splits if_splits)
  then show ?case
  proof cases
    case 1
    with rd show ?thesis by simp
  next
    case 2
    with carried_out_trans [OF rd carried_out_NoopDone [OF assms(4)]] show ?thesis by simp
  next
    case 3
    from carried_out_trans [OF rd Cons.IH [OF 3 p(2)]] show ?thesis .
  qed
qed simp

lemma carried_out_Tick:
  assumes "HeartBeats [Tick x] s = Inr (e, s')" and "permuting (fst x)" and "N < 2147483648" and "i < N"
  shows "carried_out N i c s s'"
proof (cases "HeartBeats_check (fst s)")
  case True
  obtain n peers where s: "s = (n, peers)" by (cases s)
  with assms(1) True obtain r where
    "LeaderSendAEs (fst x) (snd x) (fst (HeartBeats_msg n)) (snd (HeartBeats_msg n)) (n, peers) = Inr r"
    "s' = (rd_leader r, rd_peers r)"
    by (auto split: sum.splits list.splits)
  with carried_out_round [OF this(1) assms(2-4)] s show ?thesis by simp
next
  case False
  with assms(1) show ?thesis by simp
qed

lemma carried_out_ReadCommand:
  assumes "ReadCommand [] x http_get key s = Inr (Some (response, s'))" and "permuting (fst x)"
    and "N < 2147483648" and "i < N"
  shows "carried_out N i c s s'"
proof -
  obtain n peers where s: "s = (n, peers)" by (cases s)
  from assms(1) [unfolded s] obtain m u r where
    "LeaderSendAEs (fst x) (snd x) m u (n, peers) = Inr r" "s' = (rd_leader r, rd_peers r)" by (rule ReadCommand_inv)
  with carried_out_round [OF this(1) assms(2-4)] s show ?thesis by simp
qed

lemma carried_out_write_round:
  assumes "WriteCommand_round x operation client s = Inr (Some (result, s'))" and "permuting (fst x)"
    and "N < 2147483648" and "i < N"
  shows "carried_out N i c s s'"
proof -
  obtain n peers where s: "s = (n, peers)" by (cases s)
  from assms(1) [unfolded s] obtain m u n1 r b where
    a: "WriteCommand_append operation client n = Inr (m, u, n1)" and r: "LeaderSendAEs (fst x) (snd x) m u (n1, peers) = Inr r"
    and "result = fst (WriteCommand_finish b operation client (rd_leader r))"
    and b: "s' = (snd (WriteCommand_finish b operation client (rd_leader r)), rd_peers r)"
    by (rule WriteCommand_round_inv)
  note carried_out_append [OF a assms(4), of c peers]
  also note carried_out_round [OF r assms(2-4)]
  also note carried_out_finish [OF assms(4)]
  finally show ?thesis by (simp add: s b)
qed

lemma carried_out_WriteCommand:
  assumes "WriteCommand_full [] [] rx http_get x operation client s = Inr (Some (result, s'))"
    and "permuting (fst rx)" and "permuting (fst x)" and "N < 2147483648" and "i < N"
  shows "carried_out N i c s s'"
  using assms(1)
proof (cases rule: WriteCommand_full_inv)
  case round
  from carried_out_write_round [OF round assms(3-5)] show ?thesis .
next
  case (missing key response)
  from carried_out_ReadCommand [OF missing(1) assms(2,4,5)] show ?thesis .
next
  case (found key response s2)
  from carried_out_trans [OF carried_out_ReadCommand [OF found(1) assms(2,4,5)]
      carried_out_write_round [OF found(2) assms(3-5)]] show ?thesis .
qed simp

section \<open>The system\<close>

text \<open>
  The cluster, the key-value server of each replica, how many of the numbers sent on
  \<open>commits_ready\<close> the apply loop of each replica has taken, the message of the NO-OP loop of a
  new leader while the loop is running, and the replies that clients have got, latest first.
\<close>

record 's system =
  grid :: cluster
  servers :: "nat \<Rightarrow> 's"
  taken :: "nat \<Rightarrow> nat"
  pending :: "nat \<Rightarrow> AppendEntriesMessage option"
  replies :: "(nat \<times> client_op \<times> answer) list"

text \<open>
  What happens next: an event of an election, a stub or a restart; a round of the NO-OP loop; a
  tick of the heartbeats; a request of a client, with the circumstances of its two rounds; the
  handling of the next number by the apply loop.
\<close>

datatype action =
    Environment event
  | Synchronise nat circumstances
  | Heartbeat nat circumstances
  | Request nat client_op circumstances circumstances
  | Apply nat

text \<open>The events that do not belong to a leader's rounds; a leader has stopped its election timer.\<close>

fun external :: "event \<Rightarrow> cluster \<Rightarrow> bool" where
  "external (Timeout i) c = (state (nodes c i) \<noteq> Leader)"
| "external (VoteSend k r) c = True"
| "external (VoteDeliver k r) c = True"
| "external (VoteReply k r) c = True"
| "external (VoteError k r) c = True"
| "external (Stub i j b) c = True"
| "external (Restart i) c = True"
| "external ev c = False"

text \<open>A reply that makes its candidate leader: the replica and the message of its NO-OP loop.\<close>

definition victory :: "event \<Rightarrow> cluster \<Rightarrow> (nat \<times> AppendEntriesMessage) option" where
  "victory ev c =
     (case ev of
        VoteReply k r \<Rightarrow>
          (let e = elections c ! k
           in case calls e r of
                Answered resp \<Rightarrow>
                  (case fst (handle_vote (Some resp) (received_votes e) (nodes c (owner e))) of
                     Won msg \<Rightarrow> Some (owner e, msg)
                   | _ \<Rightarrow> None)
              | _ \<Rightarrow> None)
      | _ \<Rightarrow> None)"

text \<open>
  The rest of the system at such an event: a victory starts a NO-OP loop; a restart ends the loops
  of its replica and starts its key-value server again, \<open>reboot\<close>.
\<close>

definition react :: "('s \<Rightarrow> 's) \<Rightarrow> event \<Rightarrow> 's system \<Rightarrow> 's system" where
  "react reboot ev s =
     (case ev of
        Restart i \<Rightarrow> s\<lparr>servers := (servers s)(i := reboot (servers s i)), taken := (taken s)(i := 0),
                       pending := (pending s)(i := None)\<rparr>
      | _ \<Rightarrow>
          (case victory ev (grid s) of
             Some (i, msg) \<Rightarrow> s\<lparr>pending := (pending s)(i := Some msg)\<rparr>
           | None \<Rightarrow> s))"

text \<open>The command that a handler runs for a request, after it has seen that the replica leads.\<close>

definition command ::
    "('s \<Rightarrow> string \<Rightarrow> (string + string) option) \<Rightarrow> client_op \<Rightarrow> circumstances \<Rightarrow> circumstances \<Rightarrow> 's \<Rightarrow> answer command" where
  "command get request rc c server s =
     (case request of
        CWrite operation client \<Rightarrow>
          go_bind (WriteCommand_full [] [] rc (get server) c operation client s) (\<lambda>res.
            case res of
              None \<Rightarrow> Inr None
            | Some ((success, err), s1) \<Rightarrow> Inr (Some (Wrote success err, s1)))
      | CRead key \<Rightarrow>
          go_bind (ReadCommand [] c (get server) key s) (\<lambda>res.
            case res of
              None \<Rightarrow> Inr None
            | Some (response, s1) \<Rightarrow> Inr (Some (Got response, s1))))"

text \<open>
  One action; \<open>None\<close> when it cannot happen, or when a section of it panics or waits forever.  The
  message of the NO-OP loop keeps its header, all that a goroutine does not overwrite.
\<close>

fun sys_step ::
    "'s transport \<Rightarrow> ('s \<Rightarrow> string \<Rightarrow> (string + string) option) \<Rightarrow> ('s \<Rightarrow> 's) \<Rightarrow> action \<Rightarrow> 's system \<Rightarrow> 's system option" where
  "sys_step send get reboot (Environment ev) s =
     (if external ev (grid s)
      then map_option (\<lambda>c. (react reboot ev s)\<lparr>grid := c\<rparr>) (step ev (grid s))
      else None)"
| "sys_step send get reboot (Synchronise i c) s =
     (if i < size (grid s) then
        (case pending s i of
           None \<Rightarrow> None
         | Some msg \<Rightarrow>
             (case ToLeader_loop [c] msg (nodes (grid s) i, nodes (grid s)) of
                Inl e \<Rightarrow> None
              | Inr (e, n, peers) \<Rightarrow>
                  Some (s\<lparr>grid := with_nodes i n peers (grid s),
                          pending := (pending s)(i := if e = Retrying then Some msg else None)\<rparr>)))
      else None)"
| "sys_step send get reboot (Heartbeat i c) s =
     (if i < size (grid s) \<and> Go_HeartBeats \<in> set (effects (nodes (grid s) i)) then
        (case HeartBeats [Tick c] (nodes (grid s) i, nodes (grid s)) of
           Inl e \<Rightarrow> None
         | Inr (e, n, peers) \<Rightarrow> Some (s\<lparr>grid := with_nodes i n peers (grid s)\<rparr>))
      else None)"
| "sys_step send get reboot (Request i request rc c) s =
     (if i < size (grid s) \<and> state (nodes (grid s) i) = Leader then
        (case command get request rc c (servers s i) (nodes (grid s) i, nodes (grid s)) of
           Inr (Some (a, n, peers)) \<Rightarrow>
             Some (s\<lparr>grid := with_nodes i n peers (grid s), replies := (i, request, a) # replies s\<rparr>)
         | _ \<Rightarrow> None)
      else None)"
| "sys_step send get reboot (Apply i) s =
     (let n = nodes (grid s) i; numbers = commits_of (effects n)
      in if i < size (grid s) \<and> taken s i < length numbers then
           (case ApplyToStateMachine send (numbers ! taken s i) n (servers s i) of
              Inl e \<Rightarrow> None
            | Inr (n1, server) \<Rightarrow>
                Some (s\<lparr>grid := set_node i n1 (grid s), servers := (servers s)(i := server),
                        taken := (taken s)(i := taken s i + 1)\<rparr>))
         else None)"

fun sys_run ::
    "'s transport \<Rightarrow> ('s \<Rightarrow> string \<Rightarrow> (string + string) option) \<Rightarrow> ('s \<Rightarrow> 's) \<Rightarrow> action list \<Rightarrow> 's system \<Rightarrow> 's system option" where
  "sys_run send get reboot [] s = Some s"
| "sys_run send get reboot (a # as) s = Option.bind (sys_step send get reboot a s) (sys_run send get reboot as)"

definition sys_init :: "nat \<Rightarrow> (nat \<Rightarrow> 's) \<Rightarrow> 's system" where
  "sys_init N sv = \<lparr>grid = cluster_init N, servers = sv, taken = (\<lambda>_. 0), pending = (\<lambda>_. None), replies = []\<rparr>"

text \<open>The scheduling condition of the elections, and rounds that run each goroutine once.\<close>

fun sys_admissible :: "cluster \<Rightarrow> action \<Rightarrow> bool" where
  "sys_admissible g (Environment ev) = admissible g ev"
| "sys_admissible g (Synchronise i c) = permuting (fst c)"
| "sys_admissible g (Heartbeat i c) = permuting (fst c)"
| "sys_admissible g (Request i request rc c) = (permuting (fst rc) \<and> permuting (fst c))"
| "sys_admissible g (Apply i) = True"

fun sys_admissible_run ::
    "'s transport \<Rightarrow> ('s \<Rightarrow> string \<Rightarrow> (string + string) option) \<Rightarrow> ('s \<Rightarrow> 's) \<Rightarrow> action list \<Rightarrow> 's system \<Rightarrow> bool" where
  "sys_admissible_run send get reboot [] s = True"
| "sys_admissible_run send get reboot (a # as) s =
     (sys_admissible (grid s) a \<and>
      (case sys_step send get reboot a s of None \<Rightarrow> False | Some s1 \<Rightarrow> sys_admissible_run send get reboot as s1))"

section \<open>Runs of the system are runs of the cluster\<close>

text \<open>A run whose events satisfy the scheduling condition.\<close>

definition admits :: "cluster \<Rightarrow> cluster \<Rightarrow> bool" where
  "admits c c' \<longleftrightarrow> (\<exists>evs. run evs c = Some c' \<and> admissible_run evs c)"

lemma admits_refl [simp]: "admits c c"
  unfolding admits_def by (intro exI [of _ "[]"]) simp

lemma admits_trans:
  assumes "admits c c1" and "admits c1 c2"
  shows "admits c c2"
proof -
  from assms obtain es fs where "run es c = Some c1" "admissible_run es c" "run fs c1 = Some c2" "admissible_run fs c1"
    by (auto simp: admits_def)
  then have "run (es @ fs) c = Some c2" "admissible_run (es @ fs) c" by (simp_all add: run_append admissible_run_append)
  then show ?thesis unfolding admits_def by blast
qed

lemma admits_leads_to: "leads_to c c' \<Longrightarrow> admits c c'"
  unfolding leads_to_def admits_def using unrestricted_run by blast

lemma admits_reachable: "reachable N c \<Longrightarrow> admits c c' \<Longrightarrow> reachable N c'"
  unfolding admits_def using run_reachable by blast

lemma admits_carried_out:
  assumes "carried_out N i c (nodes c i, nodes c) (n, peers)" and "reachable N c"
  shows "admits c (with_nodes i n peers c)"
  using assms by (intro admits_leads_to) (simp add: carried_out_def with_nodes_self)

lemma command_carried_out:
  assumes "command get request rc x server s = Inr (Some (a, s'))" and "permuting (fst rc)" and "permuting (fst x)"
    and "N < 2147483648" and "i < N"
  shows "carried_out N i c s s'"
proof (cases request)
  case (CWrite operation client)
  with assms(1) obtain res where "WriteCommand_full [] [] rc (get server) x operation client s = Inr (Some (res, s'))"
    by (auto simp: command_def go_bind_eq_Inr split: option.splits)
  from carried_out_WriteCommand [OF this assms(2-5)] show ?thesis .
next
  case (CRead key)
  with assms(1) obtain res where "ReadCommand [] x (get server) key s = Inr (Some (res, s'))"
    by (auto simp: command_def go_bind_eq_Inr split: option.splits)
  from carried_out_ReadCommand [OF this assms(3-5)] show ?thesis .
qed

lemma sys_step_admits:
  assumes "sys_step send get reboot a s = Some s'" and "sys_admissible (grid s) a" and "reachable N (grid s)"
    and "N < 2147483648"
  shows "admits (grid s) (grid s')"
proof (cases a)
  case (Environment ev)
  with assms(1) have "step ev (grid s) = Some (grid s')" by (auto split: if_splits)
  moreover have "admissible (grid s) ev" using assms(2) Environment by simp
  ultimately show ?thesis unfolding admits_def by (intro exI [of _ "[ev]"]) (simp del: step.simps admissible.simps)
next
  case (Synchronise i c)
  with assms(1) reachable_size [OF assms(3)] obtain msg e n peers where
    "ToLeader_loop [c] msg (nodes (grid s) i, nodes (grid s)) = Inr (e, n, peers)" "i < N"
    "grid s' = with_nodes i n peers (grid s)"
    by (auto split: if_splits option.splits sum.splits simp del: ToLeader_loop.simps)
  with carried_out_ToLeader [OF this(1) _ assms(4)] admits_carried_out [OF _ assms(3)] assms(2) Synchronise
  show ?thesis by simp
next
  case (Heartbeat i c)
  with assms(1) reachable_size [OF assms(3)] obtain e n peers where
    "HeartBeats [Tick c] (nodes (grid s) i, nodes (grid s)) = Inr (e, n, peers)" "i < N"
    "grid s' = with_nodes i n peers (grid s)"
    by (auto split: if_splits sum.splits simp del: HeartBeats.simps)
  with carried_out_Tick [OF this(1) _ assms(4)] admits_carried_out [OF _ assms(3)] assms(2) Heartbeat
  show ?thesis by simp
next
  case (Request i request rc c)
  with assms(1) reachable_size [OF assms(3)] obtain ans n peers where
    "command get request rc c (servers s i) (nodes (grid s) i, nodes (grid s)) = Inr (Some (ans, n, peers))" "i < N"
    "grid s' = with_nodes i n peers (grid s)"
    by (auto split: if_splits sum.splits option.splits)
  with command_carried_out [OF this(1) _ _ assms(4)] admits_carried_out [OF _ assms(3)] assms(2) Request
  show ?thesis by simp
next
  case (Apply i)
  with assms(1) reachable_size [OF assms(3)] obtain k n1 server where
    a: "ApplyToStateMachine send k (nodes (grid s) i) (servers s i) = Inr (n1, server)" "i < N"
      "grid s' = set_node i n1 (grid s)"
    by (auto simp: Let_def split: if_splits sum.splits)
  then obtain m where "n1 = apply_done m (nodes (grid s) i)"
    by (auto simp: ApplyToStateMachine_def go_bind_eq_Inr)
  with carried_out_apply [OF a(2)] admits_carried_out [OF _ assms(3)] a(3) show ?thesis
    by (simp add: with_nodes_def set_node_def)
qed

lemma sys_run_admits:
  assumes "sys_run send get reboot as s = Some s'" and "sys_admissible_run send get reboot as s"
    and "reachable N (grid s)" and "N < 2147483648"
  shows "admits (grid s) (grid s')"
  using assms
proof (induction as arbitrary: s)
  case (Cons a as)
  then obtain s1 where s1: "sys_step send get reboot a s = Some s1" "sys_run send get reboot as s1 = Some s'"
    "sys_admissible (grid s) a" "sys_admissible_run send get reboot as s1"
    by (auto simp: bind_eq_Some_conv simp del: sys_step.simps)
  note st = sys_step_admits [OF s1(1,3) Cons.prems(3,4)]
  from admits_trans [OF st Cons.IH [OF s1(2,4) admits_reachable [OF Cons.prems(3) st] Cons.prems(4)]] show ?case .
qed simp

section \<open>Evaluating runs\<close>

text \<open>No event touches an index that is not a replica.\<close>

lemma outside_restart: "restart i f c = Some c' \<Longrightarrow> j \<noteq> i \<Longrightarrow> nodes c' j = nodes c j"
  by (auto simp: restart_def split: sum.splits)

lemma outside_step:
  assumes inv: "cluster_inv N c" and s: "step ev c = Some c'" and j: "N \<le> j"
  shows "nodes c' j = nodes c j"
proof -
  have sz: "size c = N" using inv by (simp add: cluster_inv_def)
  have ok: "election_ok N (aT (abs_cluster c)) (aG (abs_cluster c)) (elections c ! k)" if "k < length (elections c)" for k
    using inv that by (simp add: cluster_inv_def elections_ok_def)
  show ?thesis
  proof (cases ev)
    case (VoteDeliver k r)
    with s obtain m where k: "k < length (elections c)" "calls (elections c ! k) r = Sent m"
      by (auto split: if_splits call.splits)
    from ok [OF k(1)] have "call_ok N (aT (abs_cluster c)) (aG (abs_cluster c)) (owner (elections c ! k))
        (opened (elections c ! k)) r (Sent m)"
      unfolding election_ok_def k(2) [symmetric] by blast
    then have "nat r \<noteq> j" using j by auto
    with s VoteDeliver k show ?thesis by (auto simp: Let_def split_beta split: if_splits)
  next
    case (VoteReply k r)
    with s have k: "k < length (elections c)" by (auto split: if_splits)
    from ok [OF k] j have "owner (elections c ! k) \<noteq> j" by (auto simp: election_ok_def)
    with s VoteReply show ?thesis
      by (auto simp: Let_def split_beta split: if_splits call.splits vote_outcome.splits)
  next
    case (Append i m)
    with s sz j outside_restart [of i _ c c' j] show ?thesis by (auto split: if_splits sum.splits)
  next
    case (AppendReply i rid u m resp)
    with s sz j outside_restart [of i _ c c' j] show ?thesis by (auto split: if_splits sum.splits)
  next
    case (WriteAppend i opr client)
    with s sz j outside_restart [of i _ c c' j] show ?thesis by (auto split: if_splits sum.splits)
  next
    case (Restart i)
    with s sz j outside_restart [of i _ c c' j] show ?thesis by (auto split: if_splits)
  qed (use s sz j in \<open>auto simp: Let_def split: if_splits call.splits\<close>)
qed

lemma reachable_outside: "reachable N c \<Longrightarrow> N < 2147483648 \<Longrightarrow> N \<le> j \<Longrightarrow> nodes c j = booted N j"
proof (induction rule: reachable.induct)
  case (move c ev c')
  with outside_step [OF reachable_inv [OF move(1)]] show ?case by metis
qed (simp add: cluster_init_def)

text \<open>The nodes as a list: a form of the cluster that does not grow with the run.\<close>

definition listed :: "nat \<Rightarrow> RaftNode list \<Rightarrow> nat \<Rightarrow> RaftNode" where
  "listed N ns j = (if j < length ns then ns ! j else booted N j)"

definition tidy :: "'s system \<Rightarrow> 's system" where
  "tidy s = s\<lparr>grid := (grid s)\<lparr>nodes := listed (size (grid s)) (map (nodes (grid s)) [0..<size (grid s)])\<rparr>\<rparr>"

lemma tidy_reachable:
  assumes "reachable N (grid s)" and "N < 2147483648"
  shows "tidy s = s"
proof -
  have "listed N (map (nodes (grid s)) [0..<N]) = nodes (grid s)"
    using reachable_outside [OF assms] by (auto simp: fun_eq_iff listed_def)
  then show ?thesis by (simp add: tidy_def reachable_size [OF assms(1)])
qed

fun event_admissible :: "cluster \<Rightarrow> action \<Rightarrow> bool" where
  "event_admissible g (Environment ev) = admissible g ev"
| "event_admissible g a = True"

fun fair_schedules :: "action \<Rightarrow> bool" where
  "fair_schedules (Synchronise i c) = permuting (fst c)"
| "fair_schedules (Heartbeat i c) = permuting (fst c)"
| "fair_schedules (Request i request rc c) = (permuting (fst rc) \<and> permuting (fst c))"
| "fair_schedules a = True"

fun tidy_run ::
    "'s transport \<Rightarrow> ('s \<Rightarrow> string \<Rightarrow> (string + string) option) \<Rightarrow> ('s \<Rightarrow> 's) \<Rightarrow> action list \<Rightarrow> 's system \<Rightarrow> 's system option" where
  "tidy_run send get reboot [] s = Some s"
| "tidy_run send get reboot (a # as) s =
     (if event_admissible (grid s) a
      then Option.bind (sys_step send get reboot a s) (\<lambda>s1. tidy_run send get reboot as (tidy s1))
      else None)"

lemma event_fair: "event_admissible g a \<Longrightarrow> fair_schedules a \<Longrightarrow> sys_admissible g a"
  by (cases a) simp_all

lemma tidy_run_sys_run:
  assumes "tidy_run send get reboot as s = Some s'" and "list_all fair_schedules as" and "reachable N (grid s)"
    and "N < 2147483648"
  shows "sys_run send get reboot as s = Some s' \<and> sys_admissible_run send get reboot as s"
  using assms
proof (induction as arbitrary: s)
  case (Cons a as)
  then obtain s1 where s1: "sys_step send get reboot a s = Some s1" "event_admissible (grid s) a"
    "tidy_run send get reboot as (tidy s1) = Some s'"
    by (auto simp: bind_eq_Some_conv simp del: sys_step.simps split: if_splits)
  have adm: "sys_admissible (grid s) a" using event_fair [OF s1(2)] Cons.prems(2) by simp
  have r: "reachable N (grid s1)"
    by (rule admits_reachable [OF Cons.prems(3) sys_step_admits [OF s1(1) adm Cons.prems(3,4)]])
  from Cons.IH [of s1] s1 r tidy_reachable [OF r] Cons.prems(2,4) adm show ?case
    by (simp del: sys_step.simps)
qed simp

lemma tidy_run_append:
  "tidy_run send get reboot (as @ bs) s = Option.bind (tidy_run send get reboot as s) (tidy_run send get reboot bs)"
  by (induction as arbitrary: s) (simp_all split: bind_split del: sys_step.simps)

text \<open>A run with rounds that run each goroutine once satisfies the scheduling condition, or some
  goroutine of an election in it reads a later term, or a term overflows.\<close>

lemma sys_run_admissible_or:
  assumes "sys_run send get reboot as s = Some s'" and "list_all fair_schedules as"
  shows "sys_admissible_run send get reboot as s \<or>
     (\<exists>before ev after s1. as = before @ Environment ev # after \<and> sys_run send get reboot before s = Some s1 \<and>
        (late_goroutine (grid s1) ev \<or> term_overflow (grid s1) ev))"
  using assms
proof (induction as arbitrary: s)
  case (Cons a as)
  then obtain s1 where s1: "sys_step send get reboot a s = Some s1" "sys_run send get reboot as s1 = Some s'"
    by (auto simp: bind_eq_Some_conv simp del: sys_step.simps)
  show ?case
  proof (cases "event_admissible (grid s) a")
    case False
    then obtain ev where "a = Environment ev" "\<not> admissible (grid s) ev" by (cases a) auto
    then show ?thesis unfolding admissible_iff
      by (intro disjI2 exI [of _ "[]"] exI [of _ ev] exI [of _ as] exI [of _ s]) simp
  next
    case True
    then have adm: "sys_admissible (grid s) a" using event_fair Cons.prems(2) by simp
    have "list_all fair_schedules as" using Cons.prems(2) by simp
    from Cons.IH [OF s1(2) this] show ?thesis
    proof
      assume "sys_admissible_run send get reboot as s1"
      with adm s1(1) show ?thesis by (simp del: sys_step.simps)
    next
      assume "\<exists>before ev after s2. as = before @ Environment ev # after \<and> sys_run send get reboot before s1 = Some s2 \<and>
         (late_goroutine (grid s2) ev \<or> term_overflow (grid s2) ev)"
      then obtain before ev after s2 where b: "as = before @ Environment ev # after"
        "sys_run send get reboot before s1 = Some s2" "late_goroutine (grid s2) ev \<or> term_overflow (grid s2) ev" by blast
      then have "sys_run send get reboot (a # before) s = Some s2" using s1(1) by (simp del: sys_step.simps)
      with b(1,3) show ?thesis
        by (intro disjI2 exI [of _ "a # before"] exI [of _ ev] exI [of _ after] exI [of _ s2]) simp
    qed
  qed
qed simp

lemma sys_admissible_run_event:
  assumes "sys_admissible_run send get reboot (before @ Environment ev # after) s"
    and "sys_run send get reboot before s = Some s1"
  shows "admissible (grid s1) ev"
  using assms
proof (induction before arbitrary: s)
  case (Cons a before)
  from Cons.prems(2) obtain s2 where "sys_step send get reboot a s = Some s2" "sys_run send get reboot before s2 = Some s1"
    by (auto simp: bind_eq_Some_conv simp del: sys_step.simps)
  with Cons.IH [of s2] Cons.prems(1) show ?case by (simp del: sys_step.simps)
qed simp

section \<open>Properties\<close>

text \<open>
  C4: the whole system refines the cluster.  A run of the system is any sequence of elections,
  losses, restarts, rounds of NO-OP loops, heartbeats, client commands and batches of the apply loops
  at all replicas, over any key-value server; a round, a command and a batch are single actions, in
  which the goroutines of a round run one after another, in any order.  Every such run is carried out
  by a run of events of the cluster, to the same nodes, elections and messages, and no two replicas
  have been elected in one term of it; or some event of it is a vote goroutine that builds its
  request after its replica has left the term of the election, or a timeout whose term overflows.
\<close>

theorem system_refines_cluster:
  assumes "sys_run send get reboot as (sys_init N sv) = Some s"
    and "list_all fair_schedules as" and "N < 2147483648"
  shows "(\<exists>evs. run evs (cluster_init N) = Some (grid s) \<and> admissible_run evs (cluster_init N) \<and>
       reachable N (grid s) \<and>
       (\<forall>t l l'. (t, l) \<in> set (winners (grid s)) \<and> (t, l') \<in> set (winners (grid s)) \<longrightarrow> l = l')) \<or>
     (\<exists>before ev after s1. as = before @ Environment ev # after \<and>
        sys_run send get reboot before (sys_init N sv) = Some s1 \<and>
        (late_goroutine (grid s1) ev \<or> term_overflow (grid s1) ev))"
proof (cases "sys_admissible_run send get reboot as (sys_init N sv)")
  case False
  with sys_run_admissible_or [OF assms(1,2)] show ?thesis by blast
next
  case True
  have g: "grid (sys_init N sv) = cluster_init N" by (simp add: sys_init_def)
  have init: "reachable N (grid (sys_init N sv))" unfolding g by (rule start)
  from sys_run_admits [OF assms(1) True init assms(3)] have ad: "admits (cluster_init N) (grid s)" by (simp add: g)
  have r: "reachable N (grid s)" using admits_reachable [OF start ad] .
  have "l = l'" if "(t, l) \<in> set (winners (grid s))" "(t, l') \<in> set (winners (grid s))" for t l l'
  proof -
    have "vinv (majority N) N (abs_cluster (grid s))" using reachable_inv [OF r assms(3)] by (simp add: cluster_inv_def)
    from maj.one_winner [OF this] that show ?thesis by simp
  qed
  with ad r show ?thesis unfolding admits_def by blast
qed

text \<open>An election among three replicas and the NO-OP round of its winner.\<close>

definition small_run :: "action list" where
  "small_run = map Environment good_run @ [Synchronise 2 (\<lambda>gs. gs, \<lambda>_. [Delivered]), Apply 2]"

lemma small_run_facts:
  "map_option (\<lambda>s. (winners (grid s), map (\<lambda>i. length (log (nodes (grid s) i))) [0, 1, 2], lastApplied (nodes (grid s) 2)))
     (tidy_run (\<lambda>r s. (True, s)) (\<lambda>_ _. None) (\<lambda>s. s) small_run (sys_init 3 (\<lambda>_. ())))
   = Some ([(1, 2)], [1, 1, 1], 0)"
  by code_simp

theorem system_refines_cluster_witness:
  "\<exists>s evs. sys_run (\<lambda>r s. (True, s)) (\<lambda>_ _. None) (\<lambda>s. s) small_run (sys_init 3 (\<lambda>_. ())) = Some s \<and>
     winners (grid s) = [(1, 2)] \<and> lastApplied (nodes (grid s) 2) = 0 \<and> run evs (cluster_init 3) = Some (grid s)"
proof -
  have N: "(3::nat) < 2147483648" by simp
  have init: "reachable 3 (grid (sys_init 3 (\<lambda>_. ())))" using start [of 3] by (simp add: sys_init_def)
  have fair: "list_all fair_schedules small_run" by (simp add: small_run_def good_run_def)
  from small_run_facts obtain s where
    s: "tidy_run (\<lambda>r s. (True, s)) (\<lambda>_ _. None) (\<lambda>s. s) small_run (sys_init 3 (\<lambda>_. ())) = Some s"
      "winners (grid s) = [(1, 2)]" "lastApplied (nodes (grid s) 2) = 0"
    by (auto simp del: tidy_run.simps)
  from tidy_run_sys_run [OF s(1) fair init N] have
    r: "sys_run (\<lambda>r s. (True, s)) (\<lambda>_ _. None) (\<lambda>s. s) small_run (sys_init 3 (\<lambda>_. ())) = Some s"
      "sys_admissible_run (\<lambda>r s. (True, s)) (\<lambda>_ _. None) (\<lambda>s. s) small_run (sys_init 3 (\<lambda>_. ()))" by blast+
  have "\<not> late_goroutine (grid s1) ev \<and> \<not> term_overflow (grid s1) ev"
    if "small_run = before @ Environment ev # after"
      "sys_run (\<lambda>r s. (True, s)) (\<lambda>_ _. None) (\<lambda>s. s) before (sys_init 3 (\<lambda>_. ())) = Some s1" for before ev after s1
    using sys_admissible_run_event [of _ _ _ before ev after, OF r(2) [unfolded that(1)] that(2)] admissible_iff by blast
  with system_refines_cluster [OF r(1) fair N] r(1) s(2,3) show ?thesis by blast
qed

end
