(* ===== verification/Raft_Lost_Write.thy ===== *)
theory Raft_Lost_Write
  imports Raft_System
begin

text \<open>
  A run of the system of \<open>Raft_System\<close> with five replicas in which an acknowledged write is lost:
  AppendEntries (\<^verbatim>\<open>src/raft/rpcs.go\<close>) overwrites the entries of a follower that conflict with
  the message and keeps those behind them, so that the follower's last entry may be older than
  the entries that it has just accepted; RequestVote compares last entries only, and the
  follower votes for a candidate that lacks them.
\<close>

section \<open>Evaluation\<close>

text \<open>Forms of function update and of the persisted map that the simplifier evaluates cheaply.\<close>

declare fun_upd_apply [code]

definition saved_storage :: "Storage \<Rightarrow> int \<Rightarrow> int \<Rightarrow> LogEntry list \<Rightarrow> int \<Rightarrow> int \<Rightarrow> Storage" where
  "saved_storage s t v l c a =
     s(''currentTerm'' \<mapsto> SInt32 t, ''votedFor'' \<mapsto> SInt32 v, ''log'' \<mapsto> SLog l,
       ''commitIndex'' \<mapsto> SInt32 c, ''lastApplied'' \<mapsto> SInt32 a)"

lemma saved_storage_code [code]:
  "saved_storage s t v l c a k =
     (if k = ''lastApplied'' then Some (SInt32 a) else if k = ''commitIndex'' then Some (SInt32 c)
      else if k = ''log'' then Some (SLog l) else if k = ''votedFor'' then Some (SInt32 v)
      else if k = ''currentTerm'' then Some (SInt32 t) else s k)"
  by (simp add: saved_storage_def)

lemma PersistToStorage_code [code]:
  "PersistToStorage node =
     (let s = saved_storage (storage node) (currentTerm node) (votedFor node) (log node) (commitIndex node) (lastApplied node)
      in node\<lparr>storage := s, disk := WriteFile s\<rparr>)"
  by (simp add: PersistToStorage_def saved_storage_def storage_Set_def Let_def)

section \<open>The run\<close>

text \<open>Rounds whose calls to the given replicas are all delivered, and no others.\<close>

definition towards :: "nat list \<Rightarrow> circumstances" where
  "towards js = (\<lambda>gs. gs, \<lambda>j. if j \<in> set js then replicate 4 Delivered else [])"

definition voting_of :: "nat \<Rightarrow> nat list \<Rightarrow> action list" where
  "voting_of k js = concat (map (\<lambda>j. map Environment (ballot k j)) js)"

definition post :: "nat \<Rightarrow> string \<Rightarrow> string \<Rightarrow> string \<Rightarrow> nat list \<Rightarrow> action" where
  "post i key v client js = Request i (CWrite [''POST'', key, v] client) (towards js) (towards js)"

text \<open>A key-value server that is a map, and that answers as the program's server does.\<close>

definition map_server :: "(string \<Rightarrow> string option) transport" where
  "map_server r m =
     (let key = drop (length (kv_url '':3000'' [])) (http_url r);
          v = (case http_form r of [] \<Rightarrow> [] | (f, x) # _ \<Rightarrow> x)
      in (True,
          case http_method r of
            GET \<Rightarrow> m
          | POST \<Rightarrow> spec_op [''POST'', key, v] m
          | PUT \<Rightarrow> spec_op [''PUT'', key, v] m
          | DELETE \<Rightarrow> spec_op [''DELETE'', key] m))"

definition map_get :: "(string \<Rightarrow> string option) \<Rightarrow> string \<Rightarrow> (string + string) option" where
  "map_get m key = Some (Inr (contents (m key)))"

text \<open>
  Replica 0 leads in term 1 and gets its entries to replica 1 only.  Replica 2 leads in term 2
  with the votes of 3 and 4, gets its entries to 1 and 3, and acknowledges a write.  Replica 0
  learns of term 2, leads in term 3 with the votes of 1 and 4, takes a write, and a client reads
  the key of the acknowledged write.
\<close>

definition first_reign :: "action list" where
  "first_reign =
     Environment (Timeout 0) # voting_of 0 [1, 2] @
     [Synchronise 0 (towards [1]), post 0 ''a'' ''1'' ''A'' [1], post 0 ''b'' ''2'' ''A'' [1]]"

definition second_reign :: "action list" where
  "second_reign =
     Environment (Timeout 2) # voting_of 1 [3, 4] @
     [Synchronise 2 (towards [1, 3]), Apply 2, post 2 ''k'' ''x'' ''B'' [1, 3], Apply 2]"

definition third_reign :: "action list" where
  "third_reign =
     [Synchronise 0 (towards [3]), Environment (Timeout 0)] @ voting_of 2 [1, 4] @
     [Synchronise 0 (towards [1, 2, 3, 4]), Apply 0, post 0 ''d'' ''4'' ''D'' [1, 4], Apply 0,
      Request 0 (CRead ''k'') (towards [1, 4]) (towards [1, 4])]"

text \<open>The states before the loss and after it.\<close>

abbreviation acknowledging :: "(string \<Rightarrow> string option) system option" where
  "acknowledging \<equiv> tidy_run map_server map_get (\<lambda>m. m) (first_reign @ second_reign) (sys_init 5 (\<lambda>_. Map.empty))"

abbreviation losing :: "(string \<Rightarrow> string option) system option" where
  "losing \<equiv> tidy_run map_server map_get (\<lambda>m. m) (first_reign @ second_reign @ third_reign) (sys_init 5 (\<lambda>_. Map.empty))"

definition lost_entry :: LogEntry where
  "lost_entry = \<lparr>Term = 2, Operation = [''POST'', ''k'', ''x''], Clientid = ''B''\<rparr>"

text \<open>The replicas that hold an entry.\<close>

definition holding :: "LogEntry \<Rightarrow> 's system \<Rightarrow> nat list" where
  "holding e s = filter (\<lambda>i. e \<in> set (log (nodes (grid s) i))) [0..<size (grid s)]"

lemma acknowledging_facts:
  "map_option (\<lambda>s. (hd (replies s), holding lost_entry s, commitIndex (nodes (grid s) 2),
       log (nodes (grid s) 2) ! 1)) acknowledging
   = Some ((2, CWrite [''POST'', ''k'', ''x''] ''B'', Wrote True None), [1, 2, 3], 1, lost_entry)"
  by code_simp

lemma losing_facts:
  "map_option (\<lambda>s. (hd (replies s), winners (grid s), holding lost_entry s,
       map (\<lambda>i. (log (nodes (grid s) i) ! 1, commitIndex (nodes (grid s) i), lastApplied (nodes (grid s) i))) [0, 2],
       servers s 0 ''a'', servers s 2 ''k'')) losing
   = Some ((0, CRead ''k'', Got (Inr (''Invalid key value pair'' @ nl))), [(3, 0), (2, 2), (1, 0)], [1],
       [(\<lparr>Term = 1, Operation = [''POST'', ''a'', ''1''], Clientid = ''A''\<rparr>, 1, 1),
        (\<lparr>Term = 1, Operation = [''POST'', ''a'', ''1''], Clientid = ''A''\<rparr>, 1, 1)],
       Some ''1'', Some ''x'')"
  by code_simp

section \<open>Properties\<close>

lemma fair_reigns: "list_all fair_schedules (first_reign @ second_reign @ third_reign)"
  by (simp add: first_reign_def second_reign_def third_reign_def voting_of_def ballot_def post_def towards_def)

text \<open>
  C3: an acknowledged write can be lost: in a run of the system in which no replica fails, no
  message is delivered late and the scheduling condition of election safety holds, a client is
  told that its write is committed, its entry is on a majority at the commit index of the leader
  and applied there; then a replica without the entry is elected in a later term, overwrites it,
  and answers a client that the key does not exist; and two replicas have applied different
  entries at the same index.
\<close>

theorem acknowledged_write_lost:
  "\<exists>s s'. sys_run map_server map_get (\<lambda>m. m) (first_reign @ second_reign) (sys_init 5 (\<lambda>_. Map.empty)) = Some s \<and>
     sys_run map_server map_get (\<lambda>m. m) (first_reign @ second_reign @ third_reign) (sys_init 5 (\<lambda>_. Map.empty)) = Some s' \<and>
     reachable 5 (grid s') \<and>
     hd (replies s) = (2, CWrite [''POST'', ''k'', ''x''] ''B'', Wrote True None) \<and>
     holding lost_entry s = [1, 2, 3] \<and> commitIndex (nodes (grid s) 2) = 1 \<and> log (nodes (grid s) 2) ! 1 = lost_entry \<and>
     (3, 0) \<in> set (winners (grid s')) \<and> holding lost_entry s' = [1] \<and>
     hd (replies s') = (0, CRead ''k'', Got (Inr (''Invalid key value pair'' @ nl))) \<and>
     lastApplied (nodes (grid s') 0) = 1 \<and> servers s' 0 ''a'' = Some ''1'' \<and>
     lastApplied (nodes (grid s') 2) = 1 \<and> servers s' 2 ''k'' = Some ''x''"
proof -
  have N: "(5::nat) < 2147483648" by simp
  have init: "reachable 5 (grid (sys_init 5 (\<lambda>_. Map.empty :: string \<Rightarrow> string option)))"
    using start [of 5] by (simp add: sys_init_def)
  from acknowledging_facts obtain s where s: "acknowledging = Some s"
    "hd (replies s) = (2, CWrite [''POST'', ''k'', ''x''] ''B'', Wrote True None)" "holding lost_entry s = [1, 2, 3]"
    "commitIndex (nodes (grid s) 2) = 1" "log (nodes (grid s) 2) ! 1 = lost_entry"
    by (auto simp del: tidy_run.simps)
  from losing_facts obtain s' where s': "losing = Some s'" "winners (grid s') = [(3, 0), (2, 2), (1, 0)]"
    "holding lost_entry s' = [1]" "hd (replies s') = (0, CRead ''k'', Got (Inr (''Invalid key value pair'' @ nl)))"
    "lastApplied (nodes (grid s') 0) = 1" "servers s' 0 ''a'' = Some ''1''"
    "lastApplied (nodes (grid s') 2) = 1" "servers s' 2 ''k'' = Some ''x''"
    by (auto simp del: tidy_run.simps)
  note r = tidy_run_sys_run [OF s(1) _ init N] tidy_run_sys_run [OF s'(1) fair_reigns init N]
  have "admits (grid (sys_init 5 (\<lambda>_. Map.empty :: string \<Rightarrow> string option))) (grid s')"
    using r(2) by (intro sys_run_admits [OF _ _ init N]) blast+
  from admits_reachable [OF init this] have "reachable 5 (grid s')" .
  with r s s' fair_reigns show ?thesis by (intro exI [of _ s] exI [of _ s']) simp
qed

end
