(* ===== verification/Raft_Failover.thy ===== *)
theory Raft_Failover
  imports Raft_Session
begin

text \<open>
  The service across a change of leader: the rounds of \<open>ToLeader\<close> (\<^verbatim>\<open>src/raft/states.go\<close>), the
  apply loop for the NO-OP entry, and then any sequence of client requests at the new leader.  A
  new leader that has committed and applied its whole log continues the map of the old one.  One
  that has inherited entries behind its commit index stays behind by their number for as long
  as it leads, because each success moves the commit index by one: it refines the lagging
  specification of \<open>Raft_Session\<close>, in which an acknowledged write takes effect only that many
  writes later.
\<close>

section \<open>The new leader after its NO-OP round\<close>

text \<open>The operations that it has not applied yet, with the NO-OP.\<close>

definition inherited :: "RaftNode \<Rightarrow> string list list" where
  "inherited n = map Operation (drop (nat (commitIndex n + 1)) (log n)) @ [[''NO-OP'']]"

definition heir_spec :: "RaftNode \<Rightarrow> spec \<times> string list list" where
  "heir_spec n =
     (\<lparr>sp_map = spec_op (hd (inherited n)) (replay (take (nat (commitIndex n + 1)) (log n)) (\<lambda>_. None)),
       sp_last = trackMessage n, sp_latest = latestClient (Meta n)\<rparr>, tl (inherited n))"

lemma fresh_after_noop:
  assumes "fresh_term n p" and "moved (snd (ToLeader_begin n)) p p'" and "currentTerm n2 = currentTerm n"
    and "log n2 = log n @ [noop_entry (currentTerm n)]"
  shows "fresh_term n2 p'"
proof -
  have "fresh_term (snd (ToLeader_begin n)) p"
    using assms(1) set_drop_subset_set_drop [of "length (log n)" "Suc (length (log n))" "log p"]
    by (auto simp: fresh_term_def)
  from fresh_moved [OF assms(2) this] show ?thesis by (simp add: fresh_term_def assms(3,4))
qed

lemma new_leader_lagging:
  assumes "connected N i n" and "i < N" and "2 \<le> N" and "N < 2147483647"
    and "int (length (log n)) + 1 < 2147483648" and "-1 \<le> commitIndex n" and "commitIndex n < int (length (log n))"
    and "lastApplied n = commitIndex n" and "\<forall>c \<in> set rounds. permuting (fst c)"
    and "\<forall>j < N. j \<noteq> i \<longrightarrow> follows n (peers j) \<and> fresh_term n (peers j)"
    and "\<exists>c \<in> set rounds. N < 2 * card (responders N i (snd (ToLeader_begin n)) (snd c))"
    and "http_transport send (kvstore_addr (Meta n))"
    and "kv_rel (replay (take (nat (commitIndex n + 1)) (log n)) (\<lambda>_. None)) kv"
    and "\<forall>e \<in> set (log n). op_ok (Operation e)"
  shows "\<exists>n1 peers1 n2 kv2. ToLeader rounds (n, peers) = Inr (Synchronised, n1, peers1) \<and>
     ApplyToStateMachine send 1 n1 kv = Inr (n2, kv2) \<and> length (log n2) = length (log n) + 1 \<and>
     lagging N i send (n2, peers1, kv2) (heir_spec n)"
proof -
  let ?b = "snd (ToLeader_begin n)" and ?k = "nat (commitIndex n + 1)"
  from ToLeader_follow [OF assms(1-7,9-11)] obtain n0 peers1 where
    t: "ToLeader rounds (n, peers) = Inr (Synchronised, ToLeader_success n0, peers1)" "leading N i n0"
      "leader_frame ?b n0" "\<forall>j < N. j \<noteq> i \<longrightarrow> moved ?b (peers j) (peers1 j)" by blast
  note fr = leader_frame_fields [OF t(3)]
  define n1 where "n1 = ToLeader_success n0"
  have c: "i32 (commitIndex n + 1) = commitIndex n + 1" using assms(5-7) by (simp add: i32_id)
  have n1: "log n1 = log n @ [noop_entry (currentTerm n)]" "commitIndex n1 = commitIndex n + 1"
    "lastApplied n1 = commitIndex n" "currentTerm n1 = currentTerm n" "trackMessage n1 = trackMessage n"
    "Meta n1 = Meta n0" "nextIndex n1 = nextIndex n0" "matchIndex n1 = matchIndex n0" "state n1 = state n0"
    using c assms(8) by (simp_all add: n1_def fr ToLeader_success_def Let_def)
  have m: "kvstore_addr (Meta n1) = kvstore_addr (Meta n)" "latestClient (Meta n1) = latestClient (Meta n)"
    by (simp_all add: n1(6) fr ToLeader_begin_def Let_def)
  have lead: "leading N i n1"
    by (rule leading_transfer [OF t(2)]) (use n1 assms(6,7) in \<open>simp_all add: fr\<close>)
  have kk: "nat (commitIndex n1) = ?k" "nat (commitIndex n1 + 1) = Suc ?k" using assms(6) by (simp_all add: n1(2))
  have kl: "?k < length (log n1)" "?k \<le> length (log n)" using assms(6,7) by (simp_all add: n1(1))
  have q: "map Operation (drop ?k (log n1)) = inherited n"
    using kl(2) by (simp add: inherited_def n1(1) noop_entry_def)
  note qs = queue_step [OF q kl(1)]
  have ops: "\<forall>x \<in> set (inherited n). op_ok x"
    using assms(14) by (auto simp: inherited_def op_ok_def dest: in_set_dropD)
  moreover have ne: "inherited n \<noteq> []" by (simp add: inherited_def)
  ultimately have "op_ok (Operation (log n1 ! nat (commitIndex n1)))" unfolding kk qs(1) by simp
  moreover have tk: "replay (take ?k (log n1)) (\<lambda>_. None) = replay (take ?k (log n)) (\<lambda>_. None)" using kl(2) by (simp add: n1(1))
  then have "kv_rel (replay (take (nat (commitIndex n1)) (log n1)) (\<lambda>_. None)) kv" using assms(13) by (simp add: kk)
  moreover have "commitIndex n1 = lastApplied n1 + 1" "-1 \<le> lastApplied n1" "http_transport send (kvstore_addr (Meta n1))"
    using assms(6,12) by (simp_all add: n1(2,3) m)
  ultimately obtain n2 kv2 where
    a: "ApplyToStateMachine send 1 n1 kv = Inr (n2, kv2)" "leading N i n2" "settled n2" "log n2 = log n1"
      "commitIndex n2 = commitIndex n1" "currentTerm n2 = currentTerm n1" "Meta n2 = Meta n1"
      "trackMessage n2 = trackMessage n1" "kv_rel (replay (take (Suc ?k) (log n1)) (\<lambda>_. None)) kv2"
    using leader_applies_next [OF _ lead, of send kv] unfolding kk by blast
  have "follows n2 (peers1 j)" "fresh_term n2 (peers1 j)" if "j < N" "j \<noteq> i" for j
  proof -
    have mv: "moved ?b (peers j) (peers1 j)" using t(4) that by blast
    then show "follows n2 (peers1 j)" by (simp add: moved_def follows_def a(4,6) n1(1,4))
    have "fresh_term n (peers j)" using assms(10) that by blast
    from fresh_after_noop [OF this mv] show "fresh_term n2 (peers1 j)" by (simp add: a(4,6) n1(1,4))
  qed
  moreover have "\<forall>x \<in> set (tl (inherited n)). op_ok x" using ops ne by (meson list.set_sel(2))
  moreover have "nat (commitIndex n2 + 1) = Suc ?k" by (simp add: a(5) kk(2))
  ultimately have "lagging N i send (n2, peers1, kv2) (heir_spec n)"
    using a(2,3,9) assms(12) qs(2,3) tk
    by (simp add: lagging_def heir_spec_def peers_follow_def a(4,7,8) m n1(5))
  moreover have "length (log n2) = length (log n) + 1" by (simp add: a(4) n1(1))
  ultimately show ?thesis using t(1) a(1) unfolding n1_def by blast
qed

section \<open>A new leader among three replicas\<close>

text \<open>It has inherited an entry that it does not know to be committed.\<close>

lemma demo_heir_facts:
  "log demo_heir = [demo_entry 1]" "commitIndex demo_heir = -1" "lastApplied demo_heir = -1"
  "currentTerm demo_heir = 2" "trackMessage demo_heir = (\<lambda>_. None)" "latestClient (Meta demo_heir) = []"
  "kvstore_addr (Meta demo_heir) = '':3000''"
  by (simp_all add: demo_heir_def) (simp_all add: demo_node_def initial_node_def Let_def ConnectToPeerReplicas_def)

lemma demo_heir_connected: "connected 3 0 demo_heir"
  unfolding demo_heir_def by (rule demo_candidate_connected)

lemma demo_heir_followed: "\<forall>j < 3. j \<noteq> 0 \<longrightarrow> follows demo_heir (demo_peers j) \<and> fresh_term demo_heir (demo_peers j)"
  by (simp add: follows_def fresh_term_def demo_peers_def small_def log_match_def demo_heir_def)

lemma demo_heir_majority:
  "\<exists>c \<in> set [(rev, demo_net)]. 3 < 2 * card (responders 3 0 (snd (ToLeader_begin demo_heir)) (snd c))"
proof -
  have "responders 3 0 (snd (ToLeader_begin demo_heir)) demo_net = {0, 1}"
    unfolding responders_def by (rule demo_responders) (simp add: demo_heir_facts)
  then show ?thesis by simp
qed

text \<open>A candidate of term 3 that has committed and applied the log of the leader \<open>demo_settled\<close>.\<close>

definition demo_successor :: RaftNode where
  "demo_successor = (demo_node 3 1 3 Candidate [demo_entry 1, demo_entry 2])\<lparr>commitIndex := 1, lastApplied := 1\<rparr>"

definition demo_reach1 :: circumstances where
  "demo_reach1 = (rev, \<lambda>j. if j = 0 then replicate 8 Delivered else [])"

lemma demo_reaching1: "reaching 3 1 8 demo_reach1"
  by (rule two_of_three_reach [where j = 0 and rest = "[]"]) (simp_all add: demo_reach1_def)

lemma demo_successor_facts:
  "log demo_successor = [demo_entry 1, demo_entry 2]" "commitIndex demo_successor = 1" "lastApplied demo_successor = 1"
  "currentTerm demo_successor = 3" "trackMessage demo_successor = (\<lambda>_. None)" "latestClient (Meta demo_successor) = []"
  "kvstore_addr (Meta demo_successor) = '':3000''"
  by (simp_all add: demo_successor_def) (simp_all add: demo_node_def initial_node_def Let_def ConnectToPeerReplicas_def)

lemma demo_successor_connected: "connected 3 1 demo_successor"
  by (simp add: connected_def demo_successor_def demo_node_def initial_node_def i32_id Let_def)

section \<open>Properties\<close>

text \<open>
  C9: the service after a change of leader refines a lagging map. A candidate that has won has
  applied what it knows to be committed; no peer is in a newer term, every peer's log matches
  its own and has no entry of the new term; the transport behaves as
  \<open>http_transport\<close> says; all operations, inherited or new, have keys that URL
  parsing and routing keep and values other than \<open>Invalid\<close>; goroutines of a round
  run one after another; some NO-OP round reaches a majority and so does every later round. Then
  the loop of \<open>ToLeader\<close> synchronises the NO-OP entry, the apply loop applies one
  entry, and from then on every sequence of requests is answered as the map answers it in which
  the operations of the inherited entries, and then each acknowledged write, wait in a queue and
  take effect one per further acknowledged write.
\<close>

theorem failover_refines_lagging_map:
  assumes "connected N i n" and "i < N" and "2 \<le> N" and "N < 2147483647"
    and "int (length (log n)) + 1 < 2147483648" and "-1 \<le> commitIndex n" and "commitIndex n < int (length (log n))"
    and "lastApplied n = commitIndex n" and "\<forall>c \<in> set rounds. permuting (fst c)"
    and "\<forall>j < N. j \<noteq> i \<longrightarrow> follows n (peers j) \<and> fresh_term n (peers j)"
    and "\<exists>c \<in> set rounds. N < 2 * card (responders N i (snd (ToLeader_begin n)) (snd c))"
    and "http_transport send (kvstore_addr (Meta n))"
    and "kv_rel (replay (take (nat (commitIndex n + 1)) (log n)) (\<lambda>_. None)) kv"
    and "\<forall>e \<in> set (log n). op_ok (Operation e)"
    and "\<forall>(request, rc, c) \<in> set ops. request_ok request \<and> reaching N i K rc \<and> reaching N i K c"
    and "length (log n) + length ops + 2 \<le> K" and "K < 2147483647"
  shows "\<exists>n1 peers1 n2 kv2 s'. ToLeader rounds (n, peers) = Inr (Synchronised, n1, peers1) \<and>
     ApplyToStateMachine send 1 n1 kv = Inr (n2, kv2) \<and>
     serve_all send ops (n2, peers1, kv2) = Inr (Some (fst (lag_serve_all (map fst ops) (heir_spec n)), s')) \<and>
     lagging N i send s' (snd (lag_serve_all (map fst ops) (heir_spec n)))"
proof -
  from new_leader_lagging [OF assms(1-14)] obtain n1 peers1 n2 kv2 where
    l: "ToLeader rounds (n, peers) = Inr (Synchronised, n1, peers1)" "ApplyToStateMachine send 1 n1 kv = Inr (n2, kv2)"
      "length (log n2) = length (log n) + 1" "lagging N i send (n2, peers1, kv2) (heir_spec n)" by blast
  have "length (log n2) + length ops + 1 \<le> K" using l(3) assms(16) by simp
  from serve_all_sim [OF _ assms(2-4,15) this assms(17), of send peers1 kv2 "fst (heir_spec n)" "snd (heir_spec n)"] l(4)
  obtain s' where "serve_all send ops (n2, peers1, kv2) = Inr (Some (fst (lag_serve_all (map fst ops) (heir_spec n)), s'))"
    "lagging N i send s' (snd (lag_serve_all (map fst ops) (heir_spec n)))" unfolding prod.collapse by blast
  with l(1,2) show ?thesis by blast
qed

theorem failover_refines_lagging_map_witness:
  "\<exists>n1 peers1 n2 kv2 s'. ToLeader [(rev, demo_net)] (demo_heir, demo_peers) = Inr (Synchronised, n1, peers1) \<and>
     ApplyToStateMachine (loopback '':3000'') 1 n1 demo_kv = Inr (n2, kv2) \<and>
     serve_all (loopback '':3000'') (map (\<lambda>r. (r, demo_reach, demo_reach))
         [CWrite [''POST'', ''k'', ''v''] ''c'', CRead ''k'', CWrite [''POST'', ''m'', ''w''] ''c'', CRead ''k'']) (n2, peers1, kv2)
       = Inr (Some ([Wrote True None, Got (Inr (''Invalid key value pair'' @ nl)), Wrote True None,
                     Got (Inr (''Value = v'' @ nl))], s'))"
proof -
  let ?ops = "map (\<lambda>r. (r, demo_reach, demo_reach))
      [CWrite [''POST'', ''k'', ''v''] ''c'', CRead ''k'', CWrite [''POST'', ''m'', ''w''] ''c'', CRead ''k'']"
  note h = demo_heir_facts
  have rounds: "\<forall>c \<in> set [(rev, demo_net)]. permuting (fst c)" by simp
  have tr: "http_transport (loopback '':3000'') (kvstore_addr (Meta demo_heir))"
    by (simp add: h lo.http_transport_axioms)
  have kv: "kv_rel (replay (take (nat (commitIndex demo_heir + 1)) (log demo_heir)) (\<lambda>_. None)) demo_kv" by (simp add: h)
  have ops: "\<forall>e \<in> set (log demo_heir). op_ok (Operation e)" by (simp add: h demo_entry_def op_ok_def)
  have req: "\<forall>(request, rc, c) \<in> set ?ops. request_ok request \<and> reaching 3 0 8 rc \<and> reaching 3 0 8 c"
    by (simp add: request_ok_def demo_reaching)
  have side: "(0::nat) < 3" "(2::nat) \<le> 3" "(3::nat) < 2147483647" "int (length (log demo_heir)) + 1 < 2147483648"
    "-1 \<le> commitIndex demo_heir" "commitIndex demo_heir < int (length (log demo_heir))"
    "lastApplied demo_heir = commitIndex demo_heir" "length (log demo_heir) + length ?ops + 2 \<le> 8" "(8::nat) < 2147483647"
    by (simp_all add: h)
  have ans: "fst (lag_serve_all (map fst ?ops) (heir_spec demo_heir)) =
      [Wrote True None, Got (Inr (''Invalid key value pair'' @ nl)), Wrote True None, Got (Inr (''Value = v'' @ nl))]"
    by (simp add: heir_spec_def inherited_def h lag_serve_def contents_def demo_entry_def)
  from failover_refines_lagging_map [OF demo_heir_connected side(1-7) rounds demo_heir_followed demo_heir_majority tr kv ops req side(8,9)]
  show ?thesis unfolding ans by blast
qed

text \<open>
  C10: the service survives a change of leader. A leader was serving a map, all of its log
  committed and applied; a replica with the same log, all of it committed and applied, has been
  elected; no peer is in a newer term, every peer's log matches its own and has no entry of the
  new term; the transport behaves as \<open>http_transport\<close> says, all operations of the
  log and of the requests have keys that URL parsing and routing keep and values other than
  \<open>Invalid\<close>; goroutines of a round run one after another; some NO-OP round reaches
  a majority and so does every later round. Then the new leader synchronises its NO-OP entry,
  applies it, and answers every sequence of requests as the map of the old leader does; only the
  record of the last operations, by which repetitions are recognised, is the new leader's own.
\<close>

theorem service_survives_failover:
  assumes "serving N i0 send0 (n0, peers0, kv0) sp0" and "log n = log n0" and "commitIndex n = commitIndex n0"
    and "connected N i n" and "i < N" and "2 \<le> N" and "N < 2147483647" and "int (length (log n)) + 1 < 2147483648"
    and "lastApplied n = commitIndex n" and "\<forall>c \<in> set rounds. permuting (fst c)"
    and "\<forall>j < N. j \<noteq> i \<longrightarrow> follows n (peers j) \<and> fresh_term n (peers j)"
    and "\<exists>c \<in> set rounds. N < 2 * card (responders N i (snd (ToLeader_begin n)) (snd c))"
    and "http_transport send (kvstore_addr (Meta n))"
    and "kv_rel (replay (take (nat (lastApplied n + 1)) (log n)) (\<lambda>_. None)) kv"
    and "\<forall>e \<in> set (log n). op_ok (Operation e)"
    and "\<forall>(request, rc, c) \<in> set ops. request_ok request \<and> reaching N i K rc \<and> reaching N i K c"
    and "length (log n) + length ops + 2 \<le> K" and "K < 2147483647"
  shows "\<exists>n1 peers1 n2 kv2 s'. ToLeader rounds (n, peers) = Inr (Synchronised, n1, peers1) \<and>
     ApplyToStateMachine send 1 n1 kv = Inr (n2, kv2) \<and>
     serve_all send ops (n2, peers1, kv2) =
       Inr (Some (fst (spec_serve_all (map fst ops)
                         (sp0\<lparr>sp_last := trackMessage n, sp_latest := latestClient (Meta n)\<rparr>)), s')) \<and>
     serving N i send s' (snd (spec_serve_all (map fst ops)
                            (sp0\<lparr>sp_last := trackMessage n, sp_latest := latestClient (Meta n)\<rparr>)))"
proof -
  let ?sp = "sp0\<lparr>sp_last := trackMessage n, sp_latest := latestClient (Meta n)\<rparr>"
  have s0: "commitIndex n + 1 = int (length (log n))" "replay (log n) (\<lambda>_. None) = sp_map sp0" "log n \<noteq> []"
    using assms(1) by (simp_all add: serving_def settled_def assms(2,3))
  have c: "-1 \<le> commitIndex n" "commitIndex n < int (length (log n))" using s0(1) by simp_all
  have all: "nat (commitIndex n + 1) = length (log n)" using s0(1) by simp
  have kv: "kv_rel (replay (take (nat (commitIndex n + 1)) (log n)) (\<lambda>_. None)) kv"
    using assms(14) by (simp add: assms(9))
  have h: "heir_spec n = (?sp, [])" by (cases sp0) (simp add: heir_spec_def inherited_def all s0(2))
  from new_leader_lagging [OF assms(4-8) c assms(9-13) kv assms(15)] obtain n1 peers1 n2 kv2 where
    l: "ToLeader rounds (n, peers) = Inr (Synchronised, n1, peers1)" "ApplyToStateMachine send 1 n1 kv = Inr (n2, kv2)"
      "length (log n2) = length (log n) + 1" "lagging N i send (n2, peers1, kv2) (?sp, [])" unfolding h by blast
  have "length (log n2) + length ops + 1 \<le> K" using l(3) assms(17) by simp
  from serve_all_sim [OF l(4) assms(5-7,16) this assms(18)] l(1,2) show ?thesis
    unfolding lag_serve_all_empty fst_conv snd_conv serving_lagging [symmetric] by blast
qed

theorem service_survives_failover_witness:
  "\<exists>n1 peers1 n2 kv2 s'. ToLeader [demo_reach1] (demo_successor, demo_peers) = Inr (Synchronised, n1, peers1) \<and>
     ApplyToStateMachine (loopback '':3000'') 1 n1 demo_kv = Inr (n2, kv2) \<and>
     serve_all (loopback '':3000'') (map (\<lambda>r. (r, demo_reach1, demo_reach1))
         [CWrite [''POST'', ''k'', ''v''] ''c'', CRead ''k'']) (n2, peers1, kv2)
       = Inr (Some ([Wrote True None, Got (Inr (''Value = v'' @ nl))], s'))"
proof -
  let ?ops = "map (\<lambda>r. (r, demo_reach1, demo_reach1)) [CWrite [''POST'', ''k'', ''v''] ''c'', CRead ''k'']"
  note h = demo_successor_facts
  have rounds: "\<forall>c \<in> set [demo_reach1]. permuting (fst c)" by (simp add: demo_reach1_def)
  have maj: "\<exists>c \<in> set [demo_reach1]. 3 < 2 * card (responders 3 1 (snd (ToLeader_begin demo_successor)) (snd c))"
    using reaching_responders(2) [OF demo_reaching1, of "snd (ToLeader_begin demo_successor)"] by (simp add: h)
  have f: "\<forall>j < 3. j \<noteq> 1 \<longrightarrow> follows demo_successor (demo_peers j) \<and> fresh_term demo_successor (demo_peers j)"
    by (simp add: follows_def fresh_term_def demo_peers_def small_def log_match_def h)
  have tr: "http_transport (loopback '':3000'') (kvstore_addr (Meta demo_successor))"
    by (simp add: h lo.http_transport_axioms)
  have kv: "kv_rel (replay (take (nat (lastApplied demo_successor + 1)) (log demo_successor)) (\<lambda>_. None)) demo_kv"
    by (simp add: h demo_entry_def)
  have ops: "\<forall>e \<in> set (log demo_successor). op_ok (Operation e)" by (simp add: h demo_entry_def op_ok_def)
  have req: "\<forall>(request, rc, c) \<in> set ?ops. request_ok request \<and> reaching 3 1 8 rc \<and> reaching 3 1 8 c"
    using demo_reaching1 by (simp add: request_ok_def)
  have side: "log demo_successor = log demo_settled" "commitIndex demo_successor = commitIndex demo_settled"
    "(1::nat) < 3" "(2::nat) \<le> 3" "(3::nat) < 2147483647" "int (length (log demo_successor)) + 1 < 2147483648"
    "lastApplied demo_successor = commitIndex demo_successor"
    "length (log demo_successor) + length ?ops + 2 \<le> 8" "(8::nat) < 2147483647"
    by (simp_all add: h)
  have ans: "fst (spec_serve_all (map fst ?ops)
        (demo_spec\<lparr>sp_last := trackMessage demo_successor, sp_latest := latestClient (Meta demo_successor)\<rparr>)) =
      [Wrote True None, Got (Inr (''Value = v'' @ nl))]"
    by (simp add: h demo_spec_def spec_serve_def contents_def)
  from service_survives_failover [OF demo_serving side(1,2) demo_successor_connected side(3-7) rounds f maj tr kv ops req side(8,9)]
  show ?thesis unfolding ans by blast
qed

text \<open>
  C11: reads are stale after a change of leader: when the new leader has inherited an entry behind
  its commit index that it has to count again, a POST is acknowledged, and a GET of the same key
  right after it, confirmed by a majority, returns the value of the key in the log up to the
  first two of the entries that the leader had not committed, without the POST.
\<close>

theorem stale_read_after_failover:
  assumes "connected N i n" and "i < N" and "2 \<le> N" and "N < 2147483647"
    and "int (length (log n)) + 1 < 2147483648" and "-1 \<le> commitIndex n" and "commitIndex n + 1 < int (length (log n))"
    and "lastApplied n = commitIndex n" and "\<forall>c \<in> set rounds. permuting (fst c)"
    and "\<forall>j < N. j \<noteq> i \<longrightarrow> follows n (peers j) \<and> fresh_term n (peers j)"
    and "\<exists>c \<in> set rounds. N < 2 * card (responders N i (snd (ToLeader_begin n)) (snd c))"
    and "http_transport send (kvstore_addr (Meta n))"
    and "kv_rel (replay (take (nat (commitIndex n + 1)) (log n)) (\<lambda>_. None)) kv"
    and "\<forall>e \<in> set (log n). op_ok (Operation e)"
    and "reaching N i K c" and "length (log n) + 4 \<le> K" and "K < 2147483647"
    and "readable key" and "v \<noteq> ''Invalid''" and "trackMessage n client \<noteq> Some [''POST'', key, v]"
  shows "\<exists>n1 peers1 n2 kv2 s'. ToLeader rounds (n, peers) = Inr (Synchronised, n1, peers1) \<and>
     ApplyToStateMachine send 1 n1 kv = Inr (n2, kv2) \<and>
     serve_all send [(CWrite [''POST'', key, v] client, c, c), (CRead key, c, c)] (n2, peers1, kv2) =
       Inr (Some ([Wrote True None,
                   Got (Inr (contents (replay (take (nat (commitIndex n + 3)) (log n @ [noop_entry (currentTerm n)]))
                                         (\<lambda>_. None) key)))], s'))"
proof -
  let ?ops = "[(CWrite [''POST'', key, v] client, c, c), (CRead key, c, c)]"
  let ?k = "nat (commitIndex n + 1)" and ?l = "log n @ [noop_entry (currentTerm n)]"
  have c: "commitIndex n < int (length (log n))" using assms(7) by simp
  from new_leader_lagging [OF assms(1-6) c assms(8-14)] obtain n1 peers1 n2 kv2 where
    l: "ToLeader rounds (n, peers) = Inr (Synchronised, n1, peers1)" "ApplyToStateMachine send 1 n1 kv = Inr (n2, kv2)"
      "length (log n2) = length (log n) + 1" "lagging N i send (n2, peers1, kv2) (heir_spec n)" by blast
  have k: "?k < length ?l" "Suc ?k < length ?l" "?k \<le> length (log n)" "nat (commitIndex n + 3) = Suc (Suc ?k)"
    using assms(6,7) by auto
  have q: "map Operation (drop ?k ?l) = inherited n" using k(3) by (simp add: inherited_def noop_entry_def)
  note q1 = queue_step [OF q k(1)]
  note q2 = queue_step [OF q1(2) k(2)]
  have "tl (inherited n) \<noteq> []" using k(2) by (simp flip: q1(2))
  then have "fst (lag_serve_all (map fst ?ops) (heir_spec n)) =
      [Wrote True None, Got (Inr (contents (replay (take (nat (commitIndex n + 3)) ?l) (\<lambda>_. None) key)))]"
    using assms(20) q1(3) q2(3) k(3,4) by (simp add: heir_spec_def lag_serve_def hd_append)
  moreover have "\<forall>(request, rc, c) \<in> set ?ops. request_ok request \<and> reaching N i K rc \<and> reaching N i K c"
    using assms(15,18,19) by (simp add: request_ok_def)
  moreover have "length (log n2) + length ?ops + 1 \<le> K" using l(3) assms(16) by simp
  ultimately obtain s' where "serve_all send ?ops (n2, peers1, kv2) =
      Inr (Some ([Wrote True None, Got (Inr (contents (replay (take (nat (commitIndex n + 3)) ?l) (\<lambda>_. None) key)))], s'))"
    using serve_all_sim [OF _ assms(2-4) _ _ assms(17), of send n2 peers1 kv2 "fst (heir_spec n)" "snd (heir_spec n)"] l(4)
    unfolding prod.collapse by metis
  with l(1,2) show ?thesis by blast
qed

theorem stale_read_after_failover_witness:
  "\<exists>n1 peers1 n2 kv2 s'. ToLeader [(rev, demo_net)] (demo_heir, demo_peers) = Inr (Synchronised, n1, peers1) \<and>
     ApplyToStateMachine (loopback '':3000'') 1 n1 demo_kv = Inr (n2, kv2) \<and>
     serve_all (loopback '':3000'') [(CWrite [''POST'', ''k'', ''v''] ''c'', demo_reach, demo_reach), (CRead ''k'', demo_reach, demo_reach)]
       (n2, peers1, kv2) = Inr (Some ([Wrote True None, Got (Inr (''Invalid key value pair'' @ nl))], s'))"
proof -
  note h = demo_heir_facts
  have rounds: "\<forall>c \<in> set [(rev, demo_net)]. permuting (fst c)" by simp
  have tr: "http_transport (loopback '':3000'') (kvstore_addr (Meta demo_heir))"
    by (simp add: h lo.http_transport_axioms)
  have kv: "kv_rel (replay (take (nat (commitIndex demo_heir + 1)) (log demo_heir)) (\<lambda>_. None)) demo_kv" by (simp add: h)
  have ops: "\<forall>e \<in> set (log demo_heir). op_ok (Operation e)" by (simp add: h demo_entry_def op_ok_def)
  have side: "(0::nat) < 3" "(2::nat) \<le> 3" "(3::nat) < 2147483647" "int (length (log demo_heir)) + 1 < 2147483648"
    "-1 \<le> commitIndex demo_heir" "commitIndex demo_heir + 1 < int (length (log demo_heir))"
    "lastApplied demo_heir = commitIndex demo_heir" "length (log demo_heir) + 4 \<le> 8" "(8::nat) < 2147483647"
    "readable ''k''" "''v'' \<noteq> ''Invalid''" "trackMessage demo_heir ''c'' \<noteq> Some [''POST'', ''k'', ''v'']"
    by (simp_all add: h)
  have ans: "contents (replay (take (nat (commitIndex demo_heir + 3)) (log demo_heir @ [noop_entry (currentTerm demo_heir)]))
      (\<lambda>_. None) ''k'') = ''Invalid key value pair'' @ nl"
    by (simp add: h contents_def demo_entry_def noop_entry_def)
  from stale_read_after_failover [OF demo_heir_connected side(1-7) rounds demo_heir_followed demo_heir_majority tr kv ops
      demo_reaching side(8-12)]
  show ?thesis unfolding ans .
qed

end
