(* ===== verification/Raft_Http.thy ===== *)
theory Raft_Http
  imports Raft_Session
begin

text \<open>
  The service at the level of HTTP: the routes and the handlers of \<^verbatim>\<open>src/raft/raft_server.go\<close> with
  the commands in full over their rounds, each followed by the apply loop for the numbers that
  the command has handed over.  The specification maps requests to the texts of the replies; the
  handlers refine it for every sequence of requests.
\<close>

section \<open>Handlers over rounds\<close>

text \<open>
  A reply, the leader and its peers; \<open>None\<close> in the place of the reply is a reply whose formatting
  is outside the model, and for the whole result a request that waits forever.
\<close>

type_synonym handler = "circumstances \<Rightarrow> circumstances \<Rightarrow> (string \<Rightarrow> (string + string) option) \<Rightarrow> request \<Rightarrow> response option command"

text \<open>The command of a writing handler and its reply.\<close>

definition write_reply ::
    "int \<Rightarrow> string \<Rightarrow> string \<Rightarrow> string list \<Rightarrow> string \<Rightarrow> handler" where
  "write_reply code name noun operation client rc c http_get r s =
     go_bind (WriteCommand_full [] [] rc http_get c operation client s) (\<lambda>res.
       case res of
         None \<Rightarrow> Inr None
       | Some (out, s1) \<Rightarrow> Inr (Some (Some (reply code (write_body name noun out)), s1)))"

definition PostHandler_rounds :: handler where
  "PostHandler_rounds rc c http_get r s =
     (case parse_error r of
        Some err \<Rightarrow> Inr (Some (Some (reply 201 (''ParseForm() err: '' @ err)), s))
      | None \<Rightarrow>
          if state (fst s) \<noteq> Leader then Inr (Some (Some (reply 201 (not_leader_body (fst s))), s))
          else write_reply 201 ''POST'' ''request'' [''POST'', url_key r, FormValue r ''value''] (FormValue r ''client'')
                 rc c http_get r s)"

definition PutHandler_rounds :: handler where
  "PutHandler_rounds rc c http_get r s =
     (case parse_error r of
        Some err \<Rightarrow> Inr (Some (Some (reply 202 (''ParseForm() err: '' @ err)), s))
      | None \<Rightarrow>
          if state (fst s) \<noteq> Leader then Inr (Some (Some (reply 202 (not_leader_body (fst s))), s))
          else write_reply 202 ''PUT'' ''request'' [''PUT'', url_key r, FormValue r ''value''] (FormValue r ''client'')
                 rc c http_get r s)"

definition DeleteHandler_rounds :: handler where
  "DeleteHandler_rounds rc c http_get r s =
     (case parse_error r of
        Some err \<Rightarrow> Inr (Some (Some \<lparr>status = 200, header = [], body = ''ParseForm() err: '' @ err\<rparr>, s))
      | None \<Rightarrow>
          if state (fst s) \<noteq> Leader then Inr (Some (Some (reply 200 (not_leader_body (fst s))), s))
          else write_reply 200 ''DELETE'' ''requested'' [''DELETE'', url_key r] [] rc c http_get r s)"

definition GetHandler_rounds :: handler where
  "GetHandler_rounds rc c http_get r s =
     (if state (fst s) \<noteq> Leader then Inr (Some (Some (reply 200 (not_leader_body (fst s))), s))
      else
        go_bind (ReadCommand [] c http_get (url_key r) s) (\<lambda>res.
          case res of
            None \<Rightarrow> Inr None
          | Some (Inr response, s1) \<Rightarrow>
              Inr (Some (map_option (reply 200)
                           (Fprintf0 (nl @ ''Read operation completed. Result: '' @ response @ nl)), s1))
          | Some (Inl err, s1) \<Rightarrow> Inr (Some (Some (reply 200 (nl @ ''Read failed with error: '' @ err @ nl)), s1))))"

text \<open>The routes of the server.\<close>

definition raft_serve :: "kv_op \<Rightarrow> handler" where
  "raft_serve verb rc c http_get r s =
     (case raft_route verb (url_key r) of
        Fixed \<Rightarrow> Inr (Some (Some TestHandler, s))
      | Keyed GET \<Rightarrow> GetHandler_rounds rc c http_get r s
      | Keyed POST \<Rightarrow> PostHandler_rounds rc c http_get r s
      | Keyed PUT \<Rightarrow> PutHandler_rounds rc c http_get r s
      | Keyed DELETE \<Rightarrow> DeleteHandler_rounds rc c http_get r s)"

text \<open>One request, and the apply loop for what it has committed.\<close>

type_synonym http_call = "(kv_op \<times> request) \<times> circumstances \<times> circumstances"

definition http_op ::
    "(store \<times> filesystem) transport \<Rightarrow> http_call \<Rightarrow> session \<Rightarrow> (response option \<times> session) option go" where
  "http_op send q s =
     (case (q, s) of (((verb, r), rc, c), (n, peers, kv)) \<Rightarrow>
        go_bind (raft_serve verb rc c (kv_http_get kv) r (n, peers)) (\<lambda>res.
          case res of
            None \<Rightarrow> Inr None
          | Some (resp, n1, peers1) \<Rightarrow>
              go_bind (apply_batches send (handed n n1) n1 kv) (\<lambda>(n2, kv2).
                Inr (Some (resp, n2, peers1, kv2)))))"

fun http_all ::
    "(store \<times> filesystem) transport \<Rightarrow> http_call list \<Rightarrow> session \<Rightarrow> (response option list \<times> session) option go" where
  "http_all send [] s = Inr (Some ([], s))"
| "http_all send (q # qs) s =
     go_bind (http_op send q s) (\<lambda>res.
       case res of
         None \<Rightarrow> Inr None
       | Some (a, s1) \<Rightarrow>
           go_bind (http_all send qs s1) (\<lambda>res1.
             case res1 of None \<Rightarrow> Inr None | Some (as, s2) \<Rightarrow> Inr (Some (a # as, s2))))"

section \<open>The numbers that a command hands over\<close>

definition hands :: "int list \<Rightarrow> RaftNode \<Rightarrow> RaftNode \<Rightarrow> bool" where
  "hands bs n n' \<longleftrightarrow> commits_of (effects n') = commits_of (effects n) @ bs"

lemma hands_refl [simp]: "hands [] n n"
  by (simp add: hands_def)

lemma hands_trans: "hands bs n n1 \<Longrightarrow> hands cs n1 n2 \<Longrightarrow> hands (bs @ cs) n n2"
  by (simp add: hands_def)

lemma hands_handed: "hands bs n n' \<Longrightarrow> handed n n' = bs"
  by (simp add: hands_def handed_def)

lemma hands_kept: "kept n n' \<Longrightarrow> hands [] n n'"
  by (simp add: kept_def hands_def)

lemma hands_write_round:
  assumes "WriteCommand_round x operation client (n, peers) = Inr (Some (result, n', peers'))"
  shows "hands (if fst result then [1] else []) n n'"
proof -
  from assms obtain m u n1 r b where
    a: "WriteCommand_append operation client n = Inr (m, u, n1)" and r: "LeaderSendAEs (fst x) (snd x) m u (n1, peers) = Inr r"
    and res: "result = fst (WriteCommand_finish b operation client (rd_leader r))"
    and b: "(n', peers') = (snd (WriteCommand_finish b operation client (rd_leader r)), rd_peers r)"
    by (rule WriteCommand_round_inv)
  have h: "hands [] n n1" using a by (auto simp: WriteCommand_append_def Let_def go_bind_eq_Inr hands_def)
  have f: "hands (if fst result then [1] else []) (rd_leader r) n'"
    using b by (auto simp: res WriteCommand_finish_def Let_def hands_def)
  from hands_trans [OF hands_trans [OF h hands_kept [OF kept_round [OF r]]] f] show ?thesis by simp
qed

lemma hands_WriteCommand:
  assumes "WriteCommand_full [] [] rx http_get x operation client (n, peers) = Inr (Some (result, n', peers'))"
  shows "hands (if fst result then [1] else []) n n'"
  using assms
proof (cases rule: WriteCommand_full_inv)
  case round
  then show ?thesis by (rule hands_write_round)
next
  case (missing key response)
  with hands_kept [OF kept_ReadCommand] show ?thesis by simp
next
  case (found key response s2)
  obtain n2 peers2 where s2: "s2 = (n2, peers2)" by (cases s2)
  from hands_trans [OF hands_kept [OF kept_ReadCommand [OF found(1) [unfolded s2]]] hands_write_round [OF found(2) [unfolded s2]]]
  show ?thesis by simp
qed simp

section \<open>The specification\<close>

text \<open>The operation that a request asks for.\<close>

definition asked :: "kv_op \<Rightarrow> request \<Rightarrow> client_op" where
  "asked verb r =
     (case verb of
        POST \<Rightarrow> CWrite [''POST'', url_key r, FormValue r ''value''] (FormValue r ''client'')
      | PUT \<Rightarrow> CWrite [''PUT'', url_key r, FormValue r ''value''] (FormValue r ''client'')
      | DELETE \<Rightarrow> CWrite [''DELETE'', url_key r] []
      | GET \<Rightarrow> CRead (url_key r))"

definition write_text :: "kv_op \<Rightarrow> answer \<Rightarrow> response" where
  "write_text verb a =
     (case a of
        Wrote success err \<Rightarrow>
          (case verb of
             POST \<Rightarrow> reply 201 (write_body ''POST'' ''request'' (success, err))
           | PUT \<Rightarrow> reply 202 (write_body ''PUT'' ''request'' (success, err))
           | _ \<Rightarrow> reply 200 (write_body ''DELETE'' ''requested'' (success, err)))
      | Got _ \<Rightarrow> reply 200 [])"

definition parse_text :: "kv_op \<Rightarrow> string \<Rightarrow> response" where
  "parse_text verb err =
     (case verb of
        POST \<Rightarrow> reply 201 (''ParseForm() err: '' @ err)
      | PUT \<Rightarrow> reply 202 (''ParseForm() err: '' @ err)
      | _ \<Rightarrow> \<lparr>status = 200, header = [], body = ''ParseForm() err: '' @ err\<rparr>)"

definition http_spec :: "kv_op \<times> request \<Rightarrow> spec \<Rightarrow> response \<times> spec" where
  "http_spec q sp =
     (case q of (verb, r) \<Rightarrow>
        if verb = GET then
          (if url_key r = ''test'' then TestHandler
           else reply 200 (nl @ ''Read operation completed. Result: '' @ contents (sp_map sp (url_key r)) @ nl), sp)
        else case parse_error r of
               Some err \<Rightarrow> (parse_text verb err, sp)
             | None \<Rightarrow> (let (a, sp1) = spec_serve (asked verb r) sp in (write_text verb a, sp1)))"

fun http_spec_all :: "(kv_op \<times> request) list \<Rightarrow> spec \<Rightarrow> response list \<times> spec" where
  "http_spec_all [] sp = ([], sp)"
| "http_spec_all (q # qs) sp =
     (let (a, sp1) = http_spec q sp; (as, sp2) = http_spec_all qs sp1 in (a # as, sp2))"

text \<open>
  Requests whose key is not the fixed path of the key-value server, and whose value is neither its
  marker for a missing key nor has a percent sign, which a later read would take for a verb.
\<close>

definition call_ok :: "kv_op \<times> request \<Rightarrow> bool" where
  "call_ok q \<longleftrightarrow> readable (url_key (snd q)) \<and>
     (fst q = POST \<or> fst q = PUT \<longrightarrow>
      FormValue (snd q) ''value'' \<noteq> ''Invalid'' \<and> CHR ''%'' \<notin> set (FormValue (snd q) ''value''))"

definition printable :: "spec \<Rightarrow> bool" where
  "printable sp \<longleftrightarrow> (\<forall>k v. sp_map sp k = Some v \<longrightarrow> CHR ''%'' \<notin> set v)"

lemma http_spec_printable:
  assumes "printable sp" and "call_ok (verb, r)"
  shows "printable (snd (http_spec (verb, r) sp))"
  using assms
  by (cases verb) (auto simp: http_spec_def asked_def spec_serve_def printable_def call_ok_def split: option.splits)

section \<open>The handlers answer as the specification\<close>

lemma write_reply_serve:
  "go_bind (write_reply code name noun operation client rc c (kv_http_get kv) r (n, peers)) (\<lambda>res.
     case res of
       None \<Rightarrow> Inr None
     | Some (resp, n1, peers1) \<Rightarrow>
         go_bind (apply_batches send (handed n n1) n1 kv) (\<lambda>(n2, kv2). Inr (Some (resp, n2, peers1, kv2))))
   = go_bind (serve_op send (CWrite operation client, rc, c) (n, peers, kv)) (\<lambda>res.
       case res of
         None \<Rightarrow> Inr None
       | Some (Wrote success err, s1) \<Rightarrow> Inr (Some (Some (reply code (write_body name noun (success, err))), s1))
       | Some (Got x, s1) \<Rightarrow> Inr None)"
proof (cases "WriteCommand_full [] [] rc (kv_http_get kv) c operation client (n, peers)")
  case (Inl e)
  then show ?thesis by (simp add: write_reply_def serve_op_def)
next
  case (Inr res)
  show ?thesis
  proof (cases res)
    case None
    with Inr show ?thesis by (simp add: write_reply_def serve_op_def)
  next
    case (Some y)
    obtain success err n1 peers1 where y: "y = ((success, err), n1, peers1)" by (metis prod.collapse)
    have w: "WriteCommand_full [] [] rc (kv_http_get kv) c operation client (n, peers) = Inr (Some ((success, err), n1, peers1))"
      using Inr Some y by simp
    have h: "handed n n1 = (if success then [1] else [])" using hands_handed [OF hands_WriteCommand [OF w]] by simp
    show ?thesis
      by (cases "ApplyToStateMachine send 1 n1 kv") (auto simp: write_reply_def serve_op_def w h)
  qed
qed

lemma Fprintf0_contents:
  assumes "printable sp"
  shows "Fprintf0 (nl @ ''Read operation completed. Result: '' @ contents (sp_map sp key) @ nl)
       = Some (nl @ ''Read operation completed. Result: '' @ contents (sp_map sp key) @ nl)"
  using assms by (intro Fprintf0_plain) (auto simp: printable_def contents_def nl_def split: option.splits)

lemma http_op_sim:
  assumes "serving N i send (n, peers, kv) sp" and "i < N" and "2 \<le> N" and "N < 2147483647"
    and "reaching N i K rc" and "reaching N i K c" and "length (log n) + 2 \<le> K" and "K < 2147483647"
    and "call_ok (verb, r)" and "printable sp"
  shows "\<exists>n1 peers1 kv1. http_op send ((verb, r), rc, c) (n, peers, kv)
       = Inr (Some (Some (fst (http_spec (verb, r) sp)), n1, peers1, kv1)) \<and>
     serving N i send (n1, peers1, kv1) (snd (http_spec (verb, r) sp)) \<and> length (log n1) \<le> length (log n) + 1"
proof -
  have st: "state n = Leader" using assms(1) by (simp add: serving_def leading_def)
  have self: "handed n n = []" by (simp add: handed_def)
  consider (test) "verb = GET" "url_key r = ''test''" | (read) "verb = GET" "url_key r \<noteq> ''test''"
    | (unparsed) err where "verb \<noteq> GET" "parse_error r = Some err"
    | (writes) "verb \<noteq> GET" "parse_error r = None"
    by blast
  then show ?thesis
  proof cases
    case test
    with assms(1) show ?thesis
      by (intro exI [of _ n] exI [of _ peers] exI [of _ kv])
         (simp add: http_op_def raft_serve_def raft_route_def http_spec_def self split: prod.splits)
  next
    case read
    have lag: "lagging N i send (n, peers, kv) (sp, [])" using assms(1) by (simp add: serving_lagging)
    have side: "length (log n) + 1 \<le> K" "readable (url_key r)" using assms(7,9) by (simp_all add: call_ok_def)
    from lagging_read [OF lag assms(2-4,6) side] obtain n1 peers1 where
      rd: "ReadCommand [] c (kv_http_get kv) (url_key r) (n, peers) = Inr (Some (Inr (contents (sp_map sp (url_key r))), n1, peers1))"
        "lagging N i send (n1, peers1, kv) (sp, [])" "leader_frame n n1" by blast
    have "handed n n1 = []" using hands_handed [OF hands_kept [OF kept_ReadCommand [OF rd(1)]]] .
    then show ?thesis using read rd(1,2) st Fprintf0_contents [OF assms(10)] leader_frame_fields [OF rd(3)]
      by (simp add: http_op_def raft_serve_def raft_route_def GetHandler_rounds_def http_spec_def serving_lagging)
  next
    case (unparsed err)
    with assms(1) show ?thesis
      by (intro exI [of _ n] exI [of _ peers] exI [of _ kv], cases verb)
         (simp_all add: http_op_def raft_serve_def raft_route_def http_spec_def self parse_text_def
            PostHandler_rounds_def PutHandler_rounds_def DeleteHandler_rounds_def)
  next
    case writes
    let ?q = "asked verb r"
    have lag: "lagging N i send (n, peers, kv) (sp, [])" using assms(1) by (simp add: serving_lagging)
    have "request_ok ?q" using assms(9) writes(1) by (cases verb) (auto simp: asked_def request_ok_def call_ok_def)
    from serve_op_sim [OF lag assms(2-8) this] obtain n1 peers1 kv1 where
      sv: "serve_op send (?q, rc, c) (n, peers, kv) = Inr (Some (fst (spec_serve ?q sp), n1, peers1, kv1))"
        "serving N i send (n1, peers1, kv1) (snd (spec_serve ?q sp))" "length (log n1) \<le> length (log n) + 1"
      unfolding lag_serve_empty fst_conv snd_conv serving_lagging [symmetric] by blast
    obtain operation client where q: "?q = CWrite operation client" using writes(1) by (cases verb) (auto simp: asked_def)
    then obtain success err where a: "fst (spec_serve ?q sp) = Wrote success err"
      by (cases "fst (spec_serve ?q sp)") (auto simp: spec_serve_def split: if_splits)
    have "http_op send ((verb, r), rc, c) (n, peers, kv) = Inr (Some (Some (write_text verb (fst (spec_serve ?q sp))), n1, peers1, kv1))"
      using writes st sv(1) a q
      by (cases verb)
         (auto simp: http_op_def raft_serve_def raft_route_def PostHandler_rounds_def PutHandler_rounds_def
            DeleteHandler_rounds_def write_reply_serve asked_def write_text_def)
    with sv(2,3) writes show ?thesis by (simp add: http_spec_def split_beta)
  qed
qed

section \<open>Properties\<close>

text \<open>
  C8: the HTTP service refines a map. The leader has committed and applied its whole log; no
  peer is in a newer term, every peer's log matches the leader's and has no entry of the
  leader's term beyond it; the transport behaves as \<open>http_transport\<close> says; every
  key is \<open>readable\<close>: URL parsing and routing of the replica's own requests keep it
  and it is not the fixed route \<open>kvstore\<close>; no value is the text
  \<open>Invalid\<close> or has a percent sign, nor has any value that the map holds at the
  start; and in every round the goroutines run one after another and all calls to some majority
  are delivered. Then every sequence of HTTP requests, one after another, is answered in full,
  with the status and the text that the specification gives: the test route, the values and the
  missing keys that a read reports, the acknowledgement of a write or the reason of its refusal,
  and the error of a form that cannot be parsed; and the leader, its log and its key-value
  server hold the map of the specification at the end.
\<close>

theorem http_service_refines_map:
  assumes "serving N i send (n, peers, kv) sp" and "printable sp" and "i < N" and "2 \<le> N" and "N < 2147483647"
    and "\<forall>(q, rc, c) \<in> set qs. call_ok q \<and> reaching N i K rc \<and> reaching N i K c"
    and "length (log n) + length qs + 1 \<le> K" and "K < 2147483647"
  shows "\<exists>s'. http_all send qs (n, peers, kv) = Inr (Some (map Some (fst (http_spec_all (map fst qs) sp)), s')) \<and>
     serving N i send s' (snd (http_spec_all (map fst qs) sp))"
  using assms(1,2,6,7)
proof (induction qs arbitrary: n peers kv sp)
  case Nil
  then show ?case by auto
next
  case (Cons q qs)
  obtain verb r rc c where q: "q = ((verb, r), rc, c)" by (cases q) auto
  with Cons.prems have h: "call_ok (verb, r)" "reaching N i K rc" "reaching N i K c" "length (log n) + 2 \<le> K" by auto
  obtain a sp1 where sp1: "http_spec (verb, r) sp = (a, sp1)" by (cases "http_spec (verb, r) sp")
  from http_op_sim [OF Cons.prems(1) assms(3-5) h(2-4) assms(8) h(1) Cons.prems(2)] obtain n1 peers1 kv1 where
    1: "http_op send q (n, peers, kv) = Inr (Some (Some a, n1, peers1, kv1))"
      "serving N i send (n1, peers1, kv1) sp1" "length (log n1) \<le> length (log n) + 1"
    unfolding q sp1 by auto
  have "printable sp1" using http_spec_printable [OF Cons.prems(2) h(1)] by (simp add: sp1)
  with Cons.IH [OF 1(2)] Cons.prems(3,4) 1(3) obtain s' where
    "http_all send qs (n1, peers1, kv1) = Inr (Some (map Some (fst (http_spec_all (map fst qs) sp1)), s'))"
    "serving N i send s' (snd (http_spec_all (map fst qs) sp1))" by auto
  with 1(1) show ?case by (simp add: q sp1 split_beta)
qed

definition demo_form :: "string \<Rightarrow> (string \<times> string) list \<Rightarrow> request" where
  "demo_form key flds = \<lparr>parse_error = None, form = map_of flds, url_key = key\<rparr>"

definition demo_calls :: "(kv_op \<times> request) list" where
  "demo_calls = [(GET, demo_form ''test'' []), (POST, demo_form ''k'' [(''value'', ''v''), (''client'', ''c'')]),
     (GET, demo_form ''k'' []), (PUT, demo_form ''m'' [(''value'', ''w''), (''client'', ''c'')]),
     (PUT, (demo_form ''k'' [])\<lparr>parse_error := Some ''bad''\<rparr>), (DELETE, demo_form ''k'' [])]"

definition demo_reach9 :: circumstances where
  "demo_reach9 = (\<lambda>gs. gs, \<lambda>j. if j = 2 then replicate 9 Delivered else [])"

lemma demo_reaching9: "reaching 3 0 9 demo_reach9"
  by (rule two_of_three_reach [where j = 2 and rest = "[]"]) (simp_all add: demo_reach9_def)

theorem http_service_refines_map_witness:
  "\<exists>s'. http_all (loopback '':3000'') (map (\<lambda>q. (q, demo_reach9, demo_reach9)) demo_calls) (demo_settled, demo_peers, demo_kv) =
     Inr (Some ([Some TestHandler,
       Some (reply 201 (nl @ ''POST request completed successfully and committed.'' @ nl)),
       Some (reply 200 (nl @ ''Read operation completed. Result: '' @ (''Value = v'' @ nl) @ nl)),
       Some (reply 202 (nl @ ''Error occured in PUT request: '' @ no_key_text ''PUT'' @ nl)),
       Some (reply 202 ''ParseForm() err: bad''),
       Some (reply 200 (nl @ ''DELETE requested completed successfully and committed.'' @ nl))], s'))"
proof -
  let ?qs = "map (\<lambda>q. (q, demo_reach9, demo_reach9)) demo_calls"
  have ok: "\<forall>(q, rc, c) \<in> set ?qs. call_ok q \<and> reaching 3 0 9 rc \<and> reaching 3 0 9 c"
    by (simp add: demo_calls_def call_ok_def demo_form_def FormValue_def demo_reaching9)
  have pr: "printable demo_spec" by (simp add: printable_def demo_spec_def)
  have m: "map fst ?qs = demo_calls" by (simp add: o_def)
  have sp: "map Some (fst (http_spec_all demo_calls demo_spec)) =
      [Some TestHandler,
       Some (reply 201 (nl @ ''POST request completed successfully and committed.'' @ nl)),
       Some (reply 200 (nl @ ''Read operation completed. Result: '' @ (''Value = v'' @ nl) @ nl)),
       Some (reply 202 (nl @ ''Error occured in PUT request: '' @ no_key_text ''PUT'' @ nl)),
       Some (reply 202 ''ParseForm() err: bad''),
       Some (reply 200 (nl @ ''DELETE requested completed successfully and committed.'' @ nl))]"
    by (simp add: demo_calls_def http_spec_def asked_def demo_form_def demo_spec_def spec_serve_def FormValue_def
        contents_def write_text_def parse_text_def write_body_def)
  have side: "(0::nat) < 3" "(2::nat) \<le> 3" "(3::nat) < 2147483647" "length (log demo_settled) + length ?qs + 1 \<le> 9"
    "(9::nat) < 2147483647" by (simp_all add: demo_calls_def)
  from http_service_refines_map [OF demo_serving pr side(1-3) ok side(4,5)] show ?thesis
    unfolding m sp by blast
qed

end
