(* ===== verification/Raft_Log.thy ===== *)
theory Raft_Log
  imports Raft_Send
begin

text \<open>
  What log replication promises across replicas, on top of \<open>AppendEntries\<close>
  (\<^verbatim>\<open>src/raft/rpcs.go\<close>) and the messages of the leader (\<^verbatim>\<open>src/raft/send_AEs.go\<close>): a follower that
  accepts a message carrying the leader's log commits exactly the leader's entries and keeps
  what it had committed, and log matching with the leader is kept.  Log matching with a third
  replica is lost when a conflict is overwritten, because the log is not cut there.
\<close>

lemma log_match_append_tail:
  assumes "log_match l k"
  shows "log_match l (l @ drop (length l) k)"
  by (simp add: log_match_def nth_append)

text \<open>What a follower that takes a carried log ends up with.\<close>

lemma carried_follower:
  assumes "node_ok n" and "small (log ld)" and "carries ld m" and "log_match (log ld) (log n)"
    and "currentTerm n \<le> ae_Term m" and "AppendEntries m n = Inr (r, n')" and "Success r"
  shows "log n' = log ld @ drop (length (log ld)) (log n)"
    "commitIndex n' = new_commit m (log n') (commitIndex n)"
proof -
  have sane: "sane m" by (rule carries_sane [OF assms(3,2)])
  from AppendEntries_eq [OF assms(1) sane] assms(5-7) have
    f: "prev_ok m (log n)" "log n' = new_log m (log n)" "commitIndex n' = new_commit m (log n') (commitIndex n)"
    by auto
  from carried_log [OF assms(3,2,4) f(1)] f(2) show "log n' = log ld @ drop (length (log ld)) (log n)" by simp
  from f(3) show "commitIndex n' = new_commit m (log n') (commitIndex n)" .
qed

section \<open>Properties\<close>

text \<open>
  C21: a follower commits what the leader has committed. The follower's log matches the
  leader's, the message carries the leader's log from some index on and is of no older term, and
  its commit index is inside the leader's log and beyond the follower's. Then, if the follower
  accepts it, it has the leader's commit index, its entries up to there are the leader's, and
  its log still matches the leader's.
\<close>

theorem follower_commits_leader_entries:
  assumes "node_ok n" and "small (log ld)" and "carries ld m" and "log_match (log ld) (log n)"
    and "currentTerm n \<le> ae_Term m" and "LeaderCommit m < int (length (log ld))" and "commitIndex n < LeaderCommit m"
    and "AppendEntries m n = Inr (r, n')" and "Success r"
  shows "commitIndex n' = LeaderCommit m \<and>
     take (nat (commitIndex n' + 1)) (log n') = take (nat (commitIndex n' + 1)) (log ld) \<and>
     log_match (log ld) (log n')"
proof -
  note c = carried_follower [OF assms(1-5,8,9)]
  have "commitIndex n' = LeaderCommit m" using c assms(6,7) by (simp add: new_commit_def)
  moreover from this have "nat (commitIndex n' + 1) \<le> length (log ld)" using assms(6) by simp
  ultimately show ?thesis using c(1) log_match_append_tail [OF assms(4)] by simp
qed

lemma demo_carries:
  "carries (demo_node 3 0 2 Leader [demo_entry 1, demo_entry 2]) (demo_append 2 0 1 1 [demo_entry 2])"
  by (simp add: carries_def start_of_def demo_node_def demo_append_def demo_entry_def)

theorem follower_commits_leader_entries_witness:
  "\<exists>r n'. AppendEntries (demo_append 2 0 1 1 [demo_entry 2]) (demo_follower 1 [demo_entry 1]) = Inr (r, n') \<and>
     commitIndex n' = 1 \<and> take 2 (log n') = [demo_entry 1, demo_entry 2]"
proof -
  let ?n = "demo_follower 1 [demo_entry 1]" and ?ld = "demo_node 3 0 2 Leader [demo_entry 1, demo_entry 2]"
  let ?m = "demo_append 2 0 1 1 [demo_entry 2]"
  have ok: "node_ok ?n" "small (log ?ld)" "sane ?m" by (simp_all add: small_def sane_def)
  have lm: "log_match (log ?ld) (log ?n)" by (simp add: log_match_def)
  from AppendEntries_eq [OF ok(1,3)] obtain r n' where
    ae: "AppendEntries ?m ?n = Inr (r, n')" "Success r" by (auto simp: prev_ok_def)
  have t: "currentTerm ?n \<le> ae_Term ?m" "LeaderCommit ?m < int (length (log ?ld))" "commitIndex ?n < LeaderCommit ?m"
    by simp_all
  from follower_commits_leader_entries [OF ok(1,2) demo_carries lm t ae] have
    "commitIndex n' = LeaderCommit ?m \<and>
     take (nat (commitIndex n' + 1)) (log n') = take (nat (commitIndex n' + 1)) (log ?ld)"
    by blast
  then have "commitIndex n' = 1" "take (nat (1 + 1)) (log n') = take (nat (1 + 1)) (log ?ld)" by auto
  with ae(1) show ?thesis by simp
qed

text \<open>
  Committed entries stay: if what a follower has committed is a prefix of the leader's
  log, accepting a message that carries that log leaves every committed entry where it is and
  does not lower the commit index.
\<close>

theorem committed_entries_stay:
  assumes "node_ok n" and "small (log ld)" and "carries ld m" and "log_match (log ld) (log n)"
    and "currentTerm n \<le> ae_Term m" and "AppendEntries m n = Inr (r, n')" and "Success r"
    and "take (nat (commitIndex n + 1)) (log n) = take (nat (commitIndex n + 1)) (log ld)"
  shows "take (nat (commitIndex n + 1)) (log n') = take (nat (commitIndex n + 1)) (log n) \<and>
     commitIndex n \<le> commitIndex n'"
proof -
  note c = carried_follower [OF assms(1-7)]
  let ?k = "nat (commitIndex n + 1)"
  have k: "?k \<le> length (log n)" using assms(1) unfolding node_ok_def by linarith
  with assms(8) have kl: "?k \<le> length (log ld)"
    by (metis length_take min.absorb_iff2 min.cobounded1 nle_le)
  have "length (log n) \<le> length (log n')" by (simp add: c(1))
  with assms(1) have "commitIndex n \<le> commitIndex n'" by (simp add: c(2) new_commit_def node_ok_def)
  with kl assms(8) show ?thesis by (simp add: c(1))
qed

theorem committed_entries_stay_witness:
  "\<exists>r n'. AppendEntries (demo_append 2 0 1 1 [demo_entry 2])
            ((demo_follower 1 [demo_entry 1])\<lparr>commitIndex := 0\<rparr>) = Inr (r, n') \<and>
     take 1 (log n') = [demo_entry 1] \<and> 0 \<le> commitIndex n'"
proof -
  let ?n = "(demo_follower 1 [demo_entry 1])\<lparr>commitIndex := 0\<rparr>"
  let ?ld = "demo_node 3 0 2 Leader [demo_entry 1, demo_entry 2]"
  let ?m = "demo_append 2 0 1 1 [demo_entry 2]"
  have ok: "node_ok ?n" "small (log ?ld)" "sane ?m"
    by (simp_all add: small_def sane_def node_ok_def demo_follower_def initial_node_def Let_def)
  have lm: "log_match (log ?ld) (log ?n)" by (simp add: log_match_def)
  from AppendEntries_eq [OF ok(1,3)] obtain r n' where
    ae: "AppendEntries ?m ?n = Inr (r, n')" "Success r" by (auto simp: prev_ok_def)
  from committed_entries_stay [OF ok(1,2) demo_carries lm _ ae] ae(1) show ?thesis by simp
qed

text \<open>
  C27: because a conflict is overwritten without cutting the log, log matching is lost between
  the follower and any replica that still has the follower's old log: their last entries have
  the same term at the same index, but the logs differ before; and the follower votes, in any
  later term, for a candidate with its old log, which lacks what it has just accepted.
\<close>

theorem overwrite_breaks_log_matching:
  assumes "node_ok n" and "sane m" and "currentTerm n \<le> ae_Term m" and "prev_ok m (log n)"
    and "start_of m + length (Entries m) < length (log n)"
    and "i < length (Entries m)" and "Term (Entries m ! i) \<noteq> Term (log n ! (start_of m + i))"
  shows "\<exists>r n'. AppendEntries m n = Inr (r, n') \<and> Success r \<and> \<not> log_match (log n') (log n) \<and>
     (\<forall>q. currentTerm n' < rv_Term q \<and> (LastLogIndex q, LastLogTerm q) = latest (log n) \<longrightarrow>
        VoteGranted (fst (RequestVote q n')))"
proof -
  let ?p = "start_of m" and ?es = "Entries m"
  from AppendEntries_eq [OF assms(1,2)] assms(3,4) obtain r n' where
    ae: "AppendEntries m n = Inr (r, n')" "Success r" "log n' = merged (log n) ?p ?es"
    by (auto simp: new_log_def)
  have p: "?p \<le> length (log n)" using assms(5) by simp
  have len: "length (log n') = length (log n)" using assms(5) by (simp add: ae(3) length_merged [OF p])
  let ?j = "?p + length ?es"
  have j: "?j < length (log n)" using assms(5) .
  have "drop ?j (log n') = drop ?j (log n)" by (simp add: ae(3) merged_tail [OF p])
  then have same: "log n' ! ?j = log n ! ?j" using j len by (metis hd_drop_conv_nth)
  have "map Term (take (length ?es) (drop ?p (log n'))) ! i = map Term ?es ! i"
    by (simp add: ae(3) merged_terms [OF p])
  then have "Term (log n' ! (?p + i)) = Term (?es ! i)" using assms(6) j len by simp
  with assms(7) have diff: "log n' ! (?p + i) \<noteq> log n ! (?p + i)" by auto
  have "take (Suc ?j) (log n') \<noteq> take (Suc ?j) (log n)"
  proof
    assume "take (Suc ?j) (log n') = take (Suc ?j) (log n)"
    then have "take (Suc ?j) (log n') ! (?p + i) = take (Suc ?j) (log n) ! (?p + i)" by simp
    with diff assms(6) show False by simp
  qed
  with same j len have nm: "\<not> log_match (log n') (log n)" by (auto simp: log_match_def)
  have "last (log n') = last (log n)"
    using \<open>drop ?j (log n') = drop ?j (log n)\<close> j len by (metis last_drop)
  moreover have "small (log n)" using assms(1) by (simp add: node_ok_def)
  moreover have "log n \<noteq> []" "log n' \<noteq> []" using j len by auto
  ultimately have lt: "latest (log n') = latest (log n)" using len by (simp add: latest_small small_def)
  have "VoteGranted (fst (RequestVote q n'))"
    if q: "currentTerm n' < rv_Term q" "(LastLogIndex q, LastLogTerm q) = latest (log n)" for q
  proof -
    have l: "latest (log n') = (LastLogIndex q, LastLogTerm q)" using lt q(2) by simp
    show ?thesis using q(1) by (simp add: RequestVote_granted up_to_date_def l)
  qed
  with ae(1,2) nm show ?thesis by blast
qed

theorem overwrite_breaks_log_matching_witness:
  "\<exists>r n'. AppendEntries (demo_append 3 0 1 0 [demo_entry 3])
            (demo_follower 2 [demo_entry 1, demo_entry 2, demo_entry 2]) = Inr (r, n') \<and>
     \<not> log_match (log n') [demo_entry 1, demo_entry 2, demo_entry 2] \<and>
     VoteGranted (fst (RequestVote \<lparr>rv_Term = currentTerm n' + 1, CandidateId = 2, LastLogIndex = 2, LastLogTerm = 2\<rparr> n'))"
proof -
  let ?n = "demo_follower 2 [demo_entry 1, demo_entry 2, demo_entry 2]" and ?m = "demo_append 3 0 1 0 [demo_entry 3]"
  have "node_ok ?n" "sane ?m" "prev_ok ?m (log ?n)" "start_of ?m = 1"
    by (simp_all add: small_def sane_def prev_ok_def start_of_def)
  moreover have "latest (log ?n) = (2, 2)" by (simp add: latest_small small_def)
  ultimately show ?thesis using overwrite_breaks_log_matching [of ?n ?m 0] by fastforce
qed

end
