(* ===== verification/Raft_Timer.thy ===== *)
theory Raft_Timer
  imports Raft_Types
begin

text \<open>
  The election timer, \<open>RunElectionTimer\<close> of \<^verbatim>\<open>src/raft/election.go\<close>, against a handler that
  holds the node's lock while it sends on one of the timer's unbuffered channels:
  \<open>AppendEntries\<close> (\<^verbatim>\<open>src/raft/rpcs.go\<close>) on \<open>electionResetEvent\<close>, \<open>ToLeader\<close>
  (\<^verbatim>\<open>src/raft/states.go\<close>) on \<open>stopElectiontimer\<close>.  A send completes only together with a
  receive of the timer.  The model has one timer and one handler, the resets that \<open>ToFollower\<close>
  sends from goroutines of their own, and every interleaving of their steps.
  The theorems find the deadlock of the two and show that it is the only one, and that a timer
  that fires after the shutdown keeps the lock.
\<close>

section \<open>State and steps\<close>

datatype thread = TimerThread | HandlerThread

text \<open>
  The timer: in its outer \<open>select\<close>, after the timeout and before it has the lock, in the inner
  \<open>select\<close> with the lock, returned for good.  When it starts its successor it is back in the
  outer \<open>select\<close>.
\<close>

datatype timer_pc = Selecting | Fired | Holding | Gone

text \<open>The handler: before the lock, at the send on one of the channels, after it, returned.\<close>

datatype handler_task = ResetTask | StopTask

datatype handler_pc = Arrived | Sending handler_task | Working | Finished

record tstate =
  mutex :: "thread option"
  timer :: timer_pc
  handler :: handler_pc
  task :: handler_task
  resets :: nat
  ctx_done :: bool

definition timer_init :: "handler_task \<Rightarrow> nat \<Rightarrow> bool \<Rightarrow> tstate" where
  "timer_init t r d = \<lparr>mutex = None, timer = Selecting, handler = Arrived, task = t, resets = r, ctx_done = d\<rparr>"

text \<open>The steps of the timer goroutine, the rendezvous on the channels included.\<close>

definition timer_steps :: "tstate \<Rightarrow> tstate list" where
  "timer_steps s =
     (case timer s of
        Selecting \<Rightarrow>
          [s\<lparr>timer := Fired\<rparr>] @
          (if resets s > 0 then [s\<lparr>resets := resets s - 1\<rparr>] else []) @
          (if handler s = Sending ResetTask then [s\<lparr>handler := Working\<rparr>] else []) @
          (if handler s = Sending StopTask then [s\<lparr>handler := Working, timer := Gone\<rparr>] else [])
      | Fired \<Rightarrow> (if mutex s = None then [s\<lparr>mutex := Some TimerThread, timer := Holding\<rparr>] else [])
      | Holding \<Rightarrow>
          if ctx_done s then [s\<lparr>timer := Gone\<rparr>]
          else if resets s = 0 \<and> (\<forall>t \<in> {ResetTask, StopTask}. handler s \<noteq> Sending t) then
            [s\<lparr>mutex := None, timer := Selecting\<rparr>]
          else
            (if resets s > 0 then [s\<lparr>resets := resets s - 1, mutex := None, timer := Selecting\<rparr>] else []) @
            (if handler s = Sending ResetTask then [s\<lparr>handler := Working, mutex := None, timer := Selecting\<rparr>] else []) @
            (if handler s = Sending StopTask then [s\<lparr>handler := Working, mutex := None, timer := Gone\<rparr>] else [])
      | Gone \<Rightarrow> [])"

definition handler_steps :: "tstate \<Rightarrow> tstate list" where
  "handler_steps s =
     (case handler s of
        Arrived \<Rightarrow> (if mutex s = None then [s\<lparr>mutex := Some HandlerThread, handler := Sending (task s)\<rparr>] else [])
      | Sending t \<Rightarrow> []
      | Working \<Rightarrow> [s\<lparr>mutex := None, handler := Finished\<rparr>]
      | Finished \<Rightarrow> [])"

definition succs :: "tstate \<Rightarrow> tstate list" where
  "succs s = timer_steps s @ handler_steps s"

inductive treach :: "tstate \<Rightarrow> tstate \<Rightarrow> bool" for s0 :: tstate where
  refl: "treach s0 s0"
| step: "treach s0 s \<Longrightarrow> s' \<in> set (succs s) \<Longrightarrow> treach s0 s'"

inductive_cases treachE: "treach s0 s"

section \<open>The lock invariant\<close>

definition lock_inv :: "tstate \<Rightarrow> bool" where
  "lock_inv s \<longleftrightarrow>
     (mutex s = Some HandlerThread \<longleftrightarrow> (\<exists>t. handler s = Sending t) \<or> handler s = Working) \<and>
     (timer s = Holding \<longrightarrow> mutex s = Some TimerThread) \<and>
     (mutex s = Some TimerThread \<longrightarrow> timer s = Holding \<or> (timer s = Gone \<and> ctx_done s)) \<and>
     (timer s = Gone \<and> \<not> ctx_done s \<longrightarrow> handler s = Working \<or> handler s = Finished)"

lemma lock_inv_init: "lock_inv (timer_init t r d)"
  by (simp add: lock_inv_def timer_init_def)

lemma lock_inv_step: "lock_inv s \<Longrightarrow> s' \<in> set (succs s) \<Longrightarrow> lock_inv s'"
  by (cases "timer s"; cases "handler s")
     (auto simp: lock_inv_def succs_def timer_steps_def handler_steps_def split: if_splits)

lemma lock_inv_treach: "treach s0 s \<Longrightarrow> lock_inv s0 \<Longrightarrow> lock_inv s"
  by (induction rule: treach.induct) (auto intro: lock_inv_step)

lemma ctx_done_treach: "treach s0 s \<Longrightarrow> ctx_done s = ctx_done s0"
  by (induction rule: treach.induct)
     (auto simp: succs_def timer_steps_def handler_steps_def split: timer_pc.splits handler_pc.splits if_splits)

section \<open>Properties\<close>

text \<open>
  C33: the timer and a handler can deadlock: the handler takes the lock, the timer fires and
  waits for the lock, and the handler waits for the timer to receive; the lock is never
  released, so the replica answers no request any more.  This happens for both handlers.
\<close>

theorem timer_handler_deadlock:
  "\<exists>s. treach (timer_init t 0 False) s \<and> succs s = [] \<and> handler s = Sending t \<and> mutex s = Some HandlerThread"
proof -
  let ?s0 = "timer_init t 0 False"
  let ?s1 = "?s0\<lparr>mutex := Some HandlerThread, handler := Sending t\<rparr>"
  let ?s2 = "?s1\<lparr>timer := Fired\<rparr>"
  have "?s1 \<in> set (succs ?s0)" by (simp add: succs_def handler_steps_def timer_init_def)
  then have 1: "treach ?s0 ?s1" by (rule treach.step [OF treach.refl])
  have "?s2 \<in> set (succs ?s1)" by (simp add: succs_def timer_steps_def timer_init_def)
  with 1 have "treach ?s0 ?s2" by (rule treach.step)
  moreover have "succs ?s2 = []" by (simp add: succs_def timer_steps_def handler_steps_def timer_init_def)
  ultimately show ?thesis by (intro exI [of _ ?s2]) (simp add: timer_init_def)
qed

text \<open>
  There is no other deadlock: as long as the node is not shut down, a reachable state in
  which nothing can move is either that one or one in which the handler has returned and the
  lock is free.
\<close>

theorem only_deadlock:
  assumes "treach (timer_init t r False) s" and "succs s = []"
  shows "(timer s = Fired \<and> (\<exists>t'. handler s = Sending t') \<and> mutex s = Some HandlerThread) \<or>
     (timer s = Gone \<and> handler s = Finished \<and> mutex s = None)"
proof -
  have inv: "lock_inv s" using lock_inv_treach [OF assms(1) lock_inv_init] .
  have d: "\<not> ctx_done s" using ctx_done_treach [OF assms(1)] by (simp add: timer_init_def)
  show ?thesis
  proof (cases "mutex s")
    case None
    with inv d assms(2) show ?thesis
      by (cases "timer s"; cases "handler s")
         (auto simp: lock_inv_def succs_def timer_steps_def handler_steps_def)
  next
    case (Some th)
    with inv d assms(2) show ?thesis
      by (cases th; cases "timer s"; cases "handler s")
         (auto simp: lock_inv_def succs_def timer_steps_def handler_steps_def split: if_splits)
  qed
qed

theorem only_deadlock_witness:
  "\<exists>s. treach (timer_init StopTask 0 False) s \<and> succs s = [] \<and> timer s = Gone \<and> handler s = Finished \<and> mutex s = None"
proof -
  let ?s0 = "timer_init StopTask 0 False"
  let ?s1 = "?s0\<lparr>mutex := Some HandlerThread, handler := Sending StopTask\<rparr>"
  let ?s2 = "?s1\<lparr>handler := Working, timer := Gone\<rparr>"
  let ?s3 = "?s2\<lparr>mutex := None, handler := Finished\<rparr>"
  have "?s1 \<in> set (succs ?s0)" by (simp add: succs_def handler_steps_def timer_init_def)
  then have 1: "treach ?s0 ?s1" by (rule treach.step [OF treach.refl])
  have "?s2 \<in> set (succs ?s1)" by (simp add: succs_def timer_steps_def timer_init_def)
  with 1 have 2: "treach ?s0 ?s2" by (rule treach.step)
  have "?s3 \<in> set (succs ?s2)" by (simp add: succs_def handler_steps_def timer_init_def)
  with 2 have 3: "treach ?s0 ?s3" by (rule treach.step)
  have "succs ?s3 = []" by (simp add: succs_def timer_steps_def handler_steps_def timer_init_def)
  from only_deadlock [OF 3 this] 3 this show ?thesis by (intro exI [of _ ?s3]) (simp add: timer_init_def)
qed

text \<open>
  A timer that fires after the node has been shut down returns without giving the lock
  back, and a handler that comes later waits for it forever.
\<close>

theorem shutdown_timer_keeps_lock:
  "\<exists>s. treach (timer_init t 0 True) s \<and> succs s = [] \<and> timer s = Gone \<and> handler s = Arrived \<and>
     mutex s = Some TimerThread"
proof -
  let ?s0 = "timer_init t 0 True"
  let ?s1 = "?s0\<lparr>timer := Fired\<rparr>"
  let ?s2 = "?s1\<lparr>mutex := Some TimerThread, timer := Holding\<rparr>"
  let ?s3 = "?s2\<lparr>timer := Gone\<rparr>"
  have "?s1 \<in> set (succs ?s0)" by (simp add: succs_def timer_steps_def timer_init_def)
  then have 1: "treach ?s0 ?s1" by (rule treach.step [OF treach.refl])
  have "?s2 \<in> set (succs ?s1)" by (simp add: succs_def timer_steps_def timer_init_def)
  with 1 have 2: "treach ?s0 ?s2" by (rule treach.step)
  have "?s3 \<in> set (succs ?s2)" by (simp add: succs_def timer_steps_def timer_init_def)
  with 2 have "treach ?s0 ?s3" by (rule treach.step)
  moreover have "succs ?s3 = []" by (simp add: succs_def timer_steps_def handler_steps_def timer_init_def)
  ultimately show ?thesis by (intro exI [of _ ?s3]) (simp add: timer_init_def)
qed

end
