(* ===== verification/Raft_Locks.thy ===== *)
theory Raft_Locks
  imports Prelude
begin

text \<open>
  The node's read-write lock and the unbuffered channels that the goroutines of a replica meet on:
  the wrappers of \<^verbatim>\<open>src/raft/utils.go\<close>, and what each goroutine does with lock and channels,
  along each of its paths, as a list of instructions.  The lock semantics keep who holds the lock;
  a release without a hold, fatal in Go, is a thread that cannot move.  A send and a receive
  happen together: on \<open>commits_ready\<close>, which the apply loop receives from, and on the channel of
  a round, on which the caller of \<open>LeaderSendAEs\<close> waits for the verdict and one goroutine of the
  round sends it.  A goroutine of a round cannot move before \<open>LeaderSendAEs\<close> has started it.  A
  send on a channel of the election timer finds the timer ready to receive; the other case, in
  which the timer waits for the lock, is the subject of \<open>Raft_Timer\<close>.  The preference of a waiting
  writer over new readers only removes interleavings of readers and is left out.
  The theorems: the goroutines that send nothing while they hold the lock take and give it back in
  pairs, and with any number of them, the rounds they start and one apply loop, every run ends with
  all finished; and the one handler that sends on \<open>commits_ready\<close> while it holds the lock can
  deadlock with the apply loop.
\<close>

section \<open>The lock and the rounds\<close>

text \<open>The channels: \<open>commits_ready\<close>, and \<open>successful_write\<close> of each round.\<close>

datatype chan = Commits | Verdict nat

text \<open>\<open>StartRound r\<close> is the call of \<open>LeaderSendAEs\<close>, \<open>Enter r\<close> the first step of a goroutine that it
  starts, \<open>SendTimer\<close> a send on \<open>electionResetEvent\<close> or \<open>stopElectiontimer\<close>.\<close>

datatype instr =
    GetLock | ReleaseLock | GetRLock | ReleaseRLock | Send chan | Recv chan
  | StartRound nat | Enter nat | SendTimer

abbreviation SendCommit :: instr where "SendCommit \<equiv> Send Commits"

abbreviation RecvCommit :: instr where "RecvCommit \<equiv> Recv Commits"

record rwmutex =
  lock_owner :: "nat option"
  lock_readers :: "nat set"

record shared = rwmutex +
  begun :: "nat set"

text \<open>The four wrappers, the start of a round and the steps that need nobody else, by thread
  \<open>i\<close>; \<open>None\<close> while the call blocks.\<close>

definition fire :: "nat \<Rightarrow> instr \<Rightarrow> shared \<Rightarrow> shared option" where
  "fire i x l =
     (case x of
        GetLock \<Rightarrow> if lock_owner l = None \<and> lock_readers l = {} then Some (l\<lparr>lock_owner := Some i\<rparr>) else None
      | ReleaseLock \<Rightarrow> if lock_owner l = Some i then Some (l\<lparr>lock_owner := None\<rparr>) else None
      | GetRLock \<Rightarrow> if lock_owner l = None then Some (l\<lparr>lock_readers := insert i (lock_readers l)\<rparr>) else None
      | ReleaseRLock \<Rightarrow> if i \<in> lock_readers l then Some (l\<lparr>lock_readers := lock_readers l - {i}\<rparr>) else None
      | StartRound r \<Rightarrow> Some (l\<lparr>begun := insert r (begun l)\<rparr>)
      | Enter r \<Rightarrow> if r \<in> begun l then Some l else None
      | SendTimer \<Rightarrow> Some l
      | Send c \<Rightarrow> None
      | Recv c \<Rightarrow> None)"

definition free_lock :: shared where
  "free_lock = \<lparr>lock_owner = None, lock_readers = {}, begun = {}\<rparr>"

section \<open>Programs\<close>

text \<open>\<open>ApplyToStateMachine\<close>, taking \<open>k\<close> numbers.\<close>

definition apply_program :: "nat \<Rightarrow> instr list" where
  "apply_program k = concat (replicate k [RecvCommit, GetLock, ReleaseLock])"

text \<open>\<open>AppendEntries\<close> on a message of an older term, and on any other, which resets the
  election timer and then commits entries or not, all under the lock.\<close>

definition AppendEntries_stale_program :: "instr list" where
  "AppendEntries_stale_program = [GetLock, ReleaseLock]"

definition AppendEntries_program :: "bool \<Rightarrow> instr list" where
  "AppendEntries_program commits =
     [GetLock, SendTimer] @ (if commits then [SendCommit] else []) @ [ReleaseLock]"

definition RequestVote_program :: "instr list" where
  "RequestVote_program = [GetLock, ReleaseLock]"

text \<open>The loop of \<open>ToLeader\<close>: the failed rounds, then a successful one or the end of the
  leadership.\<close>

definition ToLeader_loop_program :: "nat list \<Rightarrow> nat option \<Rightarrow> instr list" where
  "ToLeader_loop_program fails success =
     concat (map (\<lambda>r. [StartRound r, Recv (Verdict r), GetRLock, ReleaseRLock]) fails) @
     (case success of
        None \<Rightarrow> []
      | Some r \<Rightarrow> [StartRound r, Recv (Verdict r), GetLock, ReleaseLock, SendCommit])"

text \<open>The whole of \<open>ToLeader\<close>, entered with the lock held: it stops the election timer first.\<close>

definition ToLeader_program :: "nat list \<Rightarrow> nat option \<Rightarrow> instr list" where
  "ToLeader_program fails success = [SendTimer, ReleaseLock] @ ToLeader_loop_program fails success"

text \<open>A vote goroutine of \<open>StartElection\<close>: \<open>None\<close> when it does not win the election.\<close>

definition vote_program :: "(nat list \<times> nat option) option \<Rightarrow> instr list" where
  "vote_program won =
     [GetRLock, ReleaseRLock] @ [GetLock] @
     (case won of None \<Rightarrow> [ReleaseLock] | Some (fails, success) \<Rightarrow> ToLeader_program fails success)"

text \<open>A goroutine of the round \<open>r\<close> of \<open>LeaderSendAEs\<close> with the responses it handles in
  \<open>LeaderSendAE\<close>; it sends the verdict when its own result completes a quorum of successes or
  of failures.\<close>

definition LeaderSendAEs_program :: "nat \<Rightarrow> nat \<Rightarrow> bool \<Rightarrow> instr list" where
  "LeaderSendAEs_program r responses decides =
     [Enter r, GetRLock, ReleaseRLock] @ concat (replicate responses [GetLock, ReleaseLock]) @
     (if decides then [Send (Verdict r)] else [])"

text \<open>The heartbeats: a round per tick, until the context is cancelled or the replica is found to
  lead no more.\<close>

definition HeartBeats_program :: "nat list \<Rightarrow> bool \<Rightarrow> instr list" where
  "HeartBeats_program ticks deposed =
     concat (map (\<lambda>r. [GetRLock, ReleaseRLock, StartRound r, Recv (Verdict r)]) ticks) @
     (if deposed then [GetRLock, ReleaseRLock] else [])"

text \<open>\<open>ReadCommand\<close> is entered and left with the read lock held; its round is that of
  \<open>StaleReadCheck\<close>.\<close>

definition naps_program :: "nat \<Rightarrow> instr list" where
  "naps_program naps = concat (replicate naps [ReleaseRLock, GetRLock])"

definition ReadCommand_program :: "nat \<times> nat \<Rightarrow> instr list" where
  "ReadCommand_program read =
     (case read of (naps, r) \<Rightarrow> naps_program naps @ [StartRound r, ReleaseRLock, Recv (Verdict r), GetRLock])"

text \<open>
  \<open>WriteCommand\<close> is entered with the read lock held and left without a lock.  Its ends: not the
  leader, a repeated request, a missing key after a read, or the round, after the existence check
  if there is one, with its verdict.
\<close>

datatype write_end = NotLeader | Repeated | NoSuchKey "nat \<times> nat" | RoundDone "(nat \<times> nat) option" nat bool

definition WriteCommand_program :: "nat \<Rightarrow> write_end \<Rightarrow> instr list" where
  "WriteCommand_program naps e =
     naps_program naps @ [ReleaseRLock, GetLock] @
     (case e of
        NotLeader \<Rightarrow> [ReleaseLock]
      | Repeated \<Rightarrow> [ReleaseLock]
      | NoSuchKey read \<Rightarrow> [ReleaseLock, GetRLock] @ ReadCommand_program read @ [ReleaseRLock]
      | RoundDone check r success \<Rightarrow>
          (case check of
             None \<Rightarrow> []
           | Some read \<Rightarrow> [ReleaseLock, GetRLock] @ ReadCommand_program read @ [ReleaseRLock, GetLock]) @
          [StartRound r, ReleaseLock, Recv (Verdict r)] @
          (if success then [GetLock, ReleaseLock, SendCommit] else []))"

text \<open>The client handlers: \<open>None\<close> is a replica that is not the leader.\<close>

definition write_handler_program :: "(nat \<times> write_end) option \<Rightarrow> instr list" where
  "write_handler_program w =
     [GetRLock] @ (case w of None \<Rightarrow> [ReleaseRLock] | Some (naps, e) \<Rightarrow> WriteCommand_program naps e)"

definition GetHandler_program :: "(nat \<times> nat) option \<Rightarrow> instr list" where
  "GetHandler_program read =
     [GetRLock] @ (case read of None \<Rightarrow> [] | Some rd \<Rightarrow> ReadCommand_program rd) @ [ReleaseRLock]"

text \<open>The goroutines that never send while they hold the lock, from their start to their end or, for
  the winner of an election, from the release of the lock in \<open>ToLeader\<close> on.\<close>

inductive polite :: "instr list \<Rightarrow> bool" where
  "polite AppendEntries_stale_program"
| "polite RequestVote_program"
| "polite (vote_program None)"
| "polite (ToLeader_loop_program fails success)"
| "polite (LeaderSendAEs_program r responses decides)"
| "polite (HeartBeats_program ticks deposed)"
| "polite (write_handler_program w)"
| "polite (GetHandler_program read)"

section \<open>Steps\<close>

type_synonym machine = "shared \<times> instr list list"

inductive mstep :: "machine \<Rightarrow> machine \<Rightarrow> bool" where
  call: "i < length ts \<Longrightarrow> ts ! i = x # p \<Longrightarrow> fire i x l = Some l' \<Longrightarrow> mstep (l, ts) (l', ts[i := p])"
| rendezvous: "i < length ts \<Longrightarrow> j < length ts \<Longrightarrow> i \<noteq> j \<Longrightarrow> ts ! i = Send c # p \<Longrightarrow>
    ts ! j = Recv c # q \<Longrightarrow> mstep (l, ts) (l, ts[i := p, j := q])"

inductive_cases mstepE: "mstep s s'"

section \<open>Critical sections\<close>

text \<open>What a thread holds, and the programs that take and give back the lock in pairs, with
  every channel operation but the start of a round outside of the critical sections.\<close>

datatype hold = Nothing | WriteLock | ReadLock

fun paired :: "hold \<Rightarrow> instr list \<Rightarrow> bool" where
  "paired h [] \<longleftrightarrow> h = Nothing"
| "paired h (x # p) \<longleftrightarrow>
     (case x of
        GetLock \<Rightarrow> h = Nothing \<and> paired WriteLock p
      | ReleaseLock \<Rightarrow> h = WriteLock \<and> paired Nothing p
      | GetRLock \<Rightarrow> h = Nothing \<and> paired ReadLock p
      | ReleaseRLock \<Rightarrow> h = ReadLock \<and> paired Nothing p
      | StartRound r \<Rightarrow> paired h p
      | _ \<Rightarrow> h = Nothing \<and> paired Nothing p)"

lemma paired_append: "paired h p \<Longrightarrow> paired Nothing q \<Longrightarrow> paired h (p @ q)"
  by (induction h p rule: paired.induct) (auto split: instr.splits)

lemma paired_unique: "paired h p \<Longrightarrow> paired h' p \<Longrightarrow> h = h'"
  by (induction h p arbitrary: h' rule: paired.induct) (auto split: instr.splits)

lemma paired_concat: "\<forall>p \<in> set ps. paired Nothing p \<Longrightarrow> paired Nothing (concat ps)"
  by (induction ps) (auto intro: paired_append)

lemma paired_naps: "paired ReadLock (naps_program n @ q) = paired ReadLock q"
  by (induction n) (simp_all add: naps_program_def)

lemma paired_ReadCommand: "paired ReadLock (ReadCommand_program read @ q) = paired ReadLock q"
  by (simp add: ReadCommand_program_def paired_naps split: prod.splits)

text \<open>The waits for a verdict follow the start of the round.\<close>

fun gated :: "nat set \<Rightarrow> instr list \<Rightarrow> bool" where
  "gated R [] \<longleftrightarrow> True"
| "gated R (x # p) \<longleftrightarrow>
     (case x of
        StartRound r \<Rightarrow> gated (insert r R) p
      | Recv (Verdict r) \<Rightarrow> r \<in> R \<and> gated R p
      | _ \<Rightarrow> gated R p)"

lemma gated_mono: "gated R p \<Longrightarrow> R \<subseteq> S \<Longrightarrow> gated S p"
proof (induction p arbitrary: R S)
  case (Cons x p)
  show ?case
  proof (cases x)
    case (Recv c)
    with Cons show ?thesis by (cases c) auto
  next
    case (StartRound r)
    have "insert r R \<subseteq> insert r S" using Cons.prems(2) by blast
    with Cons.IH [of "insert r R" "insert r S"] Cons.prems(1) StartRound show ?thesis by simp
  qed (use Cons in auto)
qed simp

lemma gated_append: "gated R p \<Longrightarrow> gated R q \<Longrightarrow> gated R (p @ q)"
proof (induction p arbitrary: R)
  case (Cons x p)
  show ?case
  proof (cases x)
    case (Recv c)
    with Cons show ?thesis by (cases c) auto
  next
    case (StartRound r)
    have "gated (insert r R) q" by (rule gated_mono [OF Cons.prems(2)]) blast
    with Cons StartRound show ?thesis by simp
  qed (use Cons in auto)
qed simp

lemma gated_concat: "\<forall>p \<in> set ps. gated R p \<Longrightarrow> gated R (concat ps)"
  by (induction ps) (auto intro: gated_append)

lemma gated_naps: "gated R (naps_program n @ q) = gated R q"
  by (induction n) (simp_all add: naps_program_def)

text \<open>Two sorts of goroutines: those that start rounds, wait for their verdicts and commit, and
  the goroutines of a round.\<close>

definition caller :: "instr list \<Rightarrow> bool" where
  "caller p \<longleftrightarrow> RecvCommit \<notin> set p \<and> (\<forall>r. Enter r \<notin> set p \<and> Send (Verdict r) \<notin> set p)"

definition worker :: "instr list \<Rightarrow> bool" where
  "worker p \<longleftrightarrow> (\<exists>r. set p \<subseteq> {GetLock, ReleaseLock, GetRLock, ReleaseRLock, Enter r, Send (Verdict r)})"

definition applier :: "instr list \<Rightarrow> bool" where
  "applier p \<longleftrightarrow> set p \<subseteq> {GetLock, ReleaseLock, RecvCommit}"

lemma sorts_tl: "caller (x # p) \<Longrightarrow> caller p" "worker (x # p) \<Longrightarrow> worker p" "applier (x # p) \<Longrightarrow> applier p"
  by (auto simp: caller_def worker_def applier_def)

lemma naps_instrs: "set (naps_program n) \<subseteq> {ReleaseRLock, GetRLock}"
  by (simp add: naps_program_def)

lemma polite_paired: "polite p \<Longrightarrow> paired Nothing p"
proof (induction rule: polite.induct)
  case (4 fails success)
  then show ?case
    by (auto simp: ToLeader_loop_program_def split: option.splits intro!: paired_append paired_concat)
next
  case (5 r responses decides)
  have "paired Nothing (concat (replicate responses [GetLock, ReleaseLock]))" by (intro paired_concat) simp
  then show ?case by (auto simp: LeaderSendAEs_program_def intro!: paired_append)
next
  case (6 ticks deposed)
  then show ?case by (auto simp: HeartBeats_program_def intro!: paired_append paired_concat)
next
  case (7 w)
  then show ?case
    by (auto simp: write_handler_program_def WriteCommand_program_def paired_naps paired_ReadCommand
        split: option.splits write_end.splits)
next
  case (8 read)
  then show ?case by (auto simp: GetHandler_program_def paired_ReadCommand split: option.splits)
qed (simp_all add: AppendEntries_stale_program_def RequestVote_program_def vote_program_def)

lemma polite_gated: "polite p \<Longrightarrow> gated {} p"
proof (induction rule: polite.induct)
  case (4 fails success)
  then show ?case
    by (auto simp: ToLeader_loop_program_def split: option.splits intro!: gated_append gated_concat)
next
  case (5 r responses decides)
  have "gated {} (concat (replicate responses [GetLock, ReleaseLock]))" by (intro gated_concat) simp
  then show ?case by (auto simp: LeaderSendAEs_program_def intro!: gated_append)
next
  case (6 ticks deposed)
  then show ?case by (auto simp: HeartBeats_program_def intro!: gated_append gated_concat)
next
  case (7 w)
  then show ?case
    by (auto simp: write_handler_program_def WriteCommand_program_def ReadCommand_program_def gated_naps
        split: option.splits write_end.splits prod.splits)
next
  case (8 read)
  then show ?case
    by (auto simp: GetHandler_program_def ReadCommand_program_def gated_naps split: option.splits prod.splits)
qed (simp_all add: AppendEntries_stale_program_def RequestVote_program_def vote_program_def)

lemma polite_sort: "polite p \<Longrightarrow> caller p \<or> worker p"
proof (induction rule: polite.induct)
  case (5 r responses decides)
  have "worker (LeaderSendAEs_program r responses decides)"
    by (auto simp: worker_def LeaderSendAEs_program_def intro!: exI [of _ r])
  then show ?case by simp
next
  case (7 w)
  have "caller (write_handler_program w)"
    using naps_instrs
    by (fastforce simp: caller_def write_handler_program_def WriteCommand_program_def ReadCommand_program_def
        split: option.splits write_end.splits prod.splits)
  then show ?case by simp
next
  case (8 read)
  have "caller (GetHandler_program read)"
    using naps_instrs
    by (fastforce simp: caller_def GetHandler_program_def ReadCommand_program_def split: option.splits prod.splits)
  then show ?case by simp
qed (auto simp: caller_def AppendEntries_stale_program_def RequestVote_program_def vote_program_def
      ToLeader_loop_program_def HeartBeats_program_def split: option.splits)

lemma apply_facts: "paired Nothing (apply_program k)" "gated {} (apply_program k)" "applier (apply_program k)"
  "count_list (apply_program k) RecvCommit = k"
proof -
  show "paired Nothing (apply_program k)" unfolding apply_program_def by (intro paired_concat) simp
  show "gated {} (apply_program k)" unfolding apply_program_def by (intro gated_concat) simp
  show "applier (apply_program k)" by (auto simp: apply_program_def applier_def)
  show "count_list (apply_program k) RecvCommit = k" by (induction k) (simp_all add: apply_program_def)
qed

section \<open>The invariant\<close>

definition total :: "instr \<Rightarrow> instr list list \<Rightarrow> nat" where
  "total x ts = sum_list (map (\<lambda>p. count_list p x) ts)"

text \<open>The lock is held by exactly the threads that are about to give it back, by one writer or
  by readers.\<close>

definition lock_ok :: "shared \<Rightarrow> instr list list \<Rightarrow> bool" where
  "lock_ok l ts \<longleftrightarrow>
     (\<forall>i < length ts. \<exists>h. paired h (ts ! i)) \<and>
     (\<forall>i. lock_owner l = Some i \<longleftrightarrow> i < length ts \<and> paired WriteLock (ts ! i)) \<and>
     (\<forall>i. i \<in> lock_readers l \<longleftrightarrow> i < length ts \<and> paired ReadLock (ts ! i)) \<and>
     (lock_owner l \<noteq> None \<longrightarrow> lock_readers l = {})"

text \<open>On every channel as much is still to be sent as to be received, the apply loop is thread 0,
  and every goroutine of a round is of a round that has begun or is still to be started.\<close>

definition balanced :: "instr list list \<Rightarrow> bool" where
  "balanced ts \<longleftrightarrow> (\<forall>c. total (Send c) ts = total (Recv c) ts)"

definition sorted_threads :: "instr list list \<Rightarrow> bool" where
  "sorted_threads ts \<longleftrightarrow> ts \<noteq> [] \<and> applier (ts ! 0) \<and> (\<forall>i < length ts. i \<noteq> 0 \<longrightarrow> caller (ts ! i) \<or> worker (ts ! i))"

definition rounds_started :: "nat set \<Rightarrow> instr list list \<Rightarrow> bool" where
  "rounds_started R ts \<longleftrightarrow>
     (\<forall>p \<in> set ts. gated R p) \<and>
     (\<forall>r. (\<exists>p \<in> set ts. Enter r \<in> set p) \<longrightarrow> r \<in> R \<or> (\<exists>p \<in> set ts. StartRound r \<in> set p))"

definition machine_ok :: "machine \<Rightarrow> bool" where
  "machine_ok s \<longleftrightarrow>
     lock_ok (fst s) (snd s) \<and> balanced (snd s) \<and> sorted_threads (snd s) \<and> rounds_started (begun (fst s)) (snd s)"

lemma total_update:
  assumes "i < length ts" and "count_list (ts ! i) x = k + count_list p x"
  shows "total x ts = k + total x (ts[i := p])"
proof -
  let ?f = "\<lambda>p. count_list p x"
  have "sum_list ((map ?f ts)[i := ?f p]) = sum_list (map ?f ts) + ?f p - ?f (ts ! i)"
    using assms(1) by (simp add: sum_list_update)
  moreover have "?f (ts ! i) \<le> sum_list (map ?f ts)"
    using assms(1) elem_le_sum_list [of i "map ?f ts"] by simp
  ultimately show ?thesis using assms(2) by (simp add: total_def map_update)
qed

lemma total_pos: "0 < total x ts \<longleftrightarrow> (\<exists>i < length ts. x \<in> set (ts ! i))"
proof -
  have "total x ts = 0 \<longleftrightarrow> (\<forall>p \<in> set ts. x \<notin> set p)" by (auto simp: total_def count_list_0_iff)
  then show ?thesis by (metis gr0I in_set_conv_nth less_irrefl)
qed

text \<open>A step of thread \<open>i\<close> past one instruction.\<close>

lemma lock_ok_step:
  assumes "lock_ok l ts" and "i < length ts" and "ts ! i = x # p" and "fire i x l = Some l'"
  shows "lock_ok l' (ts[i := p])"
proof -
  have h: "\<exists>h. paired h (ts ! j)" if "j < length ts" for j using assms(1) that by (simp add: lock_ok_def)
  have own: "lock_owner l = Some j \<longleftrightarrow> j < length ts \<and> paired WriteLock (ts ! j)"
    and rd: "j \<in> lock_readers l \<longleftrightarrow> j < length ts \<and> paired ReadLock (ts ! j)"
    and ex: "lock_owner l \<noteq> None \<longrightarrow> lock_readers l = {}" for j
    using assms(1) unfolding lock_ok_def by blast+
  obtain g where g: "paired g (x # p)" using h [OF assms(2)] assms(3) by auto
  have gi: "paired g' (ts ! i) \<longleftrightarrow> g' = g" for g' using g assms(3) paired_unique by metis
  have rel: "lock_ok l' (ts[i := p])"
    if "paired g2 p" "\<And>j. lock_owner l' = Some j \<longleftrightarrow> (if j = i then g2 = WriteLock else lock_owner l = Some j)"
      "\<And>j. j \<in> lock_readers l' \<longleftrightarrow> (if j = i then g2 = ReadLock else j \<in> lock_readers l)"
      "lock_owner l' \<noteq> None \<longrightarrow> lock_readers l' = {}" for g2
  proof -
    have gp: "paired g' p \<longleftrightarrow> g' = g2" for g' using that(1) paired_unique by metis
    have nth: "paired g' (ts[i := p] ! j) \<longleftrightarrow> (if j = i then g' = g2 else paired g' (ts ! j))" if "j < length ts" for g' j
      using that gp by (simp add: nth_list_update)
    have "\<exists>g'. paired g' (ts[i := p] ! j)" if "j < length ts" for j
      using h [OF that] nth [OF that] by (cases "j = i") auto
    then have 1: "\<forall>j < length (ts[i := p]). \<exists>g'. paired g' (ts[i := p] ! j)" by simp
    have 2: "lock_owner l' = Some j \<longleftrightarrow> j < length (ts[i := p]) \<and> paired WriteLock (ts[i := p] ! j)" for j
      using that(2) [of j] nth [of j] own [of j] assms(2) by auto
    have 3: "j \<in> lock_readers l' \<longleftrightarrow> j < length (ts[i := p]) \<and> paired ReadLock (ts[i := p] ! j)" for j
      using that(3) [of j] nth [of j] rd [of j] assms(2) by auto
    from 1 2 3 that(4) show ?thesis unfolding lock_ok_def by blast
  qed
  have oi: "lock_owner l = Some i \<longleftrightarrow> g = WriteLock" and ri: "i \<in> lock_readers l \<longleftrightarrow> g = ReadLock"
    using own [of i] rd [of i] gi assms(2) by auto
  show ?thesis
  proof (cases x)
    case GetLock
    with g assms(4) show ?thesis by (intro rel [of WriteLock]) (auto simp: fire_def split: if_splits)
  next
    case ReleaseLock
    with g assms(4) ex show ?thesis by (intro rel [of Nothing]) (auto simp: fire_def split: if_splits)
  next
    case GetRLock
    with g assms(4) show ?thesis by (intro rel [of ReadLock]) (auto simp: fire_def split: if_splits)
  next
    case ReleaseRLock
    with g assms(4) ex oi show ?thesis by (intro rel [of Nothing]) (auto simp: fire_def split: if_splits)
  next
    case (StartRound r)
    with g assms(4) ex oi ri show ?thesis by (intro rel [of g]) (auto simp: fire_def)
  next
    case (Enter r)
    with g assms(4) ex oi ri show ?thesis by (intro rel [of Nothing]) (auto simp: fire_def split: if_splits)
  next
    case SendTimer
    with g assms(4) ex oi ri show ?thesis by (intro rel [of Nothing]) (auto simp: fire_def)
  qed (use assms(4) in \<open>simp_all add: fire_def\<close>)
qed

lemma lock_ok_pass:
  assumes "lock_ok l ts" and "i < length ts" and "ts ! i = x # p" and "x = Send c \<or> x = Recv c"
  shows "lock_ok l (ts[i := p])"
proof -
  obtain h where "paired h (ts ! i)" using assms(1,2) unfolding lock_ok_def by blast
  with assms(3,4) have h: "paired Nothing (ts ! i)" "paired Nothing p" by auto
  have "paired g (ts[i := p] ! j) \<longleftrightarrow> paired g (ts ! j)" if "j < length ts" for g j
    using that h paired_unique assms(2) by (cases "j = i") auto
  with assms(1) show ?thesis unfolding lock_ok_def by (metis length_list_update)
qed

lemma sorted_threads_step:
  assumes "sorted_threads ts" and "i < length ts" and "ts ! i = x # p"
  shows "sorted_threads (ts[i := p])"
  using assms sorts_tl [of x p] by (auto simp: sorted_threads_def nth_list_update)

lemma rounds_started_step:
  assumes "rounds_started R ts" and "i < length ts" and "ts ! i = x # p"
  shows "rounds_started (case x of StartRound r \<Rightarrow> insert r R | _ \<Rightarrow> R) (ts[i := p])"
proof -
  let ?R = "case x of StartRound r \<Rightarrow> insert r R | _ \<Rightarrow> R"
  have g: "gated R q" if "q \<in> set ts" for q using assms(1) that by (simp add: rounds_started_def)
  have up: "R \<subseteq> ?R" by (auto split: instr.splits)
  have "gated R (x # p)" using g nth_mem [OF assms(2)] assms(3) by metis
  then have "gated ?R p" by (auto split: instr.splits chan.splits)
  moreover have "gated ?R q" if "q \<in> set ts" for q by (rule gated_mono [OF g [OF that] up])
  ultimately have "gated ?R q" if "q \<in> insert p (set ts)" for q using that by blast
  then have 1: "\<forall>q \<in> set (ts[i := p]). gated ?R q" using set_update_subset_insert [of ts i p] by blast
  have 2: "r \<in> ?R \<or> (\<exists>q \<in> set (ts[i := p]). StartRound r \<in> set q)" if "\<exists>q \<in> set (ts[i := p]). Enter r \<in> set q" for r
  proof -
    from that obtain q where q: "q \<in> set (ts[i := p])" "Enter r \<in> set q" by blast
    then have "q = p \<or> q \<in> set ts" using set_update_subset_insert by fastforce
    then have "\<exists>q \<in> set ts. Enter r \<in> set q"
      using q(2) assms(2,3) by (metis list.set_intros(2) nth_mem)
    then have "r \<in> R \<or> (\<exists>q \<in> set ts. StartRound r \<in> set q)" using assms(1) by (simp add: rounds_started_def)
    then show ?thesis
    proof
      assume "\<exists>q \<in> set ts. StartRound r \<in> set q"
      then obtain j where j: "j < length ts" "StartRound r \<in> set (ts ! j)" by (auto simp: in_set_conv_nth [of _ ts])
      have m: "ts[i := p] ! j \<in> set (ts[i := p])" using j(1) by (metis length_list_update nth_mem)
      show ?thesis
      proof (cases "StartRound r \<in> set (ts[i := p] ! j)")
        case True
        with m show ?thesis by blast
      next
        case False
        then have "x = StartRound r" using j assms(2,3) by (auto simp: nth_list_update split: if_splits)
        then show ?thesis by simp
      qed
    qed (use up in blast)
  qed
  from 1 2 show ?thesis unfolding rounds_started_def by blast
qed

lemma machine_ok_call:
  assumes "machine_ok (l, ts)" and "i < length ts" and "ts ! i = x # p" and "fire i x l = Some l'"
  shows "machine_ok (l', ts[i := p])"
proof -
  have ok: "lock_ok l ts" "balanced ts" "sorted_threads ts" "rounds_started (begun l) ts"
    using assms(1) by (simp_all add: machine_ok_def)
  have x: "x \<noteq> Send c" "x \<noteq> Recv c" for c using assms(4) by (auto simp: fire_def)
  have "total y ts = 0 + total y (ts[i := p])" if "y = Send c \<or> y = Recv c" for y c
    using assms(2,3) x that by (intro total_update) auto
  then have "balanced (ts[i := p])" using ok(2) by (simp add: balanced_def)
  moreover have "begun l' = (case x of StartRound r \<Rightarrow> insert r (begun l) | _ \<Rightarrow> begun l)"
    using assms(4) by (auto simp: fire_def split: instr.splits if_splits)
  ultimately show ?thesis
    using lock_ok_step [OF ok(1) assms(2-4)] sorted_threads_step [OF ok(3) assms(2,3)]
      rounds_started_step [OF ok(4) assms(2,3)] by (simp add: machine_ok_def)
qed

lemma machine_ok_rendezvous:
  assumes "machine_ok (l, ts)" and "i < length ts" and "j < length ts" and "i \<noteq> j"
    and "ts ! i = Send c # p" and "ts ! j = Recv c # q"
  shows "machine_ok (l, ts[i := p, j := q])"
proof -
  have ok: "lock_ok l ts" "balanced ts" "sorted_threads ts" "rounds_started (begun l) ts"
    using assms(1) by (simp_all add: machine_ok_def)
  have j: "j < length (ts[i := p])" "ts[i := p] ! j = Recv c # q" using assms(3,4,6) by simp_all
  have "total (Send d) ts = total (Send d) (ts[i := p, j := q]) + (if d = c then 1 else 0) \<and>
        total (Recv d) ts = total (Recv d) (ts[i := p, j := q]) + (if d = c then 1 else 0)" for d
  proof -
    have "total (Send d) ts = (if d = c then 1 else 0) + total (Send d) (ts[i := p])"
      "total (Recv d) ts = 0 + total (Recv d) (ts[i := p])"
      using assms(2,5) by (intro total_update; simp)+
    moreover have "total (Send d) (ts[i := p]) = 0 + total (Send d) (ts[i := p, j := q])"
      "total (Recv d) (ts[i := p]) = (if d = c then 1 else 0) + total (Recv d) (ts[i := p, j := q])"
      using j by (intro total_update; simp)+
    ultimately show ?thesis by simp
  qed
  with ok(2) have "balanced (ts[i := p, j := q])" unfolding balanced_def by (metis add_right_cancel)
  then show ?thesis
    using lock_ok_pass [OF lock_ok_pass [OF ok(1) assms(2,5)] j]
      sorted_threads_step [OF sorted_threads_step [OF ok(3) assms(2,5)] j]
      rounds_started_step [OF rounds_started_step [OF ok(4) assms(2,5)] j] by (simp add: machine_ok_def)
qed

lemma machine_ok_step: "mstep s s' \<Longrightarrow> machine_ok s \<Longrightarrow> machine_ok s'"
  by (induction rule: mstep.induct) (blast intro: machine_ok_call machine_ok_rendezvous)+

lemma machine_ok_steps: "mstep\<^sup>*\<^sup>* s s' \<Longrightarrow> machine_ok s \<Longrightarrow> machine_ok s'"
  by (induction rule: rtranclp_induct) (auto intro: machine_ok_step)

section \<open>Progress\<close>

definition finished :: "machine \<Rightarrow> bool" where
  "finished s \<longleftrightarrow> (\<forall>p \<in> set (snd s). p = [])"

definition work :: "machine \<Rightarrow> nat" where
  "work s = sum_list (map length (snd s))"

lemma work_update:
  assumes "i < length ts" and "length (ts ! i) = Suc (length p)"
  shows "work (l', ts[i := p]) < work (l, ts)"
proof -
  have "sum_list ((map length ts)[i := length p]) = sum_list (map length ts) + length p - length (ts ! i)"
    using assms(1) by (simp add: sum_list_update)
  moreover have "length (ts ! i) \<le> sum_list (map length ts)"
    using assms(1) elem_le_sum_list [of i "map length ts"] by simp
  ultimately show ?thesis using assms(2) by (simp add: work_def map_update)
qed

lemma mstep_work: "mstep s s' \<Longrightarrow> work s' < work s"
proof (induction rule: mstep.induct)
  case (call i ts x p l l')
  then show ?case by (intro work_update) simp_all
next
  case (rendezvous i ts j c p q l)
  then have "work (l, ts[i := p]) < work (l, ts)" "work (l, ts[i := p, j := q]) < work (l, ts[i := p])"
    by (auto intro!: work_update)
  then show ?case by simp
qed

text \<open>In a state without a next step the lock is free, and every thread that is not finished is
  at a channel operation or a goroutine of a round that has not begun.\<close>

lemma stuck_heads:
  assumes ok: "machine_ok (l, ts)" and stuck: "\<not> (\<exists>s'. mstep (l, ts) s')"
    and i: "i < length ts" "ts ! i = x # p"
  shows "(\<exists>c. x = Send c) \<or> (\<exists>c. x = Recv c) \<or> (\<exists>r. x = Enter r \<and> r \<notin> begun l)"
proof -
  have no: "fire j y l = None" if "j < length ts" "ts ! j = y # q" for j y q
    using stuck mstep.call [OF that, of l] by (cases "fire j y l") auto
  have lk: "lock_ok l ts" using ok by (simp add: machine_ok_def)
  have own: "lock_owner l = Some j \<longleftrightarrow> j < length ts \<and> paired WriteLock (ts ! j)"
    and rd: "j \<in> lock_readers l \<longleftrightarrow> j < length ts \<and> paired ReadLock (ts ! j)" for j
    using lk unfolding lock_ok_def by blast+
  have w: "lock_owner l = None"
  proof (cases "lock_owner l")
    case (Some j)
    then have j: "j < length ts" "paired WriteLock (ts ! j)" using own by simp_all
    then obtain y q where "ts ! j = y # q" by (cases "ts ! j") auto
    with no [OF j(1) this] j(2) Some show ?thesis by (auto simp: fire_def split: instr.splits)
  qed
  moreover have "lock_readers l = {}"
  proof (rule ccontr)
    assume "lock_readers l \<noteq> {}"
    then obtain j where m: "j \<in> lock_readers l" by blast
    then have j: "j < length ts" "paired ReadLock (ts ! j)" using rd by simp_all
    then obtain y q where "ts ! j = y # q" by (cases "ts ! j") auto
    with no [OF j(1) this] j(2) m show False by (auto simp: fire_def split: instr.splits)
  qed
  moreover obtain h where "paired h (x # p)" using lk i unfolding lock_ok_def by metis
  moreover from this have "h = Nothing" using calculation(1,2) own [of i] rd [of i] i by (cases h) auto
  ultimately show ?thesis using no [OF i] by (cases x) (auto simp: fire_def split: if_splits)
qed

lemma stuck_caller:
  assumes ok: "machine_ok (l, ts)" and stuck: "\<not> (\<exists>s'. mstep (l, ts) s')"
    and i: "i < length ts" "i \<noteq> 0" "caller (ts ! i)"
  shows "ts ! i = []"
proof (cases "ts ! i")
  case (Cons x p)
  have bal: "total (Send c) ts = total (Recv c) ts" for c using ok by (simp add: machine_ok_def balanced_def)
  have st: "sorted_threads ts" and rs: "rounds_started (begun l) ts" using ok by (simp_all add: machine_ok_def)
  have nomeet: False if "a < length ts" "b < length ts" "a \<noteq> b" "ts ! a = Send c # q" "ts ! b = Recv c # q'" for a b c q q'
    using stuck mstep.rendezvous [OF that, of l] by blast
  have c: "(\<exists>r. x = Recv (Verdict r)) \<or> x = Send Commits"
    using stuck_heads [OF ok stuck i(1) Cons] i(3) Cons unfolding caller_def
    by (metis chan.exhaust list.set_intros(1))
  then show ?thesis
  proof
    assume "\<exists>r. x = Recv (Verdict r)"
    then obtain r where r: "x = Recv (Verdict r)" by blast
    have "gated (begun l) (ts ! i)" using rs nth_mem [OF i(1)] by (simp add: rounds_started_def)
    with Cons r have b: "r \<in> begun l" by simp
    have "0 < total (Recv (Verdict r)) ts" unfolding total_pos using i(1) Cons r by auto
    then have "0 < total (Send (Verdict r)) ts" by (simp add: bal)
    then obtain j where j: "j < length ts" "Send (Verdict r) \<in> set (ts ! j)" unfolding total_pos by blast
    have "applier (ts ! 0)" using st by (simp add: sorted_threads_def)
    then have "j \<noteq> 0" using j(2) by (cases "j = 0") (auto simp: applier_def)
    then have "worker (ts ! j)" using j st by (auto simp: sorted_threads_def caller_def)
    then have sub: "set (ts ! j) \<subseteq> {GetLock, ReleaseLock, GetRLock, ReleaseRLock, Enter r, Send (Verdict r)}"
      using j(2) unfolding worker_def by auto
    obtain y q where y: "ts ! j = y # q" using j(2) by (cases "ts ! j") auto
    have "y = Send (Verdict r)" using stuck_heads [OF ok stuck j(1) y] sub b y by auto
    moreover have "j \<noteq> i" using i(3) j(2) by (auto simp: caller_def)
    ultimately show ?thesis using nomeet [OF j(1) i(1)] y Cons r by blast
  next
    assume s: "x = Send Commits"
    then have "0 < total (Send Commits) ts" unfolding total_pos using i(1) Cons by auto
    then have "0 < total (Recv Commits) ts" by (simp add: bal)
    then obtain j where j: "j < length ts" "Recv Commits \<in> set (ts ! j)" unfolding total_pos by blast
    have j0: "j = 0"
    proof (rule ccontr)
      assume "j \<noteq> 0"
      with st j have "caller (ts ! j) \<or> worker (ts ! j)" by (simp add: sorted_threads_def)
      with j(2) show False by (auto simp: caller_def worker_def)
    qed
    obtain y q where y: "ts ! j = y # q" using j(2) by (cases "ts ! j") auto
    have "y \<in> {GetLock, ReleaseLock, RecvCommit}" using st j0 y by (auto simp: sorted_threads_def applier_def)
    then have "y = Recv Commits" using stuck_heads [OF ok stuck j(1) y] by auto
    then show ?thesis using nomeet [OF i(1) j(1)] j0 i(2) y Cons s by blast
  qed
qed

lemma machine_progress:
  assumes ok: "machine_ok (l, ts)" and nf: "\<not> finished (l, ts)"
  shows "\<exists>s'. mstep (l, ts) s'"
proof (rule ccontr)
  assume stuck: "\<not> (\<exists>s'. mstep (l, ts) s')"
  have bal: "total (Send c) ts = total (Recv c) ts" for c using ok by (simp add: machine_ok_def balanced_def)
  have st: "sorted_threads ts" and rs: "rounds_started (begun l) ts" using ok by (simp_all add: machine_ok_def)
  have sorts: "applier (ts ! i) \<or> worker (ts ! i) \<or> (caller (ts ! i) \<and> ts ! i = [])" if "i < length ts" for i
    using st that stuck_caller [OF ok stuck that] unfolding sorted_threads_def by metis
  have nosend: "total (Send Commits) ts = 0" "total (Recv (Verdict r)) ts = 0"
    and nostart: "StartRound r \<notin> set p" if "p \<in> set ts" for p r
  proof -
    have "Send Commits \<notin> set (ts ! i) \<and> Recv (Verdict r) \<notin> set (ts ! i) \<and> StartRound r \<notin> set (ts ! i)"
      if "i < length ts" for i r
      using sorts [OF that] by (auto simp: applier_def worker_def)
    then show "total (Send Commits) ts = 0" "total (Recv (Verdict r)) ts = 0" "StartRound r \<notin> set p"
      using total_pos [of "Send Commits" ts] total_pos [of "Recv (Verdict r)" ts] that
      by (auto simp: in_set_conv_nth [of p ts])
  qed
  from nf obtain i where i: "i < length ts" "ts ! i \<noteq> []" by (auto simp: finished_def in_set_conv_nth)
  then obtain x p where xp: "ts ! i = x # p" by (cases "ts ! i") auto
  have mem: "ts ! i \<in> set ts" using i(1) by simp
  from stuck_heads [OF ok stuck i(1) xp] consider c where "x = Send c" | c where "x = Recv c" | r where "x = Enter r" "r \<notin> begun l"
    by blast
  then show False
  proof cases
    case (1 c)
    then have "0 < total (Send c) ts" unfolding total_pos using i(1) xp by auto
    with nosend [OF mem] bal [of c] show False by (cases c) auto
  next
    case (2 c)
    then have "0 < total (Recv c) ts" unfolding total_pos using i(1) xp by auto
    with nosend [OF mem] bal [of c] show False by (cases c) auto
  next
    case (3 r)
    then have "Enter r \<in> set (ts ! i)" using xp by simp
    with rs mem have "r \<in> begun l \<or> (\<exists>p \<in> set ts. StartRound r \<in> set p)"
      unfolding rounds_started_def by blast
    with 3(2) nostart show False by blast
  qed
qed

lemma machine_completes:
  "machine_ok s \<Longrightarrow> \<exists>s'. mstep\<^sup>*\<^sup>* s s' \<and> finished s' \<and> machine_ok s'"
proof (induction "work s" arbitrary: s rule: less_induct)
  case less
  show ?case
  proof (cases "finished s")
    case True
    with less.prems show ?thesis by blast
  next
    case False
    obtain l ts where s: "s = (l, ts)" by fastforce
    from machine_progress [of l ts] less.prems False s obtain s1 where s1: "mstep s s1" by blast
    from less.hyps [OF mstep_work [OF s1] machine_ok_step [OF s1 less.prems]] show ?thesis
      using s1 by (meson converse_rtranclp_into_rtranclp)
  qed
qed

lemma finished_free:
  assumes "machine_ok (l, ts)" and "finished (l, ts)"
  shows "lock_owner l = None \<and> lock_readers l = {}"
proof -
  have no: "\<not> paired WriteLock (ts ! i) \<and> \<not> paired ReadLock (ts ! i)" if "i < length ts" for i
    using assms(2) nth_mem [OF that] by (auto simp: finished_def)
  have lk: "lock_ok l ts" using assms(1) by (simp add: machine_ok_def)
  have "lock_owner l \<noteq> Some i" and "i \<notin> lock_readers l" for i
    using lk no [of i] unfolding lock_ok_def by blast+
  then show ?thesis by (cases "lock_owner l") auto
qed

text \<open>The machine with one apply loop and polite goroutines, in which every round has the
  goroutine that decides it and every goroutine of a round somebody who starts the round.\<close>

definition rounds_complete :: "instr list list \<Rightarrow> bool" where
  "rounds_complete ts \<longleftrightarrow>
     (\<forall>r. total (Send (Verdict r)) ts = total (Recv (Verdict r)) ts \<and>
          ((\<exists>p \<in> set ts. Enter r \<in> set p) \<longrightarrow> (\<exists>p \<in> set ts. StartRound r \<in> set p)))"

lemma total_Cons: "total x (p # ts) = count_list p x + total x ts"
  by (simp add: total_def)

lemma machine_ok_init:
  assumes "\<forall>p \<in> set ts. polite p" and "total SendCommit ts = k" and "rounds_complete ts"
  shows "machine_ok (free_lock, apply_program k # ts)"
proof -
  let ?ts = "apply_program k # ts"
  have pr: "paired Nothing p" if "p \<in> set ?ts" for p using that assms(1) polite_paired apply_facts(1) by auto
  have "\<not> paired WriteLock (?ts ! i) \<and> \<not> paired ReadLock (?ts ! i)" if "i < length ?ts" for i
    using pr [OF nth_mem [OF that]] paired_unique by blast
  moreover have "\<exists>h. paired h (?ts ! i)" if "i < length ?ts" for i using pr [OF nth_mem [OF that]] by blast
  ultimately have 1: "lock_ok free_lock ?ts" unfolding lock_ok_def by (auto simp: free_lock_def)
  have z: "Send c \<notin> set (apply_program k)" "Recv (Verdict r) \<notin> set (apply_program k)"
    "Enter r \<notin> set (apply_program k)" for c r
    using apply_facts(3) [of k] by (auto simp: applier_def)
  have "RecvCommit \<notin> set p" if "p \<in> set ts" for p
    using that assms(1) polite_sort [of p] by (auto simp: caller_def worker_def)
  then have "total RecvCommit ts = 0" using total_pos [of RecvCommit ts] nth_mem by (metis gr0I)
  then have "total (Send c) ?ts = total (Recv c) ?ts" for c
    using assms(2,3) apply_facts(4) [of k] z by (cases c) (auto simp: total_Cons rounds_complete_def)
  then have 2: "balanced ?ts" by (simp add: balanced_def)
  have 3: "sorted_threads ?ts"
    using apply_facts(3) [of k] assms(1) polite_sort by (auto simp: sorted_threads_def nth_Cons')
  have 4: "rounds_started {} ?ts"
    using assms(1,3) polite_gated apply_facts(2) z by (auto simp: rounds_started_def rounds_complete_def)
  from 1 2 3 4 show ?thesis by (simp add: machine_ok_def free_lock_def)
qed

section \<open>Properties\<close>

text \<open>
  C30: the goroutines that send nothing while they hold the lock do not deadlock.  They are: client
  handlers with their reads and writes, vote goroutines that do not win, the NO-OP loop of a new
  leader from the release of the lock on, heartbeats, the goroutines of all rounds that these start,
  vote requests and AppendEntries messages of an older term.  Take any number of them, on any of
  their paths, together with an apply loop that takes as many numbers as they commit, and let
  every round have a goroutine that decides it and somebody who starts it.  Then from every
  state that any interleaving can reach, all of them can finish, with the lock free; every step
  lowers the number of instructions left, so that no run goes on for ever; and at no point is the
  lock held by a writer and a reader, or by a thread that is outside of its critical section.  The
  handlers that do send under the lock are not among them: \<open>commit_under_lock_deadlock\<close> and
  \<open>timer_handler_deadlock\<close>.
\<close>

theorem polite_goroutines_finish:
  assumes "\<forall>p \<in> set ts. polite p" and "total SendCommit ts = k" and "rounds_complete ts"
    and "mstep\<^sup>*\<^sup>* (free_lock, apply_program k # ts) s"
  shows "(\<exists>s'. mstep\<^sup>*\<^sup>* s s' \<and> finished s' \<and> lock_owner (fst s') = None \<and> lock_readers (fst s') = {}) \<and>
     (\<forall>s'. mstep s s' \<longrightarrow> work s' < work s) \<and>
     (\<forall>i. lock_owner (fst s) = Some i \<longrightarrow> lock_readers (fst s) = {} \<and> paired WriteLock (snd s ! i)) \<and>
     (\<forall>i \<in> lock_readers (fst s). paired ReadLock (snd s ! i))"
proof -
  have ok: "machine_ok s" using machine_ok_steps [OF assms(4)] machine_ok_init [OF assms(1-3)] by simp
  from machine_completes [OF ok] obtain s' where s': "mstep\<^sup>*\<^sup>* s s'" "finished s'" "machine_ok s'" by blast
  then have "lock_owner (fst s') = None \<and> lock_readers (fst s') = {}" using finished_free [of "fst s'" "snd s'"] by simp
  moreover have lk: "lock_ok (fst s) (snd s)" using ok by (simp add: machine_ok_def)
  then have "lock_readers (fst s) = {} \<and> paired WriteLock (snd s ! i)" if "lock_owner (fst s) = Some i" for i
    using that unfolding lock_ok_def by blast
  moreover from lk have "\<forall>i \<in> lock_readers (fst s). paired ReadLock (snd s ! i)" unfolding lock_ok_def by blast
  ultimately show ?thesis using s'(1,2) mstep_work by blast
qed

text \<open>A PUT at the leader with its existence check, a vote request and a read; the rounds 0, 1
  and 2 of these three clients with two goroutines each.\<close>

definition demo_threads :: "instr list list" where
  "demo_threads = [write_handler_program (Some (1, RoundDone (Some (0, 0)) 1 True)), RequestVote_program,
     GetHandler_program (Some (2, 2)),
     LeaderSendAEs_program 0 1 True, LeaderSendAEs_program 0 0 False,
     LeaderSendAEs_program 1 2 True, LeaderSendAEs_program 1 1 False,
     LeaderSendAEs_program 2 1 False, LeaderSendAEs_program 2 1 True]"

lemma demo_rounds: "rounds_complete demo_threads"
  by (auto simp: rounds_complete_def demo_threads_def total_def write_handler_program_def WriteCommand_program_def
      ReadCommand_program_def naps_program_def RequestVote_program_def GetHandler_program_def
      LeaderSendAEs_program_def eval_nat_numeral)

theorem polite_goroutines_finish_witness:
  "\<exists>s'. mstep\<^sup>*\<^sup>* (free_lock, apply_program 1 # demo_threads) s' \<and> finished s' \<and> lock_owner (fst s') = None"
proof -
  have "\<forall>p \<in> set demo_threads. polite p" by (auto simp: demo_threads_def intro: polite.intros)
  moreover have "total SendCommit demo_threads = 1" by code_simp
  ultimately show ?thesis using polite_goroutines_finish [of demo_threads 1] demo_rounds by blast
qed

text \<open>Two handlers that commit in a row, up to the state in which nobody gets on.\<close>

abbreviation stuck_loop :: "instr list" where
  "stuck_loop \<equiv> [GetLock, ReleaseLock, RecvCommit, GetLock, ReleaseLock]"

abbreviation stuck_state :: "instr list list \<Rightarrow> machine" where
  "stuck_state ts \<equiv> (\<lparr>lock_owner = Some 2, lock_readers = {}, begun = {}\<rparr>, stuck_loop # [] # [SendCommit, ReleaseLock] # ts)"

lemma two_commits_stuck:
  "mstep\<^sup>*\<^sup>* (free_lock, apply_program 2 # AppendEntries_program True # AppendEntries_program True # ts) (stuck_state ts)"
proof -
  let ?ap = "RecvCommit # GetLock # ReleaseLock # [RecvCommit, GetLock, ReleaseLock]"
  let ?ae = "[GetLock, SendTimer, SendCommit, ReleaseLock]"
  have pr: "apply_program 2 = ?ap" "AppendEntries_program True = ?ae"
    by (simp_all add: apply_program_def AppendEntries_program_def numeral_2_eq_2)
  let ?l1 = "\<lparr>lock_owner = Some 1, lock_readers = {}, begun = {}\<rparr>"
  let ?l2 = "\<lparr>lock_owner = Some 2, lock_readers = {}, begun = {}\<rparr>"
  have "mstep (free_lock, ?ap # ?ae # ?ae # ts) (?l1, ?ap # tl ?ae # ?ae # ts)"
    using mstep.call [of 1 "?ap # ?ae # ?ae # ts" GetLock "tl ?ae" free_lock ?l1]
    by (simp add: fire_def free_lock_def)
  moreover have "mstep (?l1, ?ap # tl ?ae # ?ae # ts) (?l1, ?ap # tl (tl ?ae) # ?ae # ts)"
    using mstep.call [of 1 "?ap # tl ?ae # ?ae # ts" SendTimer "tl (tl ?ae)" ?l1 ?l1] by (simp add: fire_def)
  moreover have "mstep (?l1, ?ap # tl (tl ?ae) # ?ae # ts) (?l1, stuck_loop # [ReleaseLock] # ?ae # ts)"
    using mstep.rendezvous [of 1 "?ap # tl (tl ?ae) # ?ae # ts" 0 Commits "[ReleaseLock]" stuck_loop ?l1] by simp
  moreover have "mstep (?l1, stuck_loop # [ReleaseLock] # ?ae # ts) (free_lock, stuck_loop # [] # ?ae # ts)"
    using mstep.call [of 1 "stuck_loop # [ReleaseLock] # ?ae # ts" ReleaseLock "[]" ?l1 free_lock]
    by (simp add: fire_def free_lock_def)
  moreover have "mstep (free_lock, stuck_loop # [] # ?ae # ts) (?l2, stuck_loop # [] # tl ?ae # ts)"
    using mstep.call [of 2 "stuck_loop # [] # ?ae # ts" GetLock "tl ?ae" free_lock ?l2]
    by (simp add: fire_def free_lock_def numeral_2_eq_2)
  moreover have "mstep (?l2, stuck_loop # [] # tl ?ae # ts) (stuck_state ts)"
    using mstep.call [of 2 "stuck_loop # [] # tl ?ae # ts" SendTimer "tl (tl ?ae)" ?l2 ?l2]
    by (simp add: fire_def numeral_2_eq_2)
  ultimately show ?thesis unfolding pr list.sel by (meson r_into_rtranclp rtranclp_trans)
qed

lemma stuck_stays:
  assumes "mstep\<^sup>*\<^sup>* (stuck_state ts) s" and "\<forall>p \<in> set ts. RecvCommit \<notin> set p"
  shows "lock_owner (fst s) = Some 2 \<and> snd s \<noteq> [] \<and> snd s ! 0 = stuck_loop \<and>
     (\<forall>i < length (snd s). i \<noteq> 0 \<longrightarrow> RecvCommit \<notin> set (snd s ! i)) \<and> snd s ! 2 = [SendCommit, ReleaseLock]"
  using assms(1)
proof (induction rule: rtranclp_induct)
  case base
  let ?rest = "[] # [SendCommit, ReleaseLock] # ts"
  have "RecvCommit \<notin> set ((stuck_loop # ?rest) ! i)" if "i < length (stuck_loop # ?rest)" "i \<noteq> 0" for i
  proof -
    have "(stuck_loop # ?rest) ! i \<in> set ?rest" using that nth_mem [of "i - 1" ?rest] by (cases i) auto
    then show ?thesis using assms(2) by auto
  qed
  then show ?case by (simp add: numeral_2_eq_2)
next
  case (step s1 s2)
  from step.hyps(2) step.IH show ?case
  proof (induction rule: mstep.induct)
    case (call i ts x p l l')
    have "i \<noteq> 0" using call by (cases "i = 0") (auto simp: fire_def)
    moreover have "i \<noteq> 2" using call by (cases "i = 2") (auto simp: fire_def)
    moreover have "lock_owner l' = Some 2" using call calculation by (auto simp: fire_def split: instr.splits if_splits)
    ultimately have "i \<noteq> 0" "i \<noteq> 2" "lock_owner l' = Some 2" by simp_all
    with call show ?case by (auto simp: nth_list_update)
  next
    case (rendezvous i ts j c p q l)
    have ij: "i \<noteq> 0" "j \<noteq> 0" "j \<noteq> 2" using rendezvous by (cases "i = 0"; cases "j = 0"; cases "j = 2"; force)+
    have "\<forall>k < length ts. k \<noteq> 0 \<longrightarrow> RecvCommit \<notin> set (ts ! k)" using rendezvous by simp
    then have "RecvCommit \<notin> set (ts ! j)" using rendezvous(2) ij(2) by blast
    with rendezvous have "i \<noteq> 2" by (cases "i = 2") auto
    with rendezvous ij show ?case by (auto simp: nth_list_update)
  qed
qed

text \<open>
  C31: the handler of AppendEntries sends on the unbuffered commit channel while it holds the lock:
  when two requests that commit entries arrive in a row, the second handler can take the lock
  after the apply loop has received the number of the first and before it has taken the lock;
  then the handler waits for the apply loop and the apply loop for the lock, and whatever the
  other goroutines do, the lock is never given back.
\<close>

theorem commit_under_lock_deadlock:
  assumes "\<forall>p \<in> set ts. RecvCommit \<notin> set p"
  shows "\<exists>s. mstep\<^sup>*\<^sup>* (free_lock, apply_program 2 # AppendEntries_program True # AppendEntries_program True # ts) s \<and>
     (\<forall>s'. mstep\<^sup>*\<^sup>* s s' \<longrightarrow> lock_owner (fst s') = Some 2 \<and> \<not> finished s')"
proof -
  have "\<not> finished s'" if "snd s' \<noteq> []" "snd s' ! 0 = stuck_loop" for s' :: machine
    using that by (cases "snd s'") (auto simp: finished_def)
  with two_commits_stuck stuck_stays [OF _ assms] show ?thesis by blast
qed

theorem commit_under_lock_deadlock_witness:
  "\<exists>s. mstep\<^sup>*\<^sup>* (free_lock, [apply_program 2, AppendEntries_program True, AppendEntries_program True, RequestVote_program]) s \<and>
     lock_owner (fst s) = Some 2 \<and> \<not> finished s"
proof -
  have "\<forall>p \<in> set [RequestVote_program]. RecvCommit \<notin> set p" by (simp add: RequestVote_program_def)
  from commit_under_lock_deadlock [OF this] show ?thesis by (meson rtranclp.rtrancl_refl)
qed

text \<open>
  The same send keeps a replica from shutting down: once the apply loop has returned on
  the cancelled context, an AppendEntries request that commits takes the lock and never gives it
  back, so that its RPC never ends and everything else that needs the lock waits.
\<close>

theorem commit_after_apply_exit_blocks:
  assumes "\<forall>p \<in> set ts. RecvCommit \<notin> set p"
  shows "\<exists>s. mstep\<^sup>*\<^sup>* (free_lock, apply_program 0 # AppendEntries_program True # ts) s \<and>
     (\<forall>s'. mstep\<^sup>*\<^sup>* s s' \<longrightarrow> lock_owner (fst s') = Some 1 \<and> \<not> finished s')"
proof -
  let ?l = "\<lparr>lock_owner = Some 1, lock_readers = {}, begun = {}\<rparr>" and ?q = "[SendCommit, ReleaseLock]"
  have pr: "apply_program 0 = []" "AppendEntries_program True = GetLock # SendTimer # ?q"
    by (simp_all add: apply_program_def AppendEntries_program_def)
  have "mstep (free_lock, [] # (GetLock # SendTimer # ?q) # ts) (?l, [] # (SendTimer # ?q) # ts)"
    using mstep.call [of 1 "[] # (GetLock # SendTimer # ?q) # ts" GetLock "SendTimer # ?q" free_lock ?l]
    by (simp add: fire_def free_lock_def)
  moreover have "mstep (?l, [] # (SendTimer # ?q) # ts) (?l, [] # ?q # ts)"
    using mstep.call [of 1 "[] # (SendTimer # ?q) # ts" SendTimer ?q ?l ?l] by (simp add: fire_def)
  ultimately have r: "mstep\<^sup>*\<^sup>* (free_lock, apply_program 0 # AppendEntries_program True # ts) (?l, [] # ?q # ts)"
    unfolding pr by (meson r_into_rtranclp rtranclp_trans)
  have inv: "lock_owner (fst s') = Some 1 \<and> 1 < length (snd s') \<and> snd s' ! 1 = ?q \<and>
      (\<forall>i < length (snd s'). RecvCommit \<notin> set (snd s' ! i))"
    if "mstep\<^sup>*\<^sup>* (?l, [] # ?q # ts) s'" for s'
    using that
  proof (induction rule: rtranclp_induct)
    case base
    have "RecvCommit \<notin> set (([] # ?q # ts) ! i)" if "i < length ([] # ?q # ts)" for i
      using assms nth_mem [OF that] by auto
    then show ?case by simp
  next
    case (step s1 s2)
    from step.hyps(2) step.IH show ?case
    proof (induction rule: mstep.induct)
      case (call i ts x p l l')
      have "i \<noteq> 1" using call by (cases "i = 1") (auto simp: fire_def)
      moreover have "lock_owner l' = Some 1" using call calculation by (auto simp: fire_def split: instr.splits if_splits)
      moreover have "RecvCommit \<notin> set p" using call by fastforce
      ultimately show ?case using call by (auto simp: nth_list_update)
    next
      case (rendezvous i ts j c p q l)
      have "\<forall>k < length ts. RecvCommit \<notin> set (ts ! k)" using rendezvous by simp
      then have "RecvCommit \<notin> set (ts ! j)" using rendezvous(2) by blast
      with rendezvous have "i \<noteq> 1" "j \<noteq> 1" by (cases "i = 1"; cases "j = 1"; force)+
      moreover have "RecvCommit \<notin> set p" "RecvCommit \<notin> set q" using rendezvous by (metis fst_conv list.set_intros(2) snd_conv)+
      ultimately show ?case using rendezvous by (auto simp: nth_list_update)
    qed
  qed
  have "\<not> finished s'" if "1 < length (snd s')" "snd s' ! 1 = ?q" for s' :: machine
    using that nth_mem [OF that(1)] by (auto simp: finished_def)
  with r inv show ?thesis by blast
qed

theorem commit_after_apply_exit_blocks_witness:
  "\<exists>s. mstep\<^sup>*\<^sup>* (free_lock, [apply_program 0, AppendEntries_program True, RequestVote_program]) s \<and>
     lock_owner (fst s) = Some 1 \<and> \<not> finished s"
proof -
  have "\<forall>p \<in> set [RequestVote_program]. RecvCommit \<notin> set p" by (simp add: RequestVote_program_def)
  from commit_after_apply_exit_blocks [OF this] show ?thesis by (meson rtranclp.rtrancl_refl)
qed

end
