(* ===== verification/Test_Utils.thy ===== *)
theory Test_Utils
  imports Raft_Cluster
begin

text \<open>
  The checks of the test harness, \<^verbatim>\<open>src/raft/testing_utils.go\<close>: counting leaders, comparing
  terms, the largest group of equal log entries, and cutting a replica off and back in.  The
  harness keeps a slice of nodes and a slice of flags; both have the length \<open>n\<close> of the test.
  The properties relate the checks to the cluster: when the terms agree in a reachable
  cluster, the count is at most one; reconnecting undoes disconnecting; and the consensus
  check panics as soon as a replica is down.
\<close>

section \<open>Leaders and terms\<close>

text \<open>The loops from \<open>i\<close> to \<open>n\<close> over \<open>active[i]\<close> and \<open>nodes[i]\<close>.\<close>

fun count_leader :: "(bool \<times> RaftNode) list \<Rightarrow> int \<Rightarrow> int" where
  "count_leader [] n_leaders = n_leaders"
| "count_leader ((act, node) # rest) n_leaders =
     count_leader rest (if act then (if state node = Leader then n_leaders + 1 else n_leaders) else n_leaders)"

fun find_leader :: "(bool \<times> RaftNode) list \<Rightarrow> int \<Rightarrow> int \<Rightarrow> int" where
  "find_leader [] i leader_id = leader_id"
| "find_leader ((act, node) # rest) i leader_id =
     find_leader rest (i + 1) (if act then (if state node = Leader then i else leader_id) else leader_id)"

fun check_terms :: "(bool \<times> RaftNode) list \<Rightarrow> int \<Rightarrow> bool" where
  "check_terms [] sys_term = True"
| "check_terms ((act, node) # rest) sys_term =
     (if act then
        (if sys_term = -1 then check_terms rest (currentTerm node)
         else if sys_term \<noteq> currentTerm node then False
         else check_terms rest sys_term)
      else check_terms rest sys_term)"

section \<open>Consensus on an entry\<close>

text \<open>The first loop collects the entries of the active replicas only.\<close>

fun collect_logs :: "(bool \<times> RaftNode) list \<Rightarrow> int \<Rightarrow> LogEntry list go" where
  "collect_logs [] index = Inr []"
| "collect_logs ((act, node) # rest) index =
     (if act = True then
        go_bind (go_index (log node) index) (\<lambda>e. go_bind (collect_logs rest index) (\<lambda>es. Inr (e # es)))
      else collect_logs rest index)"

definition same_entry :: "LogEntry \<Rightarrow> LogEntry \<Rightarrow> bool" where
  "same_entry a b \<longleftrightarrow> Term a = Term b \<and> length (Operation a) = length (Operation b) \<and> Clientid a = Clientid b \<and>
     (\<forall>k < length (Operation a). Operation a ! k = Operation b ! k)"

text \<open>The inner loop over \<open>j\<close>, from the list of the indices that are left.\<close>

fun agree_loop :: "LogEntry list \<Rightarrow> int \<Rightarrow> int list \<Rightarrow> int \<Rightarrow> int go" where
  "agree_loop logs i [] curr_count = Inr curr_count"
| "agree_loop logs i (j # js) curr_count =
     (if i = j then agree_loop logs i js curr_count
      else go_bind (go_index logs i) (\<lambda>a. go_bind (go_index logs j) (\<lambda>b.
             agree_loop logs i js (if same_entry a b then curr_count + 1 else curr_count))))"

fun consensus_loop :: "LogEntry list \<Rightarrow> int \<Rightarrow> int list \<Rightarrow> int \<Rightarrow> int go" where
  "consensus_loop logs n [] count = Inr count"
| "consensus_loop logs n (i # is) count =
     go_bind (agree_loop logs i [0..n - 1] 1) (\<lambda>curr_count.
       consensus_loop logs n is (if curr_count > count then curr_count else count))"

definition check_consensus :: "(bool \<times> RaftNode) list \<Rightarrow> int \<Rightarrow> int go" where
  "check_consensus ts index =
     go_bind (collect_logs ts index) (\<lambda>logs.
       consensus_loop logs (int (length ts)) [0..int (length ts) - 1] 0)"

section \<open>Cutting off and reconnecting\<close>

text \<open>The stubs and their backups: \<open>stubs a b\<close> is the stub of replica \<open>a\<close> for replica \<open>b\<close>.\<close>

type_synonym stubs = "nat \<Rightarrow> nat \<Rightarrow> nat option"

definition set2 :: "nat \<Rightarrow> nat \<Rightarrow> nat option \<Rightarrow> stubs \<Rightarrow> stubs" where
  "set2 a b v s = s(a := (s a)(b := v))"

text \<open>Saving and dropping one stub, and taking it back from the backup.\<close>

definition drop_stub :: "nat \<Rightarrow> nat \<Rightarrow> stubs \<times> stubs \<Rightarrow> stubs \<times> stubs" where
  "drop_stub a b st =
     (case st of (s, bk) \<Rightarrow> if s a b \<noteq> None then (set2 a b None s, set2 a b (s a b) bk) else (s, bk))"

definition take_stub :: "nat \<Rightarrow> nat \<Rightarrow> stubs \<times> stubs \<Rightarrow> stubs \<times> stubs" where
  "take_stub a b st =
     (case st of (s, bk) \<Rightarrow> if s a b = None then (set2 a b (bk a b) s, bk) else (s, bk))"

fun disconnect_loop :: "nat \<Rightarrow> nat list \<Rightarrow> stubs \<times> stubs \<Rightarrow> stubs \<times> stubs" where
  "disconnect_loop index [] st = st"
| "disconnect_loop index (i # is) st =
     (if i = index then disconnect_loop index is st
      else disconnect_loop index is (drop_stub i index (drop_stub index i st)))"

definition disconnect :: "nat \<Rightarrow> nat \<Rightarrow> stubs \<times> stubs \<Rightarrow> stubs \<times> stubs" where
  "disconnect n index st = disconnect_loop index [0..<n] st"

fun connect_loop :: "nat \<Rightarrow> nat list \<Rightarrow> stubs \<times> stubs \<Rightarrow> stubs \<times> stubs" where
  "connect_loop index [] st = st"
| "connect_loop index (i # is) st =
     (if i = index then connect_loop index is st
      else connect_loop index is (take_stub i index (take_stub index i st)))"

definition connect :: "nat \<Rightarrow> nat \<Rightarrow> stubs \<times> stubs \<Rightarrow> stubs \<times> stubs" where
  "connect n index st = connect_loop index [0..<n] st"

section \<open>Lemmas\<close>

lemma count_leader_eq:
  "count_leader ts n = n + int (length (filter (\<lambda>(a, node). a \<and> state node = Leader) ts))"
  by (induction ts n rule: count_leader.induct) auto

lemma check_terms_fixed:
  "check_terms ts t \<Longrightarrow> t \<noteq> -1 \<Longrightarrow> (a, node) \<in> set ts \<Longrightarrow> a \<Longrightarrow> currentTerm node = t"
  by (induction ts t rule: check_terms.induct) (auto split: if_splits)

lemma check_terms_same:
  assumes "check_terms ts (-1)" and "\<forall>(a, node) \<in> set ts. currentTerm node \<noteq> -1"
    and "(True, x) \<in> set ts" and "(True, y) \<in> set ts"
  shows "currentTerm x = currentTerm y"
  using assms
proof (induction ts)
  case (Cons p ts)
  obtain a node where p: "p = (a, node)" by (cases p)
  show ?case
  proof (cases a)
    case True
    with Cons.prems p have "check_terms ts (currentTerm node)" "currentTerm node \<noteq> -1" by auto
    from check_terms_fixed [OF this] have "currentTerm z = currentTerm node" if "(True, z) \<in> set (p # ts)" for z
      using that p True by auto
    with Cons.prems(3,4) show ?thesis by simp
  next
    case False
    with Cons p show ?thesis by auto
  qed
qed simp

lemma filter_at_most_one:
  assumes "distinct xs" and "\<And>x y. x \<in> set xs \<Longrightarrow> y \<in> set xs \<Longrightarrow> P x \<Longrightarrow> P y \<Longrightarrow> x = y"
  shows "length (filter P xs) \<le> 1"
proof (rule ccontr)
  assume "\<not> length (filter P xs) \<le> 1"
  then have "1 < length (filter P xs)" by simp
  then have l: "0 < length (filter P xs)" "1 < length (filter P xs)" by linarith+
  from nth_mem [OF l(1)] nth_mem [OF l(2)]
  have "filter P xs ! 0 \<in> set (filter P xs)" "filter P xs ! 1 \<in> set (filter P xs)" by blast+
  then have "filter P xs ! 0 = filter P xs ! 1" using assms(2) by auto
  moreover have "distinct (filter P xs)" using assms(1) by simp
  ultimately show False using l nth_eq_iff_index_eq by fastforce
qed

text \<open>The harness on a cluster.\<close>

definition harness :: "(nat \<Rightarrow> bool) \<Rightarrow> cluster \<Rightarrow> (bool \<times> RaftNode) list" where
  "harness act c = map (\<lambda>i. (act i, nodes c i)) [0..<size c]"

lemma vsteps_term_nonneg: "(vstep quorum N)\<^sup>*\<^sup>* a b \<Longrightarrow> 0 \<le> aT a x \<Longrightarrow> 0 \<le> aT b x"
  using vsteps_mono by (meson order_trans)

lemma reachable_terms: "reachable N c \<Longrightarrow> N < 2147483648 \<Longrightarrow> i < N \<Longrightarrow> 0 \<le> currentTerm (nodes c i)"
proof (induction rule: reachable.induct)
  case start
  then show ?case using booted_ok [of N i] by (simp add: cluster_init_def)
next
  case (move c ev c')
  have "simulates N c c'" using simulates_step [OF reachable_inv] move by blast
  then have "(vstep (majority N) N)\<^sup>*\<^sup>* (abs_cluster c) (abs_cluster c')" by (simp add: simulates_def)
  from vsteps_term_nonneg [OF this, of i] move show ?case by simp
qed

text \<open>The pairs of replicas whose stubs the loops have visited.\<close>

definition between :: "nat \<Rightarrow> nat set \<Rightarrow> nat \<Rightarrow> nat \<Rightarrow> bool" where
  "between index I a b \<longleftrightarrow> a \<noteq> b \<and> (a = index \<and> b \<in> I \<or> b = index \<and> a \<in> I)"

lemma between_self [simp]: "between index (insert index I) a b = between index I a b"
  by (auto simp: between_def)

definition dropped :: "nat \<Rightarrow> nat set \<Rightarrow> stubs \<times> stubs \<Rightarrow> stubs \<times> stubs" where
  "dropped index I st =
     ((\<lambda>a b. if between index I a b then None else fst st a b),
      (\<lambda>a b. if between index I a b \<and> fst st a b \<noteq> None then fst st a b else snd st a b))"

definition taken :: "nat \<Rightarrow> nat set \<Rightarrow> stubs \<times> stubs \<Rightarrow> stubs \<times> stubs" where
  "taken index I st =
     ((\<lambda>a b. if between index I a b \<and> fst st a b = None then snd st a b else fst st a b), snd st)"

lemma drop_pair: "i \<noteq> index \<Longrightarrow> drop_stub i index (drop_stub index i st) = dropped index {i} st"
  by (cases st) (auto simp: drop_stub_def set2_def dropped_def between_def fun_eq_iff)

lemma take_pair: "i \<noteq> index \<Longrightarrow> take_stub i index (take_stub index i st) = taken index {i} st"
  by (cases st) (auto simp: take_stub_def set2_def taken_def between_def fun_eq_iff)

lemma dropped_twice:
  "i \<noteq> index \<Longrightarrow> dropped index I (dropped index {i} st) = dropped index (insert i I) st"
  by (intro prod_eqI ext) (auto simp: dropped_def between_def)

lemma taken_twice:
  "taken index I (taken index {i} st) = taken index (insert i I) st"
proof (intro prod_eqI ext)
  fix a b
  have "between index (insert i I) a b \<longleftrightarrow> between index {i} a b \<or> between index I a b"
    by (auto simp: between_def)
  then show "fst (taken index I (taken index {i} st)) a b = fst (taken index (insert i I) st) a b"
    by (cases "fst st a b") (simp_all add: taken_def)
qed (simp add: taken_def)

lemma dropped_self [simp]: "dropped index (insert index I) st = dropped index I st"
  by (simp add: dropped_def)

lemma taken_self [simp]: "taken index (insert index I) st = taken index I st"
  by (simp add: taken_def)

lemma disconnect_loop_eq: "disconnect_loop index is st = dropped index (set is) st"
proof (induction "is" arbitrary: st)
  case (Cons i "is")
  then show ?case by (simp add: drop_pair dropped_twice)
qed (simp add: dropped_def between_def)

lemma connect_loop_eq: "connect_loop index is st = taken index (set is) st"
proof (induction "is" arbitrary: st)
  case (Cons i "is")
  then show ?case by (simp add: take_pair taken_twice)
qed (simp add: taken_def between_def)

lemma collect_logs_length: "collect_logs ts index = Inr logs \<Longrightarrow> length logs = length (filter fst ts)"
  by (induction ts index arbitrary: logs rule: collect_logs.induct) (auto simp: go_bind_eq_Inr split: if_splits)

lemma agree_loop_panics:
  "j \<in> set js \<Longrightarrow> j \<noteq> i \<Longrightarrow> int (length logs) \<le> j \<Longrightarrow> agree_loop logs i js c = Inl IndexOutOfRange"
proof (induction js arbitrary: c)
  case (Cons k js)
  show ?case
  proof (cases "go_index logs i")
    case (Inl e)
    then have "e = IndexOutOfRange" by (simp add: go_index_eq_Inl)
    with Inl Cons show ?thesis by auto
  next
    case (Inr a)
    show ?thesis
    proof (cases "go_index logs k")
      case (Inl e)
      then have "e = IndexOutOfRange" by (simp add: go_index_eq_Inl)
      with Inl Inr Cons show ?thesis by auto
    next
      case b: (Inr b)
      with Cons.prems have "k \<noteq> j" by (auto simp: go_index_eq_Inr)
      with Inr b Cons show ?thesis by auto
    qed
  qed
qed simp

section \<open>Properties\<close>

text \<open>
  The harness' two checks fit the cluster: in a reachable cluster whose active replicas
  have the same term, \<open>count_leader\<close> is at most one.
\<close>

theorem same_terms_one_leader:
  assumes "reachable N c" and "N < 2147483648" and "check_terms (harness act c) (-1)"
  shows "count_leader (harness act c) 0 \<le> 1"
proof -
  have inv: "cluster_inv N c" by (rule reachable_inv [OF assms(1,2)])
  then have sz: "size c = N" and vi: "vinv (majority N) N (abs_cluster c)" by (simp_all add: cluster_inv_def)
  let ?P = "\<lambda>i. act i \<and> state (nodes c i) = Leader"
  have terms: "\<forall>(a, node) \<in> set (harness act c). currentTerm node \<noteq> -1"
    using reachable_terms [OF assms(1,2)] sz by (fastforce simp: harness_def)
  have "length (filter ?P [0..<N]) \<le> 1"
  proof (rule filter_at_most_one)
    fix x y
    assume xy: "x \<in> set [0..<N]" "y \<in> set [0..<N]" "?P x" "?P y"
    then have m: "(True, nodes c x) \<in> set (harness act c)" "(True, nodes c y) \<in> set (harness act c)"
      by (force simp: harness_def sz)+
    from check_terms_same [OF assms(3) terms m] maj.one_leader [OF vi, of x y] xy show "x = y" by simp
  qed simp
  then show ?thesis by (simp add: count_leader_eq harness_def sz filter_map o_def)
qed

theorem same_terms_one_leader_witness:
  "\<exists>c. run good_run (cluster_init 3) = Some c \<and> count_leader (harness (\<lambda>i. i \<noteq> 1) c) 0 = 1"
proof -
  obtain c where c: "run good_run (cluster_init 3) = Some c" "reachable 3 c" "state (nodes c 2) = Leader"
    "currentTerm (nodes c 0) = 1" "currentTerm (nodes c 2) = 1"
    using good_run_reachable by blast
  have sz: "size c = 3" using reachable_inv [OF c(2)] by (simp add: cluster_inv_def)
  have h: "harness (\<lambda>i. i \<noteq> 1) c = [(True, nodes c 0), (False, nodes c 1), (True, nodes c 2)]"
    by (simp add: harness_def sz upt_rec numeral_2_eq_2)
  have "check_terms (harness (\<lambda>i. i \<noteq> 1) c) (-1)" unfolding h using c by simp
  from same_terms_one_leader [OF c(2) _ this] have "count_leader (harness (\<lambda>i. i \<noteq> 1) c) 0 \<le> 1" by simp
  moreover have "1 \<le> count_leader (harness (\<lambda>i. i \<noteq> 1) c) 0" unfolding h using c(3) by simp
  ultimately show ?thesis using c(1) by auto
qed

text \<open>
  Reconnecting undoes disconnecting: after \<open>disconnect\<close> no stub leads to or from the
  replica, and \<open>connect\<close> restores all stubs, provided they were all there before.
\<close>

theorem connect_undoes_disconnect:
  assumes "index < n" and "\<forall>a < n. \<forall>b < n. a \<noteq> b \<longrightarrow> fst st a b \<noteq> None" and "a < n" and "b < n" and "a \<noteq> b"
  shows "fst (disconnect n index st) a b = (if a = index \<or> b = index then None else fst st a b) \<and>
     fst (connect n index (disconnect n index st)) a b = fst st a b"
  using assms
  by (auto simp: connect_def disconnect_def disconnect_loop_eq connect_loop_eq dropped_def taken_def between_def)

theorem connect_undoes_disconnect_witness:
  "fst (disconnect 3 1 (\<lambda>a b. Some b, \<lambda>a b. None)) 0 1 = None \<and>
   fst (connect 3 1 (disconnect 3 1 (\<lambda>a b. Some b, \<lambda>a b. None))) 0 1 = Some 1"
  using connect_undoes_disconnect [of 1 3 "(\<lambda>a b. Some b, \<lambda>a b. None)" 0 1] by simp

text \<open>
  The consensus check of the harness only works while all replicas are up: it collects
  the entries of the active replicas but indexes the collection up to the number of replicas,
  so with one replica down it panics whatever the logs hold.
\<close>

theorem check_consensus_panics:
  assumes "collect_logs ts index = Inr logs" and "(False, node) \<in> set ts" and "2 \<le> length ts"
  shows "check_consensus ts index = Inl IndexOutOfRange"
proof -
  let ?n = "int (length ts)"
  have "length (filter fst ts) < length ts" using assms(2) by (intro length_filter_less) auto
  then have "int (length logs) \<le> ?n - 1" using collect_logs_length [OF assms(1)] by simp
  moreover have "?n - 1 \<in> set [0..?n - 1]" "?n - 1 \<noteq> 0" using assms(3) by auto
  ultimately have a: "agree_loop logs 0 [0..?n - 1] 1 = Inl IndexOutOfRange" by (intro agree_loop_panics)
  have "[0..?n - 1] = 0 # [1..?n - 1]" using assms(3) by (subst upto_rec1) auto
  then have "consensus_loop logs ?n [0..?n - 1] 0
      = go_bind (agree_loop logs 0 [0..?n - 1] 1) (\<lambda>k. consensus_loop logs ?n [1..?n - 1] (if k > 0 then k else 0))"
    by simp
  with a assms(1) show ?thesis by (simp add: check_consensus_def)
qed

theorem check_consensus_panics_witness:
  "check_consensus [(True, demo_replica 0), (False, demo_replica 1), (True, demo_replica 2)] 1 = Inl IndexOutOfRange"
  by (rule check_consensus_panics [of _ _ "[demo_log ! 1, demo_log ! 1]" "demo_replica 1"]) simp_all

end
