(* ===== verification/Raft_Start.thy ===== *)
theory Raft_Start
  imports Raft_Server
begin

text \<open>
  The start of the process: the flags and the id of \<^verbatim>\<open>src/main.go\<close>, \<open>Setup_raft_node\<close> and
  \<open>Connect_raft_node\<close> of \<^verbatim>\<open>src/raft/initial_setup.go\<close> with the loops that poll a server until it
  answers, and the fatal errors of \<^verbatim>\<open>src/raft/utils.go\<close> with their text.  What a server answers
  is a parameter, a predicate on the number of attempts, and so is the attempt before which a
  serving goroutine has ended the process with a fatal error.  The property: the outcome of a
  start in every case, the wait for the signal, a loop that never ends, or a fatal error.
\<close>

section \<open>Fatal errors\<close>

text \<open>The escape sequences of the log output; \<open>init\<close> empties them on Windows.\<close>

record palette =
  Reset :: string
  Red :: string
  Green :: string
  Yellow :: string
  Blue :: string
  Purple :: string
  Cyan :: string
  Gray :: string
  White :: string

definition escape :: "string \<Rightarrow> string" where
  "escape code = CHR 0x1B # ''['' @ code @ ''m''"

definition colours :: palette where
  "colours =
     \<lparr>Reset = escape ''0'', Red = escape ''31'', Green = escape ''32'', Yellow = escape ''33'', Blue = escape ''34'',
      Purple = escape ''35'', Cyan = escape ''36'', Gray = escape ''37'', White = escape ''97''\<rparr>"

definition init_colours :: "string \<Rightarrow> palette" where
  "init_colours goos =
     (if goos = ''windows'' then
        colours\<lparr>Reset := [], Red := [], Green := [], Yellow := [], Blue := [], Purple := [], Cyan := [], Gray := [],
                White := []\<rparr>
      else colours)"

text \<open>\<open>log.Fatalf\<close> ends the process; its text, which is the format of the call.\<close>

definition CheckErrorFatal :: "'e option \<Rightarrow> unit go" where
  "CheckErrorFatal err = (if err \<noteq> None then Inl ProcessExit else Inr ())"

definition fatal_text :: "palette \<Rightarrow> string \<Rightarrow> string option" where
  "fatal_text p err = map_option (\<lambda>s. s @ nl) (Fprintf0 (Red p @ ''[Fatal Error]'' @ Reset p @ '': '' @ err))"

section \<open>Polling\<close>

text \<open>
  A server that is polled: the attempts at which it answers, and the attempt before which the
  process has died of a serving goroutine, if any.
\<close>

record server =
  up :: "nat \<Rightarrow> bool"
  dies :: "nat option"

text \<open>
  A loop that repeats a request until it succeeds: \<open>None\<close> is a loop that never returns,
  \<open>Some (Inr k)\<close> a loop that has returned at attempt \<open>k\<close>.
\<close>

partial_function (option) poll :: "server \<Rightarrow> nat \<Rightarrow> nat go option" where
  "poll sv k =
     (if dies sv = Some k then Some (Inl ProcessExit)
      else if up sv k then Some (Inr k)
      else poll sv (Suc k))"

text \<open>What follows a loop.\<close>

definition wait :: "server \<Rightarrow> 'a go option \<Rightarrow> 'a go option" where
  "wait sv x =
     (case poll sv 0 of
        None \<Rightarrow> None
      | Some (Inl e) \<Rightarrow> Some (Inl e)
      | Some (Inr k) \<Rightarrow> x)"

section \<open>The start\<close>

text \<open>
  The environment of a start: the servers as they answer the key-value test, the dial, the
  question for a ready connection and the test of the server for clients, and the errors of the
  address and of the listener of the gRPC server.
\<close>

record answers =
  kv_server :: server
  grpc_dial :: server
  grpc_ready :: server
  raft_http :: server
  tcp_error :: "string option"
  listen_error :: "string option"

definition Connect_listen :: "answers \<Rightarrow> unit go" where
  "Connect_listen a = go_bind (CheckErrorFatal (tcp_error a)) (\<lambda>_. CheckErrorFatal (listen_error a))"

text \<open>
  The waits of \<open>Connect_raft_node\<close>: the dial, repeated while it returns an error, the
  connection until it is ready, and the server for clients until it answers.
\<close>

definition Connect_waits :: "answers \<Rightarrow> 'a go option \<Rightarrow> 'a go option" where
  "Connect_waits a x = wait (grpc_dial a) (wait (grpc_ready a) (wait (raft_http a) x))"

text \<open>
  \<open>Setup_raft_node\<close> and \<open>Connect_raft_node\<close> with their waits, as \<open>main\<close> calls them.  The
  result: \<open>None\<close> when a loop never ends, \<open>Some (Inl e)\<close> when the process dies, else the node,
  its store and the addresses of the other replicas when \<open>ListenForShutdown\<close> is called.
\<close>

definition main_start ::
    "bool \<Rightarrow> string list \<Rightarrow> int \<Rightarrow> int \<Rightarrow> raft_file \<Rightarrow> filesystem \<Rightarrow> answers \<Rightarrow> (RaftNode \<times> store \<times> string list) go option" where
  "main_start io order n_replica rid f fs a =
     (case Setup_raft_node io order rid n_replica f fs of
        Inl e \<Rightarrow> Some (Inl e)
      | Inr (node, kv) \<Rightarrow>
          wait (kv_server a)
            (case rep_addrs n_replica rid of
               Inl e \<Rightarrow> Some (Inl e)
             | Inr addrs \<Rightarrow>
                 let node1 = Connect_raft_node rid node
                 in (case Connect_listen a of
                       Inl e \<Rightarrow> Some (Inl e)
                     | Inr _ \<Rightarrow> Connect_waits a (Some (Inr (node1, kv, addrs))))))"

text \<open>
  The flag \<open>-n\<close> with its default, and the id that is read from the input: \<open>Scanf\<close> leaves the
  variable at zero when there is no number, and its error is not looked at.
\<close>

definition flag_n :: "int option \<Rightarrow> int" where
  "flag_n given = (case given of None \<Rightarrow> 5 | Some n \<Rightarrow> n)"

definition scan_rid :: "int option \<Rightarrow> int" where
  "scan_rid input = (case input of None \<Rightarrow> 0 | Some rid \<Rightarrow> rid)"

definition main_program ::
    "bool \<Rightarrow> string list \<Rightarrow> int option \<Rightarrow> int option \<Rightarrow> (int \<Rightarrow> raft_file) \<Rightarrow> filesystem \<Rightarrow> answers \<Rightarrow>
     (RaftNode \<times> store \<times> string list) go option" where
  "main_program io order given input files fs a =
     (let n_replica = flag_n given; rid = scan_rid input
      in main_start io order n_replica rid (files rid) fs a)"

section \<open>Lemmas\<close>

text \<open>A loop that ends, one that goes on forever; otherwise the process dies in it.\<close>

definition served :: "server \<Rightarrow> bool" where
  "served sv \<longleftrightarrow> (\<exists>k. up sv k \<and> (\<forall>d. dies sv = Some d \<longrightarrow> k < d))"

definition silent :: "server \<Rightarrow> bool" where
  "silent sv \<longleftrightarrow> dies sv = None \<and> (\<forall>k. \<not> up sv k)"

lemma poll_skip: "k \<le> j \<Longrightarrow> \<forall>i. k \<le> i \<and> i < j \<longrightarrow> \<not> up sv i \<and> dies sv \<noteq> Some i \<Longrightarrow> poll sv k = poll sv j"
proof (induction "j - k" arbitrary: k)
  case (Suc d)
  then have "poll sv (Suc k) = poll sv j" by simp
  with Suc show ?case by (simp add: poll.simps [of sv k])
qed simp

lemma poll_served:
  assumes "served sv"
  shows "\<exists>k. poll sv 0 = Some (Inr k)"
proof -
  define k where "k = (LEAST k. up sv k)"
  from assms obtain j where j: "up sv j" "\<forall>d. dies sv = Some d \<longrightarrow> j < d" by (auto simp: served_def)
  have k: "up sv k" "k \<le> j" "\<forall>i<k. \<not> up sv i"
    using j(1) by (auto simp: k_def intro: LeastI Least_le dest: not_less_Least)
  with j(2) have d: "\<forall>i\<le>k. dies sv \<noteq> Some i" by force
  with k have "poll sv 0 = poll sv k" by (intro poll_skip) auto
  with k(1) d show ?thesis by (auto simp: poll.simps [of sv k])
qed

lemma poll_dies:
  assumes "\<not> served sv" and "dies sv = Some d"
  shows "poll sv 0 = Some (Inl ProcessExit)"
proof -
  have "poll sv 0 = poll sv d" using assms by (intro poll_skip) (auto simp: served_def)
  with assms(2) show ?thesis by (simp add: poll.simps [of sv d])
qed

lemma poll_result: "poll sv k = Some r \<Longrightarrow> \<not> silent sv"
proof (rule poll.raw_induct [of "\<lambda>sv k r. \<not> silent sv"])
  fix g :: "server \<Rightarrow> nat \<Rightarrow> nat go option" and sv k r
  assume "\<And>sv k r. g sv k = Some r \<Longrightarrow> \<not> silent sv"
    and "(if dies sv = Some k then Some (Inl ProcessExit) else if up sv k then Some (Inr k) else g sv (Suc k)) = Some r"
  then show "\<not> silent sv" by (auto simp: silent_def split: if_splits)
qed

lemma silent_not_served: "silent sv \<Longrightarrow> \<not> served sv"
  by (simp add: silent_def served_def)

lemma not_served_dies: "\<not> served sv \<Longrightarrow> \<not> silent sv \<Longrightarrow> \<exists>d. dies sv = Some d"
  by (auto simp: served_def silent_def)

lemma wait_eq: "wait sv x = (if served sv then x else if silent sv then None else Some (Inl ProcessExit))"
proof -
  consider "served sv" | "silent sv" | d where "\<not> served sv" "\<not> silent sv" "dies sv = Some d"
    using not_served_dies by blast
  then show ?thesis
  proof cases
    case 1
    with poll_served show ?thesis by (force simp: wait_def)
  next
    case 2
    then have "poll sv 0 = None" using poll_result [of sv 0] by (cases "poll sv 0") auto
    with 2 show ?thesis by (simp add: wait_def silent_not_served)
  next
    case 3
    then show ?thesis by (simp add: wait_def poll_dies)
  qed
qed

lemma Connect_listen_eq:
  "Connect_listen a = (if tcp_error a = None \<and> listen_error a = None then Inr () else Inl ProcessExit)"
  by (auto simp: Connect_listen_def CheckErrorFatal_def)

lemma Setup_boot:
  assumes "N < 2147483648" and "i < N" and "InitializeStore io order (kv_filename (int i)) fs = Some kv"
  shows "Setup_raft_node io order (int i) (int N) f fs =
     go_bind (InitializeNode (i32 (int N)) (int i) (kv_addr (int i)) f) (\<lambda>node. Inr (node, kv))"
  using assms(3) by (simp add: Setup_raft_node_def)

lemma rep_addrs_eq:
  "rep_addrs (int N) (int i) = Inr (map (\<lambda>j. if j = i then [] else grpc_address (int j)) [0..<N])"
proof -
  have "map (\<lambda>j. if int j = int i then replicate N [] ! j else '':500'' @ itoa (int j)) [0..<N] =
      map (\<lambda>j. if j = i then [] else grpc_address (int j)) [0..<N]"
    by (intro map_cong) (auto simp: grpc_address_def)
  then show ?thesis by (simp add: rep_addrs_def go_make_def)
qed

lemma fatal_text_windows:
  assumes "CHR ''%'' \<notin> set err"
  shows "fatal_text (init_colours ''windows'') err = Some (''[Fatal Error]: '' @ err @ nl)"
  using assms by (simp add: fatal_text_def init_colours_def Fprintf0_plain)

text \<open>An error with a percent sign, such as the escape in a URL, is garbled by the format.\<close>

lemma fatal_text_percent:
  "fatal_text (init_colours ''windows'') ''bad url a%20b'' = Some (''[Fatal Error]: bad url a%!b(MISSING)'' @ nl)"
  by code_simp

section \<open>Properties\<close>

text \<open>The Raft files that a start gets past: absent, emptied by a crash inside a write, or holding the
  five keys at their types.  On any other the process dies.\<close>

definition restorable :: "raft_file \<Rightarrow> bool" where
  "restorable f \<longleftrightarrow> f = EmptyFile \<or> file_ok f"

lemma InitializeNode_damaged:
  assumes "\<not> restorable f" and "0 \<le> nr" and "addr \<noteq> []"
  shows "InitializeNode nr rid addr f = Inl ProcessExit"
proof -
  have len: "1 \<le> int (length addr)" using assms(3) by (cases addr) simp_all
  obtain m where m: "f = GobFile m" using assms(1) by (cases f) (simp_all add: restorable_def file_ok_def)
  have bad: "\<not> (has_int32 m ''currentTerm'' \<and> has_int32 m ''votedFor'' \<and> has_log m ''log'' \<and>
      has_int32 m ''commitIndex'' \<and> has_int32 m ''lastApplied'')"
    using assms(1) by (simp add: m restorable_def file_ok_def)
  then show ?thesis using len assms(2)
    by (auto simp: m InitializeNode_def initial_node_def go_make_def go_slice_def storage_HasData_def Let_def
        RestoreFromStorage_def restore_int32_def restore_log_def storage_Get_def ReadFile_def NewStorage_def
        has_int32_def has_log_def split: option.splits svalue.splits)
qed

lemma boot_restorable:
  assumes "N < 2147483648" and "i < N" and "restorable f"
  shows "\<exists>n. boot N i f = Inr n \<and> node_state n = disk_state f \<and> state n = Follower"
proof (cases "f = EmptyFile")
  case True
  have r: "i32 (int N) = int N" using assms(1) by (intro i32_id) simp_all
  have "kv_addr (int i) \<noteq> []" by (simp add: kv_addr_def)
  then have "1 \<le> int (length (kv_addr (int i)))" by (cases "kv_addr (int i)") simp_all
  then show ?thesis
    by (simp add: True boot_def r InitializeNode_def initial_node_def go_make_def go_slice_def storage_HasData_def Let_def
        Connect_raft_node_def ConnectToPeerReplicas_def node_state_def disk_state_def disk_int32_def disk_log_def)
next
  case False
  with assms(3) have "file_ok f" by (simp add: restorable_def)
  from boot_node [OF this assms(1,2)] show ?thesis by blast
qed

text \<open>
  C35: the start of a replica, for every Raft file, store file and answer of the sockets, and an id
  below the number of replicas.  When the Raft file holds something but lacks a key or has one at
  another type, or the store cannot be recovered, the process ends with a fatal error before it
  opens a server.  Otherwise it reaches the wait for the signal, with the node that its file
  describes, the recovered store and the addresses of all other replicas, exactly when the address
  and the listener of the gRPC server are free of errors and each of the four loops meets an answer
  before a serving goroutine has died; it never returns exactly when the first loop that is not
  answered so is one whose server neither answers nor dies; in all other cases the process
  ends with a fatal error.
\<close>

theorem main_reaches_listener:
  assumes "N < 2147483648" and "i < N"
  shows "if \<not> restorable f \<or> InitializeStore io order (kv_filename (int i)) fs = None
     then main_start io order (int N) (int i) f fs a = Some (Inl ProcessExit)
     else \<exists>n kv. boot N i f = Inr n \<and> node_state n = disk_state f \<and> state n = Follower \<and>
       InitializeStore io order (kv_filename (int i)) fs = Some kv \<and>
       main_start io order (int N) (int i) f fs a \<in>
         {None, Some (Inl ProcessExit), Some (Inr (n, kv, map (\<lambda>j. if j = i then [] else grpc_address (int j)) [0..<N]))} \<and>
       (main_start io order (int N) (int i) f fs a =
          Some (Inr (n, kv, map (\<lambda>j. if j = i then [] else grpc_address (int j)) [0..<N])) \<longleftrightarrow>
          served (kv_server a) \<and> tcp_error a = None \<and> listen_error a = None \<and>
          served (grpc_dial a) \<and> served (grpc_ready a) \<and> served (raft_http a)) \<and>
       (main_start io order (int N) (int i) f fs a = None \<longleftrightarrow>
          silent (kv_server a) \<or>
          served (kv_server a) \<and> tcp_error a = None \<and> listen_error a = None \<and>
            (silent (grpc_dial a) \<or> served (grpc_dial a) \<and>
               (silent (grpc_ready a) \<or> served (grpc_ready a) \<and> silent (raft_http a))))"
proof (cases "\<not> restorable f \<or> InitializeStore io order (kv_filename (int i)) fs = None")
  case True
  have r: "i32 (int N) = int N" using assms(1) by (intro i32_id) simp_all
  have ne: "kv_addr (int i) \<noteq> []" by (simp add: kv_addr_def)
  have "Setup_raft_node io order (int i) (int N) f fs = Inl ProcessExit"
  proof (cases "restorable f")
    case True
    then obtain n0 where "InitializeNode (i32 (int N)) (int i) (kv_addr (int i)) f = Inr n0"
      using boot_restorable [OF assms(1,2) True] by (auto simp: boot_def go_bind_eq_Inr)
    with True \<open>\<not> restorable f \<or> InitializeStore io order (kv_filename (int i)) fs = None\<close> show ?thesis
      by (simp add: Setup_raft_node_def)
  next
    case False
    from InitializeNode_damaged [OF False _ ne, of "int N" "int i"] show ?thesis by (simp add: Setup_raft_node_def r)
  qed
  with True show ?thesis by (simp add: main_start_def)
next
  case False
  then obtain kv where kv: "InitializeStore io order (kv_filename (int i)) fs = Some kv" by auto
  from False boot_restorable [OF assms(1,2), of f] obtain n where
    n: "boot N i f = Inr n" "node_state n = disk_state f" "state n = Follower" by blast
  then obtain n0 where n0: "InitializeNode (i32 (int N)) (int i) (kv_addr (int i)) f = Inr n0"
      "n = Connect_raft_node (int i) n0"
    by (auto simp: boot_def go_bind_eq_Inr)
  have s: "Setup_raft_node io order (int i) (int N) f fs = Inr (n0, kv)"
    using Setup_boot [OF assms(1,2) kv] n0(1) by simp
  let ?r = "Some (Inr (n, kv, map (\<lambda>j. if j = i then [] else grpc_address (int j)) [0..<N]))"
  have m: "main_start io order (int N) (int i) f fs a =
     wait (kv_server a) (if tcp_error a = None \<and> listen_error a = None
       then wait (grpc_dial a) (wait (grpc_ready a) (wait (raft_http a) ?r)) else Some (Inl ProcessExit))"
    by (simp add: main_start_def s rep_addrs_eq n0(2) Let_def Connect_listen_eq Connect_waits_def)
  have 1: "main_start io order (int N) (int i) f fs a \<in> {None, Some (Inl ProcessExit), ?r}"
    by (simp add: m wait_eq)
  have 2: "main_start io order (int N) (int i) f fs a = ?r \<longleftrightarrow>
      served (kv_server a) \<and> tcp_error a = None \<and> listen_error a = None \<and>
      served (grpc_dial a) \<and> served (grpc_ready a) \<and> served (raft_http a)"
    by (simp add: m wait_eq)
  have 3: "main_start io order (int N) (int i) f fs a = None \<longleftrightarrow>
        silent (kv_server a) \<or>
        served (kv_server a) \<and> tcp_error a = None \<and> listen_error a = None \<and>
          (silent (grpc_dial a) \<or> served (grpc_dial a) \<and>
             (silent (grpc_ready a) \<or> served (grpc_ready a) \<and> silent (raft_http a)))"
    using silent_not_served by (auto simp: m wait_eq)
  show ?thesis unfolding if_not_P [OF False]
    using n kv 1 2 3 by (intro exI [of _ n] exI [of _ kv] conjI)
qed

text \<open>Servers that answer the third attempt.\<close>

definition demo_answers :: answers where
  "demo_answers =
     \<lparr>kv_server = \<lparr>up = (\<lambda>k. 2 \<le> k), dies = None\<rparr>, grpc_dial = \<lparr>up = (\<lambda>k. True), dies = None\<rparr>,
      grpc_ready = \<lparr>up = (\<lambda>k. 1 \<le> k), dies = None\<rparr>, raft_http = \<lparr>up = (\<lambda>k. 2 \<le> k), dies = Some 5\<rparr>,
      tcp_error = None, listen_error = None\<rparr>"

theorem main_reaches_listener_witness:
  "\<exists>n kv. main_start True [] 3 1 NoFile (\<lambda>_. None) demo_answers = Some (Inr (n, kv, ['':5000'', [], '':5002''])) \<and>
     currentTerm n = 0 \<and> log n = []"
proof -
  let ?kv = "\<lparr>db = replicate 101 None, filename = kv_filename 1, db_temp = (\<lambda>_. None), mem = empty_heap\<rparr>"
  have kv: "InitializeStore True [] (kv_filename (int 1)) (\<lambda>_. None) = Some ?kv"
    by (simp add: InitializeStore_def HasData_def Let_def)
  have up: "served (kv_server demo_answers)" "served (grpc_dial demo_answers)" "served (grpc_ready demo_answers)"
    "served (raft_http demo_answers)" "tcp_error demo_answers = None" "listen_error demo_answers = None"
    by (simp_all add: demo_answers_def served_def) (intro exI [of _ 2], simp)+
  have ad: "map (\<lambda>j. if j = 1 then [] else grpc_address (int j)) [0..<3] = ['':5000'', [], '':5002'']"
    by code_simp
  have side: "(3::nat) < 2147483648" "(1::nat) < 3" by simp_all
  have ok: "restorable NoFile" by (simp add: restorable_def file_ok_def)
  have go: "\<not> (\<not> restorable NoFile \<or> InitializeStore True [] (kv_filename (int 1)) (\<lambda>_. None) = None)"
    using kv ok by simp
  from main_reaches_listener [OF side, of NoFile True "[]" "\<lambda>_. None" demo_answers, unfolded ad if_not_P [OF go]]
  obtain n kv where
    n: "main_start True [] (int 3) (int 1) NoFile (\<lambda>_. None) demo_answers = Some (Inr (n, kv, ['':5000'', [], '':5002'']))"
    "node_state n = disk_state NoFile"
    using up by (elim exE conjE) blast
  then show ?thesis by (auto simp: node_state_def disk_state_def disk_int32_def disk_log_def)
qed

end
