(* ===== verification/Raft_Lifecycle.thy ===== *)
theory Raft_Lifecycle
  imports Raft_Start
begin

text \<open>
  The life of the process around the protocol, after its start in \<open>Raft_Start\<close>: the ends of the
  three servers of \<^verbatim>\<open>src/raft/initial_setup.go\<close> and of the apply loop, and \<open>ListenForShutdown\<close> of
  \<^verbatim>\<open>src/raft/utils.go\<close>.  The time at which a component is ready to report is a parameter.  The
  properties: the shutdown takes at most twenty seconds whatever the components do; and a shutdown
  that all components report as successful has no RPC and no batch of entries
  in progress, but may well have requests of clients in progress.
\<close>

section \<open>The ends of the components\<close>

text \<open>
  The four components that report on \<open>shutdown_chan\<close>.  What \<open>ListenAndServe\<close> and \<open>Serve\<close> return
  is an error or nil; after a regular shutdown the HTTP servers return \<open>ErrServerClosed\<close> and the
  gRPC server nil.  The result is what the component then sends on the channel.
\<close>

datatype service = KVStore | RaftServer | GRPCServer | ApplyLoop

datatype serve_error = ErrServerClosed | OtherError

definition StartKVStore_end :: "bool \<Rightarrow> serve_error option \<Rightarrow> string list go" where
  "StartKVStore_end testing err =
     go_bind (if err \<noteq> None \<and> err \<noteq> Some ErrServerClosed then CheckErrorFatal err else Inr ()) (\<lambda>_.
       Inr (if \<not> testing then [''KV store shutdown successful.''] else []))"

definition StartRaftServer_end :: "bool \<Rightarrow> serve_error option \<Rightarrow> string list go" where
  "StartRaftServer_end testing err =
     go_bind (if err \<noteq> None \<and> err \<noteq> Some ErrServerClosed then CheckErrorFatal err else Inr ()) (\<lambda>_.
       Inr (if \<not> testing then [''Client request listener shutdown successful.''] else []))"

text \<open>The gRPC server: the goroutine that stops it reports, the serving one dies of an error.\<close>

definition StartGRPCServer_stop :: "bool \<Rightarrow> string list go" where
  "StartGRPCServer_stop testing = Inr (if \<not> testing then [''gRPC server shutdown successful.''] else [])"

definition StartGRPCServer_end :: "serve_error option \<Rightarrow> unit go" where
  "StartGRPCServer_end err = CheckErrorFatal err"

definition Apply_end :: "bool \<Rightarrow> string list" where
  "Apply_end testing = (if \<not> testing then [''ApplyToStateMachine shutdown successful.''] else [])"

text \<open>
  The loop of \<open>ApplyToStateMachine\<close> over what its \<open>select\<close> picks: the end of the context, with the
  report, or a number from \<open>commits_ready\<close>.  No report is a loop that still waits.
\<close>

datatype selected = Done | Commit int

fun Apply_service ::
    "'s transport \<Rightarrow> bool \<Rightarrow> selected list \<Rightarrow> RaftNode \<Rightarrow> 's \<Rightarrow> (string list option \<times> RaftNode \<times> 's) go" where
  "Apply_service send testing [] node s = Inr (None, node, s)"
| "Apply_service send testing (Done # rest) node s = Inr (Some (Apply_end testing), node, s)"
| "Apply_service send testing (Commit to_commit # rest) node s =
     go_bind (ApplyToStateMachine send to_commit node s) (\<lambda>(n1, s1). Apply_service send testing rest n1 s1)"

lemma Apply_service_commits:
  "Apply_service send testing (map Commit ks @ Done # rest) node s =
     go_bind (apply_batches send ks node s) (\<lambda>(n1, s1). Inr (Some (Apply_end testing), n1, s1))"
  by (induction ks arbitrary: node s) (auto simp: go_bind_def split: sum.splits)

definition report :: "service \<Rightarrow> string list go" where
  "report c =
     (case c of
        KVStore \<Rightarrow> StartKVStore_end False (Some ErrServerClosed)
      | RaftServer \<Rightarrow> StartRaftServer_end False (Some ErrServerClosed)
      | GRPCServer \<Rightarrow> go_bind (StartGRPCServer_end None) (\<lambda>_. StartGRPCServer_stop False)
      | ApplyLoop \<Rightarrow> Inr (Apply_end False))"

section \<open>Collecting the reports\<close>

text \<open>
  The loop of \<open>ListenForShutdown\<close> over \<open>i = 1, \<dots>, 4\<close> in milliseconds.  The components that
  report are given in the order of the times at which they are ready to send; a component that is
  ready waits at the unbuffered channel, so it is received at the later of its time and the start
  of the iteration.  \<open>tie\<close> is what \<open>select\<close> picks when a report and the timer are due together.
  The result: the lines of the log, the time of the return, and whether it was forced.
\<close>

definition log_line :: "nat \<Rightarrow> string \<Rightarrow> string" where
  "log_line i str = ''['' @ itoa (int i) @ ''/4] '' @ str"

function shutdown_loop :: "bool \<Rightarrow> nat \<Rightarrow> nat \<Rightarrow> (nat \<times> string) list \<Rightarrow> string list \<times> nat \<times> bool" where
  "shutdown_loop tie i now reports =
     (if i \<le> 4 then
        (case reports of
           [] \<Rightarrow> ([''Timeout expired, force shutdown invoked.''], now + 5000, True)
         | (t, str) # rest \<Rightarrow>
             if t < now + 5000 \<or> tie \<and> t = now + 5000 then
               (case shutdown_loop tie (i + 1) (max now t) rest of
                  (out, t', forced) \<Rightarrow> (log_line i str # out, t', forced))
             else ([''Timeout expired, force shutdown invoked.''], now + 5000, True))
      else ([], now, False))"
  by pat_completeness auto
termination
  by (relation "measure (\<lambda>(tie, i, now, reports). 5 - i)") auto

declare shutdown_loop.simps [simp del]

definition ListenForShutdown :: "bool \<Rightarrow> nat \<Rightarrow> (nat \<times> string) list \<Rightarrow> string list \<times> nat \<times> bool" where
  "ListenForShutdown tie signalled reports = shutdown_loop tie 1 signalled reports"

lemma shutdown_loop_time:
  "shutdown_loop tie i now reports = (out, t, forced) \<Longrightarrow> now \<le> t \<and> t \<le> now + 5000 * (5 - i)"
proof (induction tie i now reports arbitrary: out t forced rule: shutdown_loop.induct)
  case (1 tie i now reports)
  show ?case
  proof (cases "i \<le> 4 \<and> reports \<noteq> [] \<and> (fst (hd reports) < now + 5000 \<or> tie \<and> fst (hd reports) = now + 5000)")
    case True
    then obtain t1 str rest where r: "reports = (t1, str) # rest" by (cases reports) auto
    obtain o1 u1 f1 where s: "shutdown_loop tie (i + 1) (max now t1) rest = (o1, u1, f1)" by (cases "shutdown_loop tie (i + 1) (max now t1) rest") auto
    from 1(1) [OF _ r refl _ s] True r have "max now t1 \<le> u1" "u1 \<le> max now t1 + 5000 * (5 - (i + 1))" by auto
    moreover have "t = u1" using 1(2) True r s by (auto simp: shutdown_loop.simps [of tie i])
    moreover have "max now t1 \<le> now + 5000" using True r by auto
    moreover have "5000 + 5000 * (5 - (i + 1)) = 5000 * (5 - i)" using True by arith
    ultimately show ?thesis by linarith
  next
    case False
    with 1(2) have "(i \<le> 4 \<and> t = now + 5000) \<or> (\<not> i \<le> 4 \<and> t = now)"
      by (cases reports) (auto simp: shutdown_loop.simps [of tie i] split: if_splits)
    then show ?thesis by auto
  qed
qed

text \<open>All reports in time: each is ready less than five seconds after the one before.\<close>

fun in_time :: "nat \<Rightarrow> (nat \<times> string) list \<Rightarrow> bool" where
  "in_time now [] = True"
| "in_time now ((t, str) # rest) = (t < now + 5000 \<and> in_time (max now t) rest)"

lemma shutdown_loop_all:
  "in_time now reports \<Longrightarrow> i + length reports = 5 \<Longrightarrow>
     shutdown_loop tie i now reports =
       (map (\<lambda>(k, str). log_line k str) (zip [i..<5] (map snd reports)), fold (\<lambda>(t, str) now. max now t) reports now, False)"
proof (induction now reports arbitrary: i rule: in_time.induct)
  case (1 now)
  then show ?case by (simp add: shutdown_loop.simps)
next
  case (2 now t str rest)
  then have "i < 5" "[i..<5] = i # [Suc i..<5]" by (simp_all add: upt_conv_Cons)
  with 2 show ?case by (simp add: shutdown_loop.simps [of tie i])
qed

section \<open>Properties of the collection\<close>

text \<open>
  C40: the process ends: whatever the components do, \<open>ListenForShutdown\<close> returns at most twenty
  seconds after the signal; and when the four components report, each less than five seconds
  after the one before, it returns at the last report, not forced, and logs all four in the order of
  their arrival.
\<close>

theorem shutdown_within_twenty_seconds:
  "fst (snd (ListenForShutdown tie signalled reports)) \<le> signalled + 20000 \<and>
   (in_time signalled reports \<and> length reports = 4 \<longrightarrow>
      ListenForShutdown tie signalled reports =
        (map (\<lambda>(k, str). log_line k str) (zip [1, 2, 3, 4] (map snd reports)),
         fold (\<lambda>(t, str) now. max now t) reports signalled, False))"
proof -
  obtain out t forced where e: "shutdown_loop tie 1 signalled reports = (out, t, forced)" by (cases "shutdown_loop tie 1 signalled reports") auto
  have "[1..<5] = [1, 2, 3, 4 :: nat]" by (simp add: upt_rec)
  with shutdown_loop_time [OF e] shutdown_loop_all [of signalled reports 1 tie] e show ?thesis
    by (simp add: ListenForShutdown_def)
qed

theorem shutdown_within_twenty_seconds_witness:
  "ListenForShutdown False 100 [(100, ''a''), (150, ''b''), (5000, ''c''), (9000, ''d'')] =
     ([log_line 1 ''a'', log_line 2 ''b'', log_line 3 ''c'', log_line 4 ''d''], 9000, False)"
  using shutdown_within_twenty_seconds [of False 100 "[(100, ''a''), (150, ''b''), (5000, ''c''), (9000, ''d'')]"] by simp

section \<open>The process during the shutdown\<close>

text \<open>
  The components with the work they have in progress: requests of clients at the two HTTP servers,
  RPCs at the gRPC server, at most one batch of entries at the apply loop.  Once the context is
  cancelled, \<open>Shutdown\<close> of an HTTP server makes \<open>ListenAndServe\<close> return at once while it goes on
  waiting for the requests in progress itself, for three seconds, after which the connections are
  closed; \<open>GracefulStop\<close> returns when no RPC is in progress; the apply loop sees the cancelled
  context when it is back at its \<open>select\<close>.  A component reports when the listener receives.
\<close>

datatype phase = Running | Stopping | Reported

datatype listener = Waiting | Collecting nat | Exited bool | Killed

record process =
  cancelled :: bool
  phase :: "service \<Rightarrow> phase"
  in_flight :: "service \<Rightarrow> nat"
  connections_closed :: "service \<Rightarrow> bool"
  listener :: listener
  reporters :: "service list"
  logged :: "string list"

datatype life_event =
    Signal
  | Arrive service
  | Complete service
  | CtxDone service
  | CloseConnections service
  | Report service
  | Expire
  | Return
  | ServeError service

definition ended :: "process \<Rightarrow> bool" where
  "ended p = (case listener p of Waiting \<Rightarrow> False | Collecting i \<Rightarrow> False | Exited forced \<Rightarrow> True | Killed \<Rightarrow> True)"

definition http_server :: "service \<Rightarrow> bool" where
  "http_server c = (c = KVStore \<or> c = RaftServer)"

definition receive :: "service \<Rightarrow> process \<Rightarrow> process option" where
  "receive c p =
     (case (listener p, report c) of
        (Collecting i, Inr [str]) \<Rightarrow>
          if i \<le> 4 then
            Some (p\<lparr>phase := (phase p)(c := Reported), listener := Collecting (i + 1),
                    reporters := reporters p @ [c], logged := logged p @ [log_line i str]\<rparr>)
          else None
      | _ \<Rightarrow> None)"

fun life_step :: "life_event \<Rightarrow> process \<Rightarrow> process option" where
  "life_step Signal p =
     (if listener p = Waiting then Some (p\<lparr>listener := Collecting 1, cancelled := True\<rparr>) else None)"
| "life_step (Arrive c) p =
     (if \<not> ended p \<and> phase p c = Running \<and> (c = ApplyLoop \<longrightarrow> in_flight p c = 0)
      then Some (p\<lparr>in_flight := (in_flight p)(c := in_flight p c + 1)\<rparr>) else None)"
| "life_step (Complete c) p =
     (if \<not> ended p \<and> 0 < in_flight p c
      then Some (p\<lparr>in_flight := (in_flight p)(c := in_flight p c - 1)\<rparr>) else None)"
| "life_step (CtxDone c) p =
     (if \<not> ended p \<and> cancelled p \<and> phase p c = Running \<and> (c = ApplyLoop \<longrightarrow> in_flight p c = 0)
      then Some (p\<lparr>phase := (phase p)(c := Stopping)\<rparr>) else None)"
| "life_step (CloseConnections c) p =
     (if \<not> ended p \<and> http_server c \<and> phase p c \<noteq> Running \<and> 0 < in_flight p c
      then Some (p\<lparr>connections_closed := (connections_closed p)(c := True)\<rparr>) else None)"
| "life_step (Report c) p =
     (if phase p c = Stopping \<and> (c = GRPCServer \<longrightarrow> in_flight p c = 0) then receive c p else None)"
| "life_step Expire p =
     (case listener p of
        Collecting i \<Rightarrow>
          if i \<le> 4 then Some (p\<lparr>listener := Exited True, logged := logged p @ [''Timeout expired, force shutdown invoked.'']\<rparr>)
          else None
      | _ \<Rightarrow> None)"
| "life_step Return p =
     (case listener p of
        Collecting i \<Rightarrow> if i \<le> 4 then None else Some (p\<lparr>listener := Exited False\<rparr>)
      | _ \<Rightarrow> None)"
| "life_step (ServeError c) p =
     (if \<not> ended p \<and> phase p c = Running \<and> c \<noteq> ApplyLoop then Some (p\<lparr>listener := Killed\<rparr>) else None)"

fun life_run :: "life_event list \<Rightarrow> process \<Rightarrow> process option" where
  "life_run [] p = Some p"
| "life_run (e # es) p = Option.bind (life_step e p) (life_run es)"

definition started :: process where
  "started = \<lparr>cancelled = False, phase = (\<lambda>_. Running), in_flight = (\<lambda>_. 0),
     connections_closed = (\<lambda>_. False), listener = Waiting, reporters = [], logged = []\<rparr>"

definition alive :: "process \<Rightarrow> bool" where
  "alive p \<longleftrightarrow> (\<exists>es. life_run es started = Some p)"

subsection \<open>Lemmas\<close>

lemma life_run_append: "life_run (es @ fs) p = Option.bind (life_run es p) (life_run fs)"
  by (induction es arbitrary: p) (auto split: bind_splits)

lemma alive_step: "alive p \<Longrightarrow> life_step e p = Some q \<Longrightarrow> alive q"
proof -
  assume "alive p" "life_step e p = Some q"
  then obtain es where "life_run es started = Some p" by (auto simp: alive_def)
  with \<open>life_step e p = Some q\<close> have "life_run (es @ [e]) started = Some q" by (simp add: life_run_append)
  then show "alive q" by (auto simp: alive_def)
qed

lemma alive_run: "alive p \<Longrightarrow> life_run es p = Some q \<Longrightarrow> alive q"
proof -
  assume "alive p" "life_run es p = Some q"
  then obtain fs where "life_run fs started = Some p" by (auto simp: alive_def)
  with \<open>life_run es p = Some q\<close> have "life_run (fs @ es) started = Some q" by (simp add: life_run_append)
  then show "alive q" by (auto simp: alive_def)
qed

lemma alive_started: "alive started"
  unfolding alive_def by (rule exI [of _ "[]"]) simp

lemma alive_induct [consumes 1, case_names start step]:
  assumes "alive p" and "P started"
    and "\<And>q e r. alive q \<Longrightarrow> P q \<Longrightarrow> life_step e q = Some r \<Longrightarrow> P r"
  shows "P p"
proof -
  from assms(1) obtain es where "life_run es started = Some p" by (auto simp: alive_def)
  then show ?thesis
  proof (induction es arbitrary: p rule: rev_induct)
    case Nil
    with assms(2) show ?case by simp
  next
    case (snoc e es)
    then obtain q where "life_run es started = Some q" "life_step e q = Some p"
      by (auto simp: life_run_append split: bind_splits)
    with snoc.IH assms(3) show ?case by (auto simp: alive_def)
  qed
qed

lemma report_Inr: "\<exists>str. report c = Inr [str]"
  by (cases c) (simp_all add: report_def StartKVStore_end_def StartRaftServer_end_def StartGRPCServer_end_def
      StartGRPCServer_stop_def Apply_end_def CheckErrorFatal_def)

definition line :: "service \<Rightarrow> string" where
  "line c = hd (projr (report c))"

lemma receive_unfold:
  "receive c p =
     (case listener p of
        Collecting i \<Rightarrow>
          if i \<le> 4 then
            Some (p\<lparr>phase := (phase p)(c := Reported), listener := Collecting (i + 1),
                    reporters := reporters p @ [c], logged := logged p @ [log_line i (line c)]\<rparr>)
          else None
      | _ \<Rightarrow> None)"
  using report_Inr [of c] by (auto simp: receive_def line_def split: listener.splits)

lemma receive_eq:
  "receive c p = Some q \<longleftrightarrow> (\<exists>i \<le> 4. listener p = Collecting i \<and>
     q = p\<lparr>phase := (phase p)(c := Reported), listener := Collecting (i + 1),
           reporters := reporters p @ [c], logged := logged p @ [log_line i (line c)]\<rparr>)"
  by (auto simp: receive_unfold split: listener.splits if_splits)

text \<open>The number of reports that the listener has taken.\<close>

definition taken :: "process \<Rightarrow> nat option" where
  "taken p = (case listener p of Waiting \<Rightarrow> Some 0 | Collecting i \<Rightarrow> Some (i - 1) | Exited f \<Rightarrow> (if f then None else Some 4) | Killed \<Rightarrow> None)"

definition counted :: "process \<Rightarrow> bool" where
  "counted p \<longleftrightarrow> (\<forall>k. taken p = Some k \<longrightarrow> length (reporters p) = k \<and>
     logged p = map (\<lambda>(i, c). log_line i (line c)) (zip [1..<Suc k] (reporters p)))"

lemma counted_frame [simp]:
  "counted (p\<lparr>in_flight := a\<rparr>) = counted p" "counted (p\<lparr>phase := b\<rparr>) = counted p"
  "counted (p\<lparr>connections_closed := d\<rparr>) = counted p" "counted (p\<lparr>listener := Killed\<rparr>)"
  "counted (p\<lparr>listener := Exited True, logged := l\<rparr>)"
  "listener p = Waiting \<Longrightarrow> counted (p\<lparr>listener := Collecting (Suc 0), cancelled := f\<rparr>) = counted p"
  "listener p = Collecting 5 \<Longrightarrow> counted (p\<lparr>listener := Exited False\<rparr>) = counted p"
  by (simp_all add: counted_def taken_def)

definition life_inv :: "process \<Rightarrow> bool" where
  "life_inv p \<longleftrightarrow>
     distinct (reporters p) \<and> set (reporters p) = {c. phase p c = Reported} \<and> counted p \<and>
     (\<forall>i. listener p = Collecting i \<longrightarrow> 1 \<le> i \<and> i \<le> 5) \<and>
     (\<not> cancelled p \<longrightarrow> (\<forall>c. phase p c = Running)) \<and> (listener p = Waiting \<longrightarrow> \<not> cancelled p) \<and>
     (phase p ApplyLoop \<noteq> Running \<longrightarrow> in_flight p ApplyLoop = 0) \<and>
     (phase p GRPCServer = Reported \<longrightarrow> in_flight p GRPCServer = 0) \<and>
     in_flight p ApplyLoop \<le> 1"

lemma life_inv_step: "life_inv p \<Longrightarrow> life_step e p = Some q \<Longrightarrow> life_inv q"
proof (cases e)
  case (Report c)
  assume inv: "life_inv p" and st: "life_step e p = Some q"
  with Report obtain i where i: "i \<le> 4" "listener p = Collecting i" "phase p c = Stopping"
      "c = GRPCServer \<longrightarrow> in_flight p c = 0"
      "q = p\<lparr>phase := (phase p)(c := Reported), listener := Collecting (i + 1),
           reporters := reporters p @ [c], logged := logged p @ [log_line i (line c)]\<rparr>"
    by (auto simp: receive_eq split: if_splits)
  from i(2) have "taken p = Some (i - 1)" by (simp add: taken_def)
  moreover from inv i(2) have k1: "1 \<le> i" unfolding life_inv_def by blast
  ultimately have "length (reporters p) = i - 1 \<and>
      logged p = map (\<lambda>(i, c). log_line i (line c)) (zip [1..<Suc (i - 1)] (reporters p))"
    using inv unfolding life_inv_def counted_def by blast
  moreover have "Suc (i - 1) = i" using k1 by simp
  ultimately have k: "length (reporters p) = i - 1" "logged p = map (\<lambda>(i, c). log_line i (line c)) (zip [1..<i] (reporters p))"
    by simp_all
  have "[1..<Suc i] = [1..<i] @ [i]" using k1 by simp
  then have z: "zip [1..<Suc i] (reporters p @ [c]) = zip [1..<i] (reporters p) @ [(i, c)]"
    using k(1) by (simp only: zip_append length_upt) simp
  have tq: "taken q = Some i" by (simp add: i(5) taken_def)
  from inv have ip: "distinct (reporters p)" "set (reporters p) = {c. phase p c = Reported}"
      "\<not> cancelled p \<longrightarrow> (\<forall>c. phase p c = Running)" "phase p ApplyLoop \<noteq> Running \<longrightarrow> in_flight p ApplyLoop = 0"
      "phase p GRPCServer = Reported \<longrightarrow> in_flight p GRPCServer = 0" "in_flight p ApplyLoop \<le> 1"
    by (simp_all add: life_inv_def)
  have q: "reporters q = reporters p @ [c]" "phase q = (phase p)(c := Reported)" "listener q = Collecting (i + 1)"
      "cancelled q = cancelled p" "in_flight q = in_flight p"
      "logged q = map (\<lambda>(i, c). log_line i (line c)) (zip [1..<Suc i] (reporters q))"
    using k k1 by (simp_all add: i(5) z [unfolded One_nat_def] del: upt_Suc)
  have "cancelled p" using ip(3) i(3) by fastforce
  moreover have "distinct (reporters q)" using ip(1,2) i(3) by (simp add: q(1))
  moreover have "set (reporters q) = {c. phase q c = Reported}" using ip(2) by (auto simp: q(1,2))
  moreover have "length (reporters q) = i" using k(1) k1 by (simp add: q(1))
  moreover have "phase q ApplyLoop \<noteq> Running \<longrightarrow> in_flight q ApplyLoop = 0"
    using ip(4) i(3) by (auto simp: q(2,5))
  moreover have "phase q GRPCServer = Reported \<longrightarrow> in_flight q GRPCServer = 0"
    using ip(5) i(4) by (auto simp: q(2,5))
  ultimately show ?thesis unfolding life_inv_def counted_def tq using ip(6) q(3,4,5,6) k1 i(1) by (simp del: upt_Suc)
next
  case Signal
  assume "life_inv p" and "life_step e p = Some q"
  with Signal show ?thesis by (auto simp: life_inv_def split: if_splits)
next
  case (Arrive c)
  assume inv: "life_inv p" and "life_step e p = Some q"
  with Arrive have "q = p\<lparr>in_flight := (in_flight p)(c := in_flight p c + 1)\<rparr>" "phase p c = Running"
      "c = ApplyLoop \<longrightarrow> in_flight p c = 0"
    by (simp_all split: if_splits)
  with inv show ?thesis by (cases c) (simp_all add: life_inv_def)
next
  case (Complete c)
  assume inv: "life_inv p" and "life_step e p = Some q"
  with Complete have "q = p\<lparr>in_flight := (in_flight p)(c := in_flight p c - 1)\<rparr>"
    by (simp_all split: if_splits)
  with inv show ?thesis by (cases c) (auto simp: life_inv_def)
next
  case (CtxDone c)
  assume inv: "life_inv p" and "life_step e p = Some q"
  with CtxDone have "q = p\<lparr>phase := (phase p)(c := Stopping)\<rparr>" "phase p c = Running" "cancelled p" "c = ApplyLoop \<longrightarrow> in_flight p c = 0"
    by (simp_all split: if_splits)
  with inv show ?thesis by (cases c) (auto simp: life_inv_def)
next
  case (CloseConnections c)
  assume inv: "life_inv p" and "life_step e p = Some q"
  with CloseConnections have "q = p\<lparr>connections_closed := (connections_closed p)(c := True)\<rparr>"
    by (simp_all split: if_splits)
  with inv show ?thesis by (cases c) (auto simp: life_inv_def)
next
  case Expire
  assume inv: "life_inv p" and "life_step e p = Some q"
  with Expire obtain l where "q = p\<lparr>listener := Exited True, logged := l\<rparr>"
    by (auto split: listener.splits if_splits)
  with inv show ?thesis by (simp add: life_inv_def)
next
  case Return
  assume inv: "life_inv p" and "life_step e p = Some q"
  with Return obtain i where i: "listener p = Collecting i" "\<not> i \<le> 4" "q = p\<lparr>listener := Exited False\<rparr>"
    by (auto split: listener.splits if_splits)
  moreover from inv i(1) have "i \<le> 5" unfolding life_inv_def by blast
  ultimately have "listener p = Collecting 5" by simp
  with inv i(3) show ?thesis by (simp add: life_inv_def)
next
  case (ServeError c)
  assume inv: "life_inv p" and "life_step e p = Some q"
  with ServeError have "q = p\<lparr>listener := Killed\<rparr>"
    by (simp_all split: if_splits)
  with inv show ?thesis by (cases c) (auto simp: life_inv_def)
qed

lemma alive_inv: "alive p \<Longrightarrow> life_inv p"
proof (induction rule: alive_induct)
  case start
  show ?case by (simp add: life_inv_def counted_def started_def taken_def)
next
  case (step q e r)
  then show ?case using life_inv_step by blast
qed

lemma service_UNIV: "set cs = UNIV" if "distinct cs" "length cs = 4" for cs :: "service list"
proof -
  have u: "(UNIV :: service set) = {KVStore, RaftServer, GRPCServer, ApplyLoop}" using service.exhaust by blast
  have f: "finite (UNIV :: service set)" "card (UNIV :: service set) = 4" by (subst u, simp)+
  have "card (set cs) = 4" using that by (simp add: distinct_card)
  with f card_subset_eq [of UNIV "set cs"] show ?thesis by simp
qed

section \<open>Properties of the shutdown\<close>

text \<open>
  An exit that is not forced means that all four components have reported, each once, in
  the order of the log; then no RPC and no batch of entries is in progress, and no
  component takes new work.
\<close>

theorem clean_exit_is_quiet:
  assumes "alive p" and "listener p = Exited False"
  shows "distinct (reporters p) \<and> set (reporters p) = UNIV \<and>
     logged p = map (\<lambda>(i, c). log_line i (line c)) (zip [1, 2, 3, 4] (reporters p)) \<and>
     in_flight p GRPCServer = 0 \<and> in_flight p ApplyLoop = 0 \<and> (\<forall>c. phase p c = Reported)"
proof -
  have inv: "life_inv p" using assms(1) by (rule alive_inv)
  with assms(2) have "distinct (reporters p)" "length (reporters p) = 4"
      "logged p = map (\<lambda>(i, c). log_line i (line c)) (zip [1..<5] (reporters p))"
      "set (reporters p) = {c. phase p c = Reported}"
      "phase p ApplyLoop \<noteq> Running \<longrightarrow> in_flight p ApplyLoop = 0"
      "phase p GRPCServer = Reported \<longrightarrow> in_flight p GRPCServer = 0"
    by (simp_all add: life_inv_def counted_def taken_def)
  moreover have "[1..<5] = [1, 2, 3, 4 :: nat]" by (simp add: upt_rec)
  moreover have "set (reporters p) = UNIV" using service_UNIV calculation(1,2) by blast
  moreover have "phase p c = Reported" for c using calculation(4,8) by blast
  ultimately show ?thesis by auto
qed

definition exit_run :: "life_event list" where
  "exit_run = [Signal, CtxDone ApplyLoop, CtxDone RaftServer, CtxDone KVStore, CtxDone GRPCServer,
     Report ApplyLoop, Report RaftServer, Report GRPCServer, Report KVStore, Return]"

theorem clean_exit_is_quiet_witness:
  "\<exists>p. life_run exit_run started = Some p \<and> reporters p = [ApplyLoop, RaftServer, GRPCServer, KVStore] \<and>
     in_flight p GRPCServer = 0 \<and> set (reporters p) = UNIV"
proof -
  obtain p where p: "life_run exit_run started = Some p"
    "reporters p = [ApplyLoop, RaftServer, GRPCServer, KVStore]" "listener p = Exited False"
    by (simp add: exit_run_def started_def ended_def receive_unfold)
  then have "alive p" by (auto simp: alive_def)
  from clean_exit_is_quiet [OF this p(3)] p show ?thesis by auto
qed

text \<open>
  C36: the shutdown of the HTTP servers is not graceful: \<open>ListenAndServe\<close> returns as soon as
  \<open>Shutdown\<close> is called, and with it the report, so the process can exit, with four successful
  reports in the log and no timeout, while every request of a client that was in progress when the
  signal came still is.
\<close>

theorem reported_shutdown_cuts_requests:
  assumes "alive p" and "listener p = Waiting" and "in_flight p GRPCServer = 0" and "in_flight p ApplyLoop = 0"
  shows "\<exists>q. life_run exit_run p = Some q \<and> listener q = Exited False \<and>
     length (logged q) = 4 \<and> in_flight q = in_flight p"
proof -
  have inv: "life_inv p" using assms(1) by (rule alive_inv)
  with assms(2) have "phase p c = Running" for c by (simp add: life_inv_def)
  moreover from inv assms(2) have "logged p = []" by (simp add: life_inv_def counted_def taken_def)
  ultimately show ?thesis using assms(2-4) by (simp add: exit_run_def ended_def receive_unfold)
qed

theorem reported_shutdown_cuts_requests_witness:
  "\<exists>q. life_run (Arrive RaftServer # Arrive RaftServer # exit_run) started = Some q \<and>
     listener q = Exited False \<and> in_flight q RaftServer = 2"
proof -
  let ?p = "started\<lparr>in_flight := (\<lambda>_. 0)(RaftServer := 2)\<rparr>"
  have r: "life_run [Arrive RaftServer, Arrive RaftServer] started = Some ?p"
    by (simp add: started_def ended_def numeral_2_eq_2)
  with alive_run alive_started have "alive ?p" by blast
  from reported_shutdown_cuts_requests [OF this] obtain q where
    q: "life_run exit_run ?p = Some q" "listener q = Exited False" "in_flight q = in_flight ?p"
    by (auto simp: started_def)
  have "life_run (Arrive RaftServer # Arrive RaftServer # exit_run) started =
      Option.bind (life_run [Arrive RaftServer, Arrive RaftServer] started) (life_run exit_run)"
    by (simp only: life_run_append [symmetric] append.simps)
  with r q show ?thesis by simp
qed

text \<open>
  An RPC that never completes, like one that waits for the commit channel under the lock,
  keeps the gRPC server from stopping, and the exit can only be a forced one.
\<close>

theorem stuck_rpc_forces_exit:
  assumes "alive p" and "0 < in_flight p GRPCServer" and "Complete GRPCServer \<notin> set es"
    and "life_run es p = Some q"
  shows "listener q \<noteq> Exited False"
proof
  assume e: "listener q = Exited False"
  have mono: "in_flight a GRPCServer \<le> in_flight b GRPCServer"
    if "life_run es a = Some b" "Complete GRPCServer \<notin> set es" for a b
    using that
  proof (induction es arbitrary: a)
    case (Cons e es)
    then obtain c where c: "life_step e a = Some c" "life_run es c = Some b" by (auto split: bind_splits)
    have "in_flight a GRPCServer \<le> in_flight c GRPCServer"
      using c(1) Cons.prems(2) by (cases e) (auto simp: receive_eq split: if_splits listener.splits)
    with Cons.IH [OF c(2)] Cons.prems(2) show ?case by simp
  qed simp
  from alive_inv [OF alive_run [OF assms(1,4)]] e have "distinct (reporters q)" "length (reporters q) = 4"
      "set (reporters q) = {c. phase q c = Reported}" "phase q GRPCServer = Reported \<longrightarrow> in_flight q GRPCServer = 0"
    by (simp_all add: life_inv_def counted_def taken_def)
  with service_UNIV [of "reporters q"] have "in_flight q GRPCServer = 0" by blast
  with mono [OF assms(4,3)] assms(2) show False by simp
qed

theorem stuck_rpc_forces_exit_witness:
  "listener (the (life_run (Arrive GRPCServer # butlast exit_run) started)) \<noteq> Exited False \<or>
   life_run (Arrive GRPCServer # butlast exit_run) started = None"
proof -
  let ?p = "started\<lparr>in_flight := (\<lambda>_. 0)(GRPCServer := 1)\<rparr>"
  have "life_run [Arrive GRPCServer] started = Some ?p" by (simp add: started_def ended_def)
  then have a: "alive ?p" unfolding alive_def by blast
  have "Complete GRPCServer \<notin> set (butlast exit_run)" by (simp add: exit_run_def)
  with stuck_rpc_forces_exit [OF a] have "life_run (butlast exit_run) ?p = Some q \<Longrightarrow> listener q \<noteq> Exited False" for q
    by simp
  moreover have "life_run (Arrive GRPCServer # butlast exit_run) started = life_run (butlast exit_run) ?p"
    by (simp add: started_def ended_def)
  ultimately show ?thesis by (cases "life_run (butlast exit_run) ?p") auto
qed

end
