(* ===== verification/Test_Harness.thy ===== *)
theory Test_Harness
  imports Test_Utils Raft_Lifecycle
begin

text \<open>
  The life of a test, \<^verbatim>\<open>src/raft/testing_utils.go\<close>: the start of all replicas in one process,
  the crash and the restart of one, the end of a test with the removal of its files, and the
  requests that fill the log.  The files of the replicas are part of the state.  The servers are
  taken to come up; what happens when they do not is in \<^verbatim>\<open>Raft_Lifecycle\<close>.  The properties: a crash
  followed by a restart keeps what Raft has to keep; a test that starts after the end of another
  starts afresh, unless a goroutine of the ended test still persists its node; and the requests of the
  harness go to an active leader, or the harness panics when one gets no answer.
\<close>

section \<open>State\<close>

text \<open>
  The fields of \<open>testing_st\<close>, with the stores that run in the process, the flags of the cancelled
  contexts and the two kinds of files.
\<close>

record testing_st =
  t_n :: int
  t_rep_addrs :: "string list"
  t_nodes :: "RaftNode list"
  t_active :: "bool list"
  t_backup :: stubs
  t_stores :: "store list"
  t_cancelled :: "bool list"
  t_raft_files :: "string \<Rightarrow> raft_file"
  t_kv_files :: filesystem

definition fname_raft_persistent :: "int \<Rightarrow> string" where
  "fname_raft_persistent i = ''300'' @ itoa i"

text \<open>Assignment to an element of a slice.\<close>

definition go_set :: "'a list \<Rightarrow> int \<Rightarrow> 'a \<Rightarrow> 'a list go" where
  "go_set xs i x = (if 0 \<le> i \<and> i < int (length xs) then Inr (xs[nat i := x]) else Inl IndexOutOfRange)"

section \<open>Start and end of a test\<close>

text \<open>The first loop of \<open>start_test\<close>; \<open>order i\<close> is the order in which store \<open>i\<close> walks over its file.\<close>

fun create_replicas ::
    "bool \<Rightarrow> (int \<Rightarrow> string list) \<Rightarrow> int \<Rightarrow> (string \<Rightarrow> raft_file) \<Rightarrow> filesystem \<Rightarrow> int list \<Rightarrow> (RaftNode \<times> store) list go" where
  "create_replicas io order n rf fs [] = Inr []"
| "create_replicas io order n rf fs (i # is) =
     go_bind (Setup_raft_node io (order i) i n (rf (fname_raft_persistent i)) fs) (\<lambda>p.
     go_bind (create_replicas io order n rf fs is) (\<lambda>ps. Inr (p # ps)))"

definition start_test ::
    "bool \<Rightarrow> (int \<Rightarrow> string list) \<Rightarrow> int \<Rightarrow> (string \<Rightarrow> raft_file) \<Rightarrow> filesystem \<Rightarrow> testing_st go" where
  "start_test io order n rf fs =
     go_bind (go_make n False) (\<lambda>flags.
     go_bind (create_replicas io order n rf fs [0..n - 1]) (\<lambda>ps.
       Inr \<lparr>t_n = n, t_rep_addrs = map (\<lambda>i. '':500'' @ itoa i) [0..n - 1],
            t_nodes = map (\<lambda>(i, p). Connect_raft_node i (fst p)) (zip [0..n - 1] ps),
            t_active = map (\<lambda>_. True) flags, t_backup = (\<lambda>_ _. None),
            t_stores = map snd ps, t_cancelled = flags, t_raft_files = rf, t_kv_files = fs\<rparr>))"

fun end_loop :: "int list \<Rightarrow> testing_st \<Rightarrow> testing_st go" where
  "end_loop [] st = Inr st"
| "end_loop (i # is) st =
     go_bind (go_index (t_nodes st) i) (\<lambda>node.
     go_bind (go_set (t_cancelled st) i True) (\<lambda>cs.
       end_loop is (st\<lparr>t_cancelled := cs, t_kv_files := (t_kv_files st)(kv_filename i := None),
                       t_raft_files := (t_raft_files st)(fname_raft_persistent i := NoFile)\<rparr>)))"

definition end_test :: "testing_st \<Rightarrow> testing_st go" where
  "end_test st = end_loop [0..t_n st - 1] st"

section \<open>Crash and restart\<close>

text \<open>\<open>PersistToStorage\<close> of a node of the test writes the node's file.\<close>

definition persist_node :: "int \<Rightarrow> testing_st \<Rightarrow> testing_st go" where
  "persist_node i st =
     go_bind (go_index (t_nodes st) i) (\<lambda>node.
       let node1 = PersistToStorage node
       in go_bind (go_set (t_nodes st) i node1) (\<lambda>ns.
            Inr (st\<lparr>t_nodes := ns,
                    t_raft_files := (t_raft_files st)(raft_persistence_file (Meta node1) := disk node1)\<rparr>)))"

definition crash_raft_node :: "int \<Rightarrow> testing_st \<Rightarrow> testing_st go" where
  "crash_raft_node i st =
     go_bind (persist_node i st) (\<lambda>st1.
     go_bind (go_set (t_active st1) i False) (\<lambda>as.
     go_bind (go_set (t_cancelled st1) i True) (\<lambda>cs.
       Inr (st1\<lparr>t_active := as, t_cancelled := cs\<rparr>))))"

definition restart_raft_node :: "bool \<Rightarrow> (int \<Rightarrow> string list) \<Rightarrow> int \<Rightarrow> testing_st \<Rightarrow> testing_st go" where
  "restart_raft_node io order i st =
     go_bind (Setup_raft_node io (order i) i (t_n st) (t_raft_files st (fname_raft_persistent i)) (t_kv_files st)) (\<lambda>(node, kv).
     go_bind (go_set (t_nodes st) i (Connect_raft_node i node)) (\<lambda>ns.
     go_bind (go_set (t_stores st) i kv) (\<lambda>kvs.
     go_bind (go_set (t_cancelled st) i False) (\<lambda>cs.
     go_bind (go_set (t_rep_addrs st) i ('':500'' @ itoa i)) (\<lambda>addrs.
     go_bind (go_set (t_active st) i True) (\<lambda>as.
       Inr (st\<lparr>t_nodes := ns, t_stores := kvs, t_cancelled := cs, t_rep_addrs := addrs, t_active := as\<rparr>)))))))"

section \<open>Filling the log\<close>

definition entry_request :: "int \<Rightarrow> request" where
  "entry_request i =
     \<lparr>parse_error = None, form = [''value'' \<mapsto> ''value'' @ itoa i, ''client'' \<mapsto> ''admin''],
      url_key = ''key'' @ itoa i\<rparr>"

text \<open>
  The loop over the requests; \<open>answered i\<close> is whether request \<open>i\<close> gets an answer.  Without one
  the response is nil, \<open>t.Errorf\<close> returns, and the response is closed all the same.
\<close>

fun add_loop :: "(int \<Rightarrow> bool) \<Rightarrow> string \<Rightarrow> int list \<Rightarrow> (string \<times> request) list go" where
  "add_loop answered leader_addr [] = Inr []"
| "add_loop answered leader_addr (i # is) =
     (if \<not> answered i then Inl NilDereference
      else go_bind (add_loop answered leader_addr is) (\<lambda>rs. Inr ((leader_addr, entry_request i) # rs)))"

text \<open>The requests made and the errors of the test.\<close>

definition add_new_log_entries ::
    "(bool \<times> RaftNode) list \<Rightarrow> (int \<Rightarrow> bool) \<Rightarrow> int \<Rightarrow> int \<Rightarrow> ((string \<times> request) list \<times> string list) go" where
  "add_new_log_entries ts answered n startIndex =
     (let leader_id = find_leader ts 0 (-1)
      in if leader_id = -1 then Inr ([], [''Invalid leader ID '' @ itoa leader_id])
         else go_bind (add_loop answered ('':400'' @ itoa leader_id) [startIndex..n + startIndex - 1]) (\<lambda>rs.
                Inr (rs, [])))"

section \<open>Lemmas\<close>

lemma go_set_Inr [simp]: "0 \<le> i \<Longrightarrow> i < int (length xs) \<Longrightarrow> go_set xs i x = Inr (xs[nat i := x])"
  by (simp add: go_set_def)

lemma Connect_file [simp]: "raft_persistence_file (Meta (Connect_raft_node i n)) = raft_persistence_file (Meta n)"
  by (simp add: Connect_raft_node_def ConnectToPeerReplicas_def Let_def)

lemma PersistToStorage_Meta [simp]: "Meta (PersistToStorage n) = Meta n"
  by (simp add: PersistToStorage_def Let_def)

lemma Setup_connected:
  assumes "N < 2147483648" and "i < N" and "file_ok f" and "InitializeStore io order (kv_filename (int i)) fs = Some kv"
  shows "\<exists>n. Setup_raft_node io order (int i) (int N) f fs = Inr (n, kv) \<and> boot N i f = Inr (Connect_raft_node (int i) n)"
proof -
  from boot_node [OF assms(3,1,2)] obtain n where "boot N i f = Inr n" by blast
  then obtain n0 where "InitializeNode (i32 (int N)) (int i) (kv_addr (int i)) f = Inr n0" "n = Connect_raft_node (int i) n0"
    by (auto simp: boot_def go_bind_eq_Inr)
  with Setup_boot [OF assms(1,2,4), of f] \<open>boot N i f = Inr n\<close> show ?thesis by auto
qed

lemma restore_Meta:
  "restore_int32 k n = Inr (v, n1) \<Longrightarrow> Meta n1 = Meta n" "restore_log k n = Inr (l, n1) \<Longrightarrow> Meta n1 = Meta n"
  by (cases "storage_Get k (storage n) (disk n)";
      auto simp: restore_int32_def restore_log_def split: option.splits svalue.splits)+

lemma RestoreFromStorage_Meta: "RestoreFromStorage n = Inr n' \<Longrightarrow> Meta n' = Meta n"
  by (auto simp: RestoreFromStorage_def go_bind_eq_Inr dest!: restore_Meta)

lemma InitializeNode_file:
  assumes "InitializeNode nr rid addr f = Inr n"
  shows "raft_persistence_file (Meta n) = tl addr"
proof -
  from assms obtain clients where c: "go_make nr (None :: nat option) = Inr clients"
    by (cases "go_make nr (None :: nat option)") (auto simp: InitializeNode_def)
  with assms have "1 \<le> length addr" by (cases "1 \<le> length addr") (simp_all add: InitializeNode_def go_slice_def)
  with assms c have r: "(if storage_HasData f then RestoreFromStorage (initial_node nr rid addr (tl addr) clients f)
       else Inr (initial_node nr rid addr (tl addr) clients f)) = Inr n"
    by (simp add: InitializeNode_def go_slice_def drop_Suc Let_def)
  have "Meta n = Meta (initial_node nr rid addr (tl addr) clients f)"
    using r RestoreFromStorage_Meta by (auto split: if_splits)
  then show ?thesis by (simp add: initial_node_def Let_def)
qed

lemma Setup_file:
  "Setup_raft_node io order i n f fs = Inr (node, kv) \<Longrightarrow> raft_persistence_file (Meta node) = fname_raft_persistent i"
  using InitializeNode_file [of "i32 n" i "kv_addr i" f node]
  by (auto simp: Setup_raft_node_def go_bind_eq_Inr kv_addr_def fname_raft_persistent_def split: option.splits)

text \<open>A test of the right shape.\<close>

definition test_ok :: "nat \<Rightarrow> testing_st \<Rightarrow> bool" where
  "test_ok N st \<longleftrightarrow> N < 2147483648 \<and> t_n st = int N \<and> length (t_nodes st) = N \<and> length (t_active st) = N \<and>
     length (t_rep_addrs st) = N \<and> length (t_stores st) = N \<and> length (t_cancelled st) = N \<and>
     (\<forall>i < N. raft_persistence_file (Meta (t_nodes st ! i)) = fname_raft_persistent (int i))"

lemma create_replicas_Inr:
  assumes "\<And>i. i \<in> set is \<Longrightarrow> \<exists>p. Setup_raft_node io (order i) i n (rf (fname_raft_persistent i)) fs = Inr p"
  shows "\<exists>ps. create_replicas io order n rf fs is = Inr ps \<and>
     list_all2 (\<lambda>i p. Setup_raft_node io (order i) i n (rf (fname_raft_persistent i)) fs = Inr p) is ps"
  using assms
proof (induction "is")
  case (Cons i js)
  then obtain p ps where "Setup_raft_node io (order i) i n (rf (fname_raft_persistent i)) fs = Inr p"
    "create_replicas io order n rf fs js = Inr ps"
    "list_all2 (\<lambda>i p. Setup_raft_node io (order i) i n (rf (fname_raft_persistent i)) fs = Inr p) js ps" by fastforce
  then show ?case by auto
qed simp

text \<open>A test starts on readable files, each replica with the state of its file.\<close>

lemma start_test_Inr:
  assumes "N < 2147483648" and "\<And>i. i < N \<Longrightarrow> file_ok (rf (fname_raft_persistent (int i)))"
    and "\<And>i. i < N \<Longrightarrow> InitializeStore io (order (int i)) (kv_filename (int i)) fs = Some (kv i)"
  shows "\<exists>st. start_test io order (int N) rf fs = Inr st \<and> test_ok N st \<and> t_active st = replicate N True \<and>
     t_raft_files st = rf \<and> t_kv_files st = fs \<and> t_stores st = map kv [0..<N] \<and>
     (\<forall>i < N. boot N i (rf (fname_raft_persistent (int i))) = Inr (t_nodes st ! i) \<and>
        node_state (t_nodes st ! i) = disk_state (rf (fname_raft_persistent (int i))))"
proof -
  let ?S = "\<lambda>i. Setup_raft_node io (order i) i (int N) (rf (fname_raft_persistent i)) fs"
  have s: "\<exists>n. ?S (int i) = Inr (n, kv i) \<and> boot N i (rf (fname_raft_persistent (int i))) = Inr (Connect_raft_node (int i) n)"
    if "i < N" for i
    by (rule Setup_connected [OF assms(1) that assms(2,3) [OF that]])
  have "\<exists>p. ?S i = Inr p" if "i \<in> set [0..int N - 1]" for i
  proof -
    have "nat i < N" "int (nat i) = i" using that by auto
    with s [of "nat i"] show ?thesis by auto
  qed
  from create_replicas_Inr [OF this] obtain ps where
    ps: "create_replicas io order (int N) rf fs [0..int N - 1] = Inr ps" "list_all2 (\<lambda>i p. ?S i = Inr p) [0..int N - 1] ps"
    by blast
  then have len: "length ps = N" by (auto dest: list_all2_lengthD)
  have nth: "?S (int i) = Inr (ps ! i)" if "i < N" for i
    using list_all2_nthD [OF ps(2), of i] that by simp
  let ?st = "\<lparr>t_n = int N, t_rep_addrs = map (\<lambda>i. '':500'' @ itoa i) [0..int N - 1],
      t_nodes = map (\<lambda>(i, p). Connect_raft_node i (fst p)) (zip [0..int N - 1] ps),
      t_active = map (\<lambda>_. True) (replicate N False), t_backup = (\<lambda>_ _. None), t_stores = map snd ps,
      t_cancelled = replicate N False, t_raft_files = rf, t_kv_files = fs\<rparr>"
  have st: "start_test io order (int N) rf fs = Inr ?st"
    by (simp add: start_test_def go_make_def ps(1))
  have node: "boot N i (rf (fname_raft_persistent (int i))) = Inr (t_nodes ?st ! i) \<and>
      raft_persistence_file (Meta (t_nodes ?st ! i)) = fname_raft_persistent (int i) \<and> snd (ps ! i) = kv i"
    if i: "i < N" for i
  proof -
    from s [OF i] nth [OF i] obtain n where n: "ps ! i = (n, kv i)" "?S (int i) = Inr (n, kv i)"
      "boot N i (rf (fname_raft_persistent (int i))) = Inr (Connect_raft_node (int i) n)" by auto
    with Setup_file [OF n(2)] i len show ?thesis by simp
  qed
  have state: "node_state (t_nodes ?st ! i) = disk_state (rf (fname_raft_persistent (int i)))" if i: "i < N" for i
  proof -
    from boot_node [OF assms(2) [OF i] assms(1) i] obtain n where
      "boot N i (rf (fname_raft_persistent (int i))) = Inr n" "node_state n = disk_state (rf (fname_raft_persistent (int i)))"
      by blast
    with node [OF i] show ?thesis by simp
  qed
  have "map snd ps = map kv [0..<N]" using node len by (auto intro: nth_equalityI)
  moreover have "test_ok N ?st" using assms(1) len node by (simp add: test_ok_def)
  ultimately show ?thesis using st node state by (intro exI [of _ ?st]) (simp add: map_replicate_const)
qed

section \<open>Properties\<close>

text \<open>
  C39: a crash keeps what Raft has to keep: a replica of the harness that is crashed and restarted
  while its key-value file is readable has its term, vote, log, commit index and applied index
  back, as a follower with the unapplied commits handed to its apply loop; it is inactive in
  between, and nothing changes at the other replicas.
\<close>

theorem crash_then_restart:
  assumes "test_ok N st" and "i < N"
    and "InitializeStore io (order (int i)) (kv_filename (int i)) (t_kv_files st) = Some kv"
  shows "\<exists>st1 st2 n'. crash_raft_node (int i) st = Inr st1 \<and> t_active st1 = (t_active st)[i := False] \<and>
     restart_raft_node io order (int i) st1 = Inr st2 \<and> t_active st2 = (t_active st)[i := True] \<and>
     t_nodes st2 = (t_nodes st)[i := n'] \<and> node_state n' = node_state (t_nodes st ! i) \<and> state n' = Follower \<and>
     effects n' = (if commitIndex n' > lastApplied n' then [Send_commits_ready (i32 (commitIndex n' - lastApplied n'))]
                   else []) @ [Go_RunElectionTimer] \<and>
     t_stores st2 = (t_stores st)[i := kv] \<and> test_ok N st2"
proof -
  let ?n = "PersistToStorage (t_nodes st ! i)"
  let ?st1 = "st\<lparr>t_nodes := (t_nodes st)[i := ?n], t_raft_files := (t_raft_files st)(fname_raft_persistent (int i) := disk ?n),
      t_active := (t_active st)[i := False], t_cancelled := (t_cancelled st)[i := True]\<rparr>"
  have c: "crash_raft_node (int i) st = Inr ?st1"
    using assms(1,2) by (simp add: crash_raft_node_def persist_node_def test_ok_def Let_def)
  have N: "N < 2147483648" using assms(1) by (simp add: test_ok_def)
  from Setup_connected [OF N assms(2) PersistToStorage_disk(2) assms(3)] obtain n where
    n: "Setup_raft_node io (order (int i)) (int i) (int N) (disk ?n) (t_kv_files st) = Inr (n, kv)"
      "boot N i (disk ?n) = Inr (Connect_raft_node (int i) n)" by blast
  let ?n' = "Connect_raft_node (int i) n"
  let ?st2 = "?st1\<lparr>t_nodes := (t_nodes st)[i := ?n'], t_stores := (t_stores st)[i := kv],
      t_cancelled := (t_cancelled st)[i := False], t_rep_addrs := (t_rep_addrs st)[i := '':500'' @ itoa (int i)],
      t_active := (t_active st)[i := True]\<rparr>"
  have r: "restart_raft_node io order (int i) ?st1 = Inr ?st2"
    using assms(1,2) n(1) by (simp add: restart_raft_node_def test_ok_def)
  from boot_node [OF PersistToStorage_disk(2) N assms(2), of "t_nodes st ! i"] n(2) have
    b: "node_state ?n' = node_state (t_nodes st ! i)" "state ?n' = Follower"
      "effects ?n' = (if commitIndex ?n' > lastApplied ?n' then [Send_commits_ready (i32 (commitIndex ?n' - lastApplied ?n'))]
                   else []) @ [Go_RunElectionTimer]"
    by auto
  have "raft_persistence_file (Meta ?n') = fname_raft_persistent (int i)"
    using Setup_file [OF n(1)] by simp
  then have "test_ok N ?st2" using assms(1,2) by (auto simp: test_ok_def nth_list_update)
  with c r b show ?thesis by (intro exI [of _ ?st1] exI [of _ ?st2] exI [of _ ?n']) simp
qed

text \<open>The files of a test without any.\<close>

lemma fresh_file [simp]: "file_ok NoFile"
  by (simp add: file_ok_def)

definition empty_store :: "int \<Rightarrow> store" where
  "empty_store i = \<lparr>db = replicate 101 None, filename = kv_filename i, db_temp = (\<lambda>_. None), mem = empty_heap\<rparr>"

lemma InitializeStore_empty:
  "fs (kv_filename i) = None \<Longrightarrow> InitializeStore io order (kv_filename i) fs = Some (empty_store i)"
  by (simp add: InitializeStore_def HasData_def empty_store_def Let_def)

theorem crash_then_restart_witness:
  "\<exists>st st1 st2. start_test True (\<lambda>_. []) 3 (\<lambda>_. NoFile) (\<lambda>_. None) = Inr st \<and> crash_raft_node 1 st = Inr st1 \<and>
     t_active st1 = [True, False, True] \<and> restart_raft_node True (\<lambda>_. []) 1 st1 = Inr st2 \<and>
     t_active st2 = [True, True, True] \<and> node_state (t_nodes st2 ! 1) = node_state (t_nodes st ! 1)"
proof -
  from start_test_Inr [of 3 "\<lambda>_. NoFile" True "\<lambda>_. []" "\<lambda>_. None" "\<lambda>i. empty_store (int i)"] obtain st where
    st: "start_test True (\<lambda>_. []) 3 (\<lambda>_. NoFile) (\<lambda>_. None) = Inr st" "test_ok 3 st" "t_active st = replicate 3 True"
      "t_kv_files st = (\<lambda>_. None)"
    by (auto simp: InitializeStore_empty)
  from crash_then_restart [OF st(2), of 1 True "\<lambda>_. []" "empty_store 1"] st obtain st1 st2 n' where
    "crash_raft_node 1 st = Inr st1" "t_active st1 = (t_active st)[1 := False]"
    "restart_raft_node True (\<lambda>_. []) 1 st1 = Inr st2" "t_active st2 = (t_active st)[1 := True]"
    "t_nodes st2 = (t_nodes st)[1 := n']" "node_state n' = node_state (t_nodes st ! 1)"
    by (auto simp: InitializeStore_empty)
  moreover have "length (t_nodes st) = 3" using st(2) by (simp add: test_ok_def)
  ultimately show ?thesis using st by (auto simp: numeral_3_eq_3)
qed

lemma end_loop_eq:
  assumes "set is \<subseteq> {0..<int N}" and "test_ok N st"
  shows "\<exists>cs. end_loop is st = Inr (st\<lparr>t_cancelled := cs,
       t_kv_files := (\<lambda>f. if f \<in> kv_filename ` set is then None else t_kv_files st f),
       t_raft_files := (\<lambda>f. if f \<in> fname_raft_persistent ` set is then NoFile else t_raft_files st f)\<rparr>) \<and>
     length cs = N \<and> (\<forall>j < N. cs ! j = (int j \<in> set is \<or> t_cancelled st ! j))"
  using assms
proof (induction "is" arbitrary: st)
  case Nil
  then show ?case by (intro exI [of _ "t_cancelled st"]) (simp add: test_ok_def)
next
  case (Cons i js)
  let ?st = "st\<lparr>t_cancelled := (t_cancelled st)[nat i := True], t_kv_files := (t_kv_files st)(kv_filename i := None),
      t_raft_files := (t_raft_files st)(fname_raft_persistent i := NoFile)\<rparr>"
  have i: "0 \<le> i" "i < int N" "set js \<subseteq> {0..<int N}" using Cons.prems(1) by auto
  have ok: "test_ok N ?st" using Cons.prems(2) by (simp add: test_ok_def)
  have e: "end_loop (i # js) st = end_loop js ?st" using Cons.prems(2) i by (simp add: test_ok_def)
  from Cons.IH [OF i(3) ok] obtain cs where cs: "end_loop js ?st = Inr (?st\<lparr>t_cancelled := cs,
       t_kv_files := (\<lambda>f. if f \<in> kv_filename ` set js then None else t_kv_files ?st f),
       t_raft_files := (\<lambda>f. if f \<in> fname_raft_persistent ` set js then NoFile else t_raft_files ?st f)\<rparr>)"
     "length cs = N" "\<forall>j < N. cs ! j = (int j \<in> set js \<or> t_cancelled ?st ! j)" by blast
  have "cs ! j = (int j \<in> set (i # js) \<or> t_cancelled st ! j)" if "j < N" for j
    using cs(3) that Cons.prems(2) i(1) by (cases "nat i = j") (auto simp: test_ok_def)
  moreover have "(\<lambda>f. if f \<in> kv_filename ` set js then None else t_kv_files ?st f) =
      (\<lambda>f. if f \<in> kv_filename ` set (i # js) then None else t_kv_files st f)"
    "(\<lambda>f. if f \<in> fname_raft_persistent ` set js then NoFile else t_raft_files ?st f) =
      (\<lambda>f. if f \<in> fname_raft_persistent ` set (i # js) then NoFile else t_raft_files st f)"
    by (auto simp: fun_eq_iff)
  ultimately show ?case using e cs(1,2) by (intro exI [of _ cs]) simp
qed

lemma end_test_eq:
  assumes "test_ok N st"
  shows "\<exists>st1. end_test st = Inr st1 \<and> test_ok N st1 \<and> t_nodes st1 = t_nodes st \<and> (\<forall>j < N. t_cancelled st1 ! j) \<and>
     (\<forall>j < N. t_kv_files st1 (kv_filename (int j)) = None \<and> t_raft_files st1 (fname_raft_persistent (int j)) = NoFile)"
proof -
  have "set [0..t_n st - 1] \<subseteq> {0..<int N}" using assms by (auto simp: test_ok_def)
  from end_loop_eq [OF this assms] obtain cs where
    cs: "end_test st = Inr (st\<lparr>t_cancelled := cs,
       t_kv_files := (\<lambda>f. if f \<in> kv_filename ` set [0..t_n st - 1] then None else t_kv_files st f),
       t_raft_files := (\<lambda>f. if f \<in> fname_raft_persistent ` set [0..t_n st - 1] then NoFile else t_raft_files st f)\<rparr>)"
    "length cs = N" "\<forall>j < N. cs ! j = (int j \<in> set [0..t_n st - 1] \<or> t_cancelled st ! j)"
    unfolding end_test_def by blast
  have m: "int j \<in> set [0..t_n st - 1]" if "j < N" for j using that assms by (simp add: test_ok_def)
  show ?thesis using cs m assms by (auto simp: test_ok_def)
qed

lemma disk_state_empty: "disk_state NoFile = node_state n \<Longrightarrow>
   currentTerm n = 0 \<and> votedFor n = -1 \<and> log n = [] \<and> commitIndex n = -1 \<and> lastApplied n = -1"
  by (simp add: disk_state_def node_state_def disk_int32_def disk_log_def)

text \<open>
  Tests do not see each other: a test that starts after the end of another, with as many
  replicas or fewer, starts in term 0 with empty logs and empty stores, provided that nothing
  writes the files in between.
\<close>

theorem tests_are_isolated:
  assumes "test_ok N st" and "M \<le> N"
  shows "\<exists>st1 st2. end_test st = Inr st1 \<and> t_cancelled st1 = replicate N True \<and>
     start_test io order (int M) (t_raft_files st1) (t_kv_files st1) = Inr st2 \<and>
     (\<forall>i < M. currentTerm (t_nodes st2 ! i) = 0 \<and> votedFor (t_nodes st2 ! i) = -1 \<and> log (t_nodes st2 ! i) = [] \<and>
        commitIndex (t_nodes st2 ! i) = -1 \<and> lastApplied (t_nodes st2 ! i) = -1 \<and>
        t_stores st2 ! i = empty_store (int i))"
proof -
  from end_test_eq [OF assms(1)] obtain st1 where st1: "end_test st = Inr st1" "test_ok N st1" "\<forall>j < N. t_cancelled st1 ! j"
     "\<forall>j < N. t_kv_files st1 (kv_filename (int j)) = None \<and> t_raft_files st1 (fname_raft_persistent (int j)) = NoFile"
    by blast
  have M: "M < 2147483648" using assms by (simp add: test_ok_def)
  have f: "t_raft_files st1 (fname_raft_persistent (int i)) = NoFile" "t_kv_files st1 (kv_filename (int i)) = None"
    if "i < M" for i using st1(4) that assms(2) by auto
  from start_test_Inr [OF M, of "t_raft_files st1" io order "t_kv_files st1" "\<lambda>i. empty_store (int i)"] f
  obtain st2 where st2: "start_test io order (int M) (t_raft_files st1) (t_kv_files st1) = Inr st2"
    "t_stores st2 = map (\<lambda>i. empty_store (int i)) [0..<M]"
    "\<forall>i < M. node_state (t_nodes st2 ! i) = disk_state (t_raft_files st1 (fname_raft_persistent (int i)))"
    by (auto simp: InitializeStore_empty)
  have "t_cancelled st1 = replicate N True" using st1(2,3) by (auto simp: test_ok_def intro: nth_equalityI)
  moreover have "currentTerm (t_nodes st2 ! i) = 0 \<and> votedFor (t_nodes st2 ! i) = -1 \<and> log (t_nodes st2 ! i) = [] \<and>
        commitIndex (t_nodes st2 ! i) = -1 \<and> lastApplied (t_nodes st2 ! i) = -1 \<and>
        t_stores st2 ! i = empty_store (int i)" if "i < M" for i
    using disk_state_empty [of "t_nodes st2 ! i"] st2(2,3) f(1) [OF that] that by simp
  ultimately show ?thesis using st1(1) st2(1) by blast
qed

theorem tests_are_isolated_witness:
  "\<exists>st st1 st2. start_test True (\<lambda>_. []) 3 (\<lambda>_. NoFile) (\<lambda>_. None) = Inr st \<and> end_test st = Inr st1 \<and>
     start_test True (\<lambda>_. []) 2 (t_raft_files st1) (t_kv_files st1) = Inr st2 \<and> log (t_nodes st2 ! 1) = []"
proof -
  from start_test_Inr [of 3 "\<lambda>_. NoFile" True "\<lambda>_. []" "\<lambda>_. None" "\<lambda>i. empty_store (int i)"] obtain st where
    st: "start_test True (\<lambda>_. []) 3 (\<lambda>_. NoFile) (\<lambda>_. None) = Inr st" "test_ok 3 st"
    by (auto simp: InitializeStore_empty)
  from tests_are_isolated [OF st(2), of 2 True "\<lambda>_. []"] obtain st1 st2 where
    "end_test st = Inr st1" "start_test True (\<lambda>_. []) 2 (t_raft_files st1) (t_kv_files st1) = Inr st2"
    "\<forall>i < 2. log (t_nodes st2 ! i) = []" by auto
  with st(1) show ?thesis by auto
qed

text \<open>
  The files are removed before the components have stopped: when a goroutine of the ended
  test persists its node after the removal, the next test starts with the term, the log and
  the applied index of the old one, but with an empty store, so the entries that count as applied are
  missing from it.
\<close>

theorem late_persist_leaks_into_next_test:
  assumes "test_ok N st" and "i < M" and "M \<le> N" and "end_test st = Inr st1"
  shows "\<exists>st2 st3. persist_node (int i) st1 = Inr st2 \<and>
     start_test io order (int M) (t_raft_files st2) (t_kv_files st2) = Inr st3 \<and>
     currentTerm (t_nodes st3 ! i) = currentTerm (t_nodes st ! i) \<and> log (t_nodes st3 ! i) = log (t_nodes st ! i) \<and>
     lastApplied (t_nodes st3 ! i) = lastApplied (t_nodes st ! i) \<and> t_stores st3 ! i = empty_store (int i)"
proof -
  from end_test_eq [OF assms(1)] assms(4) have st1: "test_ok N st1" "t_nodes st1 = t_nodes st"
     "\<forall>j < N. t_kv_files st1 (kv_filename (int j)) = None \<and> t_raft_files st1 (fname_raft_persistent (int j)) = NoFile"
    by auto
  let ?n = "PersistToStorage (t_nodes st ! i)"
  let ?rf = "(t_raft_files st1)(fname_raft_persistent (int i) := disk ?n)"
  let ?st2 = "st1\<lparr>t_nodes := (t_nodes st)[i := ?n], t_raft_files := ?rf\<rparr>"
  have p: "persist_node (int i) st1 = Inr ?st2"
    using st1(1,2) assms(2,3) by (simp add: persist_node_def test_ok_def Let_def)
  have M: "M < 2147483648" using assms(1,3) by (simp add: test_ok_def)
  have f: "file_ok (?rf (fname_raft_persistent (int j)))" "t_kv_files st1 (kv_filename (int j)) = None" if "j < M" for j
    using st1(3) that assms(3) by auto
  from start_test_Inr [of M ?rf io order "t_kv_files st1" "\<lambda>i. empty_store (int i)"] M f
  obtain st3 where st3: "start_test io order (int M) ?rf (t_kv_files st1) = Inr st3"
    "t_stores st3 = map (\<lambda>i. empty_store (int i)) [0..<M]"
    "node_state (t_nodes st3 ! i) = disk_state (?rf (fname_raft_persistent (int i)))"
    using assms(2) by (auto simp: InitializeStore_empty)
  have "node_state (t_nodes st3 ! i) = node_state (t_nodes st ! i)" using st3(3) by simp
  then have "currentTerm (t_nodes st3 ! i) = currentTerm (t_nodes st ! i) \<and> log (t_nodes st3 ! i) = log (t_nodes st ! i) \<and>
     lastApplied (t_nodes st3 ! i) = lastApplied (t_nodes st ! i)"
    by (simp add: node_state_def)
  moreover have "t_stores st3 ! i = empty_store (int i)" using st3(2) assms(2) by simp
  ultimately show ?thesis using p st3(1) by (intro exI [of _ ?st2] exI [of _ st3]) simp
qed

theorem late_persist_leaks_into_next_test_witness:
  "\<exists>st0 st st1 st2 st3. start_test True (\<lambda>_. []) 3 (\<lambda>_. NoFile) (\<lambda>_. None) = Inr st0 \<and>
     st = st0\<lparr>t_nodes := map (\<lambda>n. n\<lparr>log := demo_log\<rparr>) (t_nodes st0)\<rparr> \<and>
     end_test st = Inr st1 \<and> persist_node 0 st1 = Inr st2 \<and>
     start_test True (\<lambda>_. []) 2 (t_raft_files st2) (t_kv_files st2) = Inr st3 \<and> log (t_nodes st3 ! 0) = demo_log"
proof -
  from start_test_Inr [of 3 "\<lambda>_. NoFile" True "\<lambda>_. []" "\<lambda>_. None" "\<lambda>i. empty_store (int i)"] obtain st0 where
    st0: "start_test True (\<lambda>_. []) 3 (\<lambda>_. NoFile) (\<lambda>_. None) = Inr st0" "test_ok 3 st0"
    by (auto simp: InitializeStore_empty)
  let ?st = "st0\<lparr>t_nodes := map (\<lambda>n. n\<lparr>log := demo_log\<rparr>) (t_nodes st0)\<rparr>"
  have ok: "test_ok 3 ?st" and len: "length (t_nodes st0) = 3" using st0(2) by (simp_all add: test_ok_def)
  from end_test_eq [OF ok] obtain st1 where st1: "end_test ?st = Inr st1" by blast
  from late_persist_leaks_into_next_test [OF ok _ _ st1, of 0 2 True "\<lambda>_. []"] obtain st2 st3 where
    "persist_node 0 st1 = Inr st2" "start_test True (\<lambda>_. []) 2 (t_raft_files st2) (t_kv_files st2) = Inr st3"
    "log (t_nodes st3 ! 0) = log (t_nodes ?st ! 0)" by auto
  with st0(1) st1 len show ?thesis by auto
qed

section \<open>Requests of the harness\<close>

lemma find_leader_index:
  "find_leader ts k d = d \<or> (\<exists>j < length ts. find_leader ts k d = k + int j \<and> fst (ts ! j) \<and> state (snd (ts ! j)) = Leader)"
proof (induction ts k d rule: find_leader.induct)
  case (2 act node rest i d)
  let ?d = "if act then (if state node = Leader then i else d) else d"
  from 2 consider "find_leader rest (i + 1) ?d = ?d"
    | j where "j < length rest" "find_leader rest (i + 1) ?d = i + 1 + int j" "fst (rest ! j)" "state (snd (rest ! j)) = Leader"
    by blast
  then show ?case
  proof cases
    case 1
    then show ?thesis by (auto intro: exI [of _ 0])
  next
    case 2
    then show ?thesis by (auto intro: exI [of _ "Suc j"])
  qed
qed simp

lemma find_leader_none: "(\<forall>(act, node) \<in> set ts. \<not> (act \<and> state node = Leader)) \<Longrightarrow> find_leader ts k d = d"
  by (induction ts k d rule: find_leader.induct) auto

lemma find_leader_some:
  assumes "(act, node) \<in> set ts" and "act" and "state node = Leader" and "0 \<le> k"
  shows "0 \<le> find_leader ts k d"
  using assms
proof (induction ts k d rule: find_leader.induct)
  case (2 a n rest i d)
  show ?case
  proof (cases "(act, node) \<in> set rest")
    case True
    with 2 show ?thesis by simp
  next
    case False
    with 2 have "find_leader ((a, n) # rest) i d = find_leader rest (i + 1) i" by auto
    with find_leader_index [of rest "i + 1" i] 2 show ?thesis by auto
  qed
qed simp

lemma add_loop_eq:
  "add_loop answered addr is =
     (if \<forall>i \<in> set is. answered i then Inr (map (\<lambda>i. (addr, entry_request i)) is) else Inl NilDereference)"
  by (induction "is") auto

text \<open>
  The requests of the harness: with no active leader the test reports an error and makes no
  request; else all \<open>n\<close> requests go to one active leader, for distinct keys, and the harness panics
  when one of them gets no answer.
\<close>

theorem add_new_log_entries_posts:
  assumes "(True, node) \<in> set ts" and "state node = Leader"
  shows "\<exists>l < length ts. fst (ts ! l) \<and> state (snd (ts ! l)) = Leader \<and>
     add_new_log_entries ts answered n startIndex =
       (if \<forall>i \<in> {startIndex..<n + startIndex}. answered i
        then Inr (map (\<lambda>i. (server_address (int l), entry_request i)) [startIndex..n + startIndex - 1], [])
        else Inl NilDereference) \<and>
     distinct (map (\<lambda>i. url_key (entry_request i)) [startIndex..n + startIndex - 1])"
proof -
  from find_leader_some [OF assms(1) _ assms(2)] have "0 \<le> find_leader ts 0 (-1)" by simp
  with find_leader_index [of ts 0 "-1"] obtain l where
    l: "l < length ts" "find_leader ts 0 (-1) = int l" "fst (ts ! l)" "state (snd (ts ! l)) = Leader" by auto
  moreover have "distinct (map (\<lambda>i. url_key (entry_request i)) [startIndex..n + startIndex - 1])"
    by (simp add: distinct_map inj_on_def entry_request_def itoa_inj)
  moreover have "set [startIndex..n + startIndex - 1] = {startIndex..<n + startIndex}" by auto
  ultimately show ?thesis
    by (intro exI [of _ l]) (simp add: add_new_log_entries_def add_loop_eq server_address_def)
qed

theorem add_new_log_entries_posts_witness:
  "add_new_log_entries [(True, demo_replica 0), (True, (demo_replica 1)\<lparr>state := Leader\<rparr>)] (\<lambda>_. True) 2 5 =
     Inr ([(server_address 1, entry_request 5), (server_address 1, entry_request 6)], [])"
proof -
  let ?ts = "[(True, demo_replica 0), (True, (demo_replica 1)\<lparr>state := Leader\<rparr>)]"
  have u: "[5..6] = [5, 6 :: int]" by (simp add: upto_rec1)
  have d: "state (demo_replica 0) \<noteq> Leader" by (simp add: demo_replica_def initial_node_def Let_def)
  from add_new_log_entries_posts [of "(demo_replica 1)\<lparr>state := Leader\<rparr>" ?ts "\<lambda>_. True" 2 5] obtain l where
    l: "l < length ?ts" "state (snd (?ts ! l)) = Leader"
    "add_new_log_entries ?ts (\<lambda>_. True) 2 5 = Inr (map (\<lambda>i. (server_address (int l), entry_request i)) [5..2 + 5 - 1], [])"
    by auto
  have "l = 0 \<or> l = 1" using l(1) by auto
  with l d have "l = 1" by auto
  with l(3) u show ?thesis by simp
qed

end
