(* ===== verification/Spec2Isabelle.thy ===== *)
theory Spec2Isabelle
  imports Raft_Race Raft_Writers Raft_Lost_Write Raft_Failover Raft_Http Raft_Log Raft_Timer Raft_Locks Test_Harness
begin

text \<open>
  A verification library for distributed-dns, a replicated key-value store in Go.

  \<^bold>\<open>The program.\<close>  A replica is one process with three servers: a gRPC server for the two Raft
  RPCs, an HTTP server for clients, and a local HTTP key-value server.  A client's write goes to
  the leader (\<^verbatim>\<open>src/raft/raft_server.go\<close>), which appends it to its log and replicates the log
  with AppendEntries (\<^verbatim>\<open>src/raft/client.go\<close>, \<^verbatim>\<open>src/raft/send_AEs.go\<close>); followers handle the
  RPCs of \<^verbatim>\<open>src/raft/rpcs.go\<close>; the election timer and the vote goroutines
  (\<^verbatim>\<open>src/raft/election.go\<close>) and the transitions of \<^verbatim>\<open>src/raft/states.go\<close> change the role;
  \<open>ApplyToStateMachine\<close> of \<^verbatim>\<open>src/raft/raft_node.go\<close> replays committed entries, as HTTP requests,
  on the key-value server (\<^verbatim>\<open>src/raft/kv_store\<close>).  The Raft state and the key-value store are
  each written to a file after every change (\<^verbatim>\<open>src/raft/storage.go\<close>,
  \<^verbatim>\<open>src/raft/kv_store/saved.go\<close>).  A node's state is shared by its goroutines under one
  read-write lock.

  \<^bold>\<open>How it is modelled.\<close>  Every section of code between taking and giving up the lock is a
  function from the node (a record with the fields of the Go struct) to the node and a result.
  Panics and exits of the process are values (\<open>'a go\<close>), loops whose end is not evident are
  \<open>partial_function\<close>s with a theorem that they return, \<open>int32\<close> and \<open>int\<close> arithmetic is written
  out with its wrap-around.  Sends on channels and starts of goroutines are recorded in program
  order in the field \<open>effects\<close>.  The network, the scheduler and crashes are the event sequences
  of \<open>Raft_Cluster\<close>.

  \<^bold>\<open>The theories.\<close>
  \<^item> \<open>Prelude\<close>: integers of a fixed width, failures, checked indexing and slicing.
  \<^item> \<open>KV_LinkedList\<close>, \<open>KV_HashMap\<close>, \<open>KV_Store\<close>: the key-value server, from linked lists in a
    heap with explicit pointers over the hash table to the HTTP handlers and the file.  The
    locales \<open>kv_table\<close> and \<open>kv_table_framed\<close> state what the handlers need of the table; \<open>tab\<close>
    interprets them on the pointer implementation.  The handlers refine a finite map, and a
    restart recovers it, but for empty values.
  \<^item> \<open>Raft_Types\<close>, \<open>Raft_Storage\<close>, \<open>Raft_States\<close>: messages and structs, persistence with its
    round trip, the role transitions and the invariants of a single node.
  \<^item> \<open>Raft_RPCs\<close>: RequestVote and AppendEntries on every branch, with the log in closed form.
  \<^item> \<open>Raft_Send\<close>: the messages of the leader, the handling of a response with its retry loop
    (with fuel; one round per entry of the leader's log, plus one, is proved to be enough), and the counters that decide a round.
  \<^item> \<open>Raft_Log\<close>: what replication promises across replicas, and where log matching is lost.
  \<^item> \<open>Raft_Round\<close>: a whole round of \<open>LeaderSendAEs\<close> with its goroutines in any order and the fate
    of every call given by the network, and the loops that run rounds: the NO-OP loop of
    \<open>ToLeader\<close> and \<open>HeartBeats\<close>.
  \<^item> \<open>Raft_Interleaved\<close>: a round whose goroutines take turns in any order, with the stores into
    their shared message and the calls as turns of their own.  When all peers have the same next
    index every interleaving keeps the promises of a round.  \<open>Raft_Race\<close>: when they differ, a write
    can be acknowledged while the follower commits another entry in its place.
  \<^item> \<open>Raft_Client\<close>, \<open>Raft_Server\<close>: the sections of the commands and the HTTP handlers for clients.
  \<^item> \<open>Raft_Service\<close>: the commands in full over rounds, and the service as a client sees it.
  \<^item> \<open>Raft_Session\<close>: sequences of commands at one leader, which refine a finite map with the
    refusal of missing keys and repetitions; a leader that is behind with its log refines the
    lagging map, in which acknowledged writes wait in a queue.
  \<^item> \<open>Raft_Writers\<close>: commands of several clients, reads and the apply loop at one leader, in turns
    of the sections between the lock operations: the balance of log, commit index and
    acknowledged writes that every interleaving keeps.
  \<^item> \<open>Raft_Failover\<close>: the same as \<open>Raft_Session\<close> across a change of leader, from \<open>ToLeader\<close> over its NO-OP rounds and
    the apply loop to the requests of clients.
  \<^item> \<open>Raft_Http\<close>: the same at the level of HTTP, with routes, forms and the texts of the replies.
  \<^item> \<open>Http_Url\<close>: what becomes of an unescaped key in the URL of a request: the parsing of the
    URL by \<open>net/http\<close> and the cleaning and matching of the path by the router.  \<open>url_ok\<close> keys
    arrive unchanged; a query or fragment is cut off, and a lone percent sign is an error.
  \<^item> \<open>Raft_Apply\<close>: the apply loop over an HTTP transport that is a parameter; the locale
    \<open>http_transport\<close> is its contract for every key, \<open>lo\<close> the interpretation on the model of the
    server, which parses the URL again.  An entry whose key cannot be parsed stops the loop.
  \<^item> \<open>Raft_Setup\<close>: addresses, routes and the construction of a replica.
  \<^item> \<open>Raft_Election\<close>: the vote goroutines.
  \<^item> \<open>Election_Protocol\<close>: the abstract protocol of terms and votes, an inductive step relation
    with its invariant; election safety is proved in the locale \<open>voting\<close> for any family of
    intersecting quorums, and \<open>maj\<close> interprets it on the vote count of the code.
  \<^item> \<open>Raft_Cluster\<close>: all replicas together; every event of the cluster is simulated by steps of
    the abstract protocol, which gives election safety for the code,
    but for runs in which a vote goroutine reads a later term than its election's.
  \<^item> \<open>Raft_System\<close>: the whole system in one step function: the events of the cluster outside the
    rounds, the NO-OP loops, heartbeats and client commands of \<open>Raft_Round\<close> and \<open>Raft_Service\<close>, the
    apply loops and the key-value servers.  Each round, command and batch is carried out by events
    of the cluster, so that every run of the system is a run of the cluster, with the same exception.
  \<^item> \<open>Raft_Lost_Write\<close>: a run of that system among five replicas in which an acknowledged and
    applied write is lost.
  \<^item> \<open>Raft_Progress\<close>: after a timeout, every interleaving of the requests to a majority, their
    handling and the replies makes an up-to-date candidate leader.
  \<^item> \<open>Raft_Timer\<close>: the lock and the unbuffered channels of the election timer.
  \<^item> \<open>Raft_Locks\<close>: the lock, the commit channel and the verdict channels of the rounds as an
    inductive step relation over the lock and channel operations of all goroutines; any number of
    them, each along any of its paths.
  \<^item> \<open>Raft_Start\<close>: the start of the process from its flags, with the errors of the listener, the
    loops that poll the servers, and the text of fatal errors.
  \<^item> \<open>Raft_Lifecycle\<close>: the process from the signal to the collection of the reports of the
    components.
  \<^item> \<open>Test_Utils\<close>, \<open>Test_Harness\<close>: the checks of the test harness, related to the cluster, and the
    life of a test: start, crash, restart, requests and end.

  \<^bold>\<open>What the theorems show.\<close>  The key-value server implements a map and survives restarts; each
  Raft handler does what its branches say, never panics on requests with sane indices and keeps
  the node's invariants; a leader brings a follower's log to its own; applying equal logs gives
  equal stores; at most one replica wins an election per term, unless some vote goroutine reads
  a later term than the one it was started in.  Among peers in no newer term whose logs match the
  leader's, and with its goroutines one after another or with equal next indices, a round of
  AppendEntries never panics, gives one verdict, the majority's, and puts the leader's log on every
  peer that answers; under the first of these conditions a new leader synchronises its followers, an
  acknowledged write is on a majority at that moment, and every sequence of client requests whose
  rounds reach a majority is answered as a finite map answers it, in terms of HTTP too, for keys
  that URL parsing keeps and values other than \<open>Invalid\<close>; commands of several clients interleaved at a leader each append once, and the commit index
  counts the acknowledged ones; a successor that has the whole log committed and applied goes on with the map; and an up-to-date candidate
  whose messages to voters in no later term arrive wins.  Goroutines that do not send
  while they hold the lock all finish, from every state that their interleavings reach.  A replica
  starts exactly when it can listen and its servers answer before one has died, and its shutdown ends within twenty seconds.  Other theorems show where the code falls short:
  with a late vote goroutine two leaders of one term are possible (\<open>Raft_Cluster\<close>); a key with a
  lone percent sign stops the apply loop of every replica (\<open>Raft_Apply\<close>); a conflict is
  overwritten without cutting the log (\<open>Raft_Log\<close>), so that an acknowledged write can be lost
  (\<open>Raft_Lost_Write\<close>); the commit index is incremented rather than
  set, so that a failed write may be committed in place of a successful one (\<open>Raft_Client\<close>), and a
  read may miss an acknowledged write while another is under way (\<open>Raft_Writers\<close>); a
  round may end without a verdict (\<open>Raft_Send\<close>), and its message is shared between goroutines
  without a lock, which can replace an acknowledged entry (\<open>Raft_Race\<close>);
  a new leader counts its commits from an index behind the entries that it has inherited
  (\<open>Raft_Service\<close>), so that it answers reads without the writes that it has acknowledged
  (\<open>Raft_Failover\<close>); the lock can deadlock with the timer channels (\<open>Raft_Timer\<close>) and with the
  commit channel (\<open>Raft_Locks\<close>); the servers report their shutdown before their requests are done
  (\<open>Raft_Lifecycle\<close>), and a test may inherit the files of the one before (\<open>Test_Harness\<close>); and
  the files are not written atomically (\<open>Raft_Setup\<close>, \<open>KV_Store\<close>).

  \<^bold>\<open>Bounds and fuel.\<close>  The retry loop of \<open>Raft_Send\<close> takes fuel, and one call per entry of the
  leader's log plus one is proved to be enough.  In \<open>Raft_Round\<close> and \<open>Raft_Service\<close> the lists of
  fates, rounds and naps bound the run; where they end the code goes on waiting, and the result
  says so.  Indices stay below the bound of \<open>int32\<close> by hypothesis.

  \<^bold>\<open>Assumptions.\<close>  Files open and are written unless a statement says otherwise; the gob codec is
  the identity on the encoded map; in \<open>Raft_Cluster\<close> a write of the Raft file is atomic; gRPC
  delivers a request at most once per call, possibly late or never; the transport to the key-value
  server behaves as \<open>net/http\<close> and the router do on the URLs that the code builds
  (\<open>http_transport\<close>, with the parsing of \<open>Http_Url\<close>), and is up.

  \<^bold>\<open>Not modelled.\<close>  Log lines other than those of the shutdown and of fatal errors; sockets and HTTP connections (what they answer is
  a parameter); the deadlines of RPCs beyond an RPC that fails; the interleaving of the goroutines
  of one round with commands and elections inside the round (\<open>Raft_Round\<close> runs them one
  after the other, which the loops and commands are built on; \<open>Raft_Interleaved\<close> interleaves them
  with each other; \<open>Raft_Writers\<close> interleaves the sections of commands, with rounds as single
  turns; \<open>Raft_Cluster\<close> interleaves elections with any AppendEntries traffic; an action of \<open>Raft_System\<close> is a whole round or a whole
  command, and between two actions anything may happen); the getters, descriptors and gRPC glue of the generated
  protobuf code; and the test cases, which drive running servers with sleeps.
\<close>

end
